(* ===== verification/Sched_Prelude.thy ===== *)
theory Sched_Prelude
  imports Complex_Main "HOL-Library.Word" "HOL-Library.Multiset"
begin

text \<open>
  Shared material of the development: the C integer types as words, the ways in which a C
  function can fail to return normally as values of one error type, the result type
  \<open>cerr + 'a\<close> with its bind, and the generic lemmas on masks, cyclic indices and updated
  lists that the component theories use.
\<close>

unbundle bit_operations_syntax

named_theorems c_simps \<open>unfolding rules of the C-level helper definitions\<close>
named_theorems frame_simps \<open>fields that an operation leaves unchanged\<close>

section \<open>C types\<close>

type_synonym u8 = "8 word"
type_synonym u32 = "32 word"
type_synonym u64 = "64 word"
type_synonym size_t = "64 word"
type_synonym bytes = "8 word list"

text \<open>
  How a call can end other than by returning: the program calls \<open>exit\<close>, the library panics,
  or the code runs into behaviour that C leaves undefined (a signed overflow, an index outside
  an array, a read of an indeterminate value, a null pointer followed, memory used after it was freed, a division by zero, a floating-point value converted to an integer
  type that cannot hold it), or a loop does not end.
\<close>

datatype cerr =
    Panic string
  | Exit int
  | Signed_overflow
  | Out_of_bounds
  | Uninit_read
  | Bad_conversion
  | Div_by_zero
  | Null_deref
  | Dangling
  | Diverges

type_synonym 'a res = "cerr + 'a"

definition rbind :: "'a res \<Rightarrow> ('a \<Rightarrow> 'b res) \<Rightarrow> 'b res" where
  "rbind m f = (case m of Inl e \<Rightarrow> Inl e | Inr x \<Rightarrow> f x)"

lemma rbind_simps [simp]:
  "rbind (Inl e) f = Inl e"
  "rbind (Inr x) f = f x"
  by (simp_all add: rbind_def)

lemma rbind_Inr_iff: "rbind m f = Inr y \<longleftrightarrow> (\<exists>x. m = Inr x \<and> f x = Inr y)"
  by (cases m) simp_all

text \<open>A loop modelled by \<^theory_text>\<open>partial_function (option)\<close> returns \<open>None\<close> when it does not end.\<close>

definition of_loop :: "'a option \<Rightarrow> 'a res" where
  "of_loop r = (case r of None \<Rightarrow> Inl Diverges | Some x \<Rightarrow> Inr x)"

lemma of_loop_simps [simp]:
  "of_loop None = Inl Diverges"
  "of_loop (Some x) = Inr x"
  by (simp_all add: of_loop_def)

section \<open>Masks and cyclic indices\<close>

lemma unat_and_mask:
  fixes x m :: "'a::len word"
  assumes "unat m = 2 ^ p - 1"
  shows "unat (x AND m) = unat x mod 2 ^ p"
proof -
  have "unat (x AND m) = unat x AND unat m"
    by (simp add: unsigned_and_eq)
  also have "unat m = mask p"
    using assms by (simp add: mask_nat_def)
  finally show ?thesis
    by (simp add: take_bit_eq_mod flip: take_bit_eq_mask)
qed

lemma unat_succ:
  fixes a b :: "'a::len word"
  assumes "a < b"
  shows "unat (a + 1) = unat a + 1"
proof -
  have "unat b < 2 ^ LENGTH('a)" by (rule unsigned_less)
  with assms have "unat a + 1 < 2 ^ LENGTH('a)"
    by (metis Suc_eq_plus1 Suc_leI le_less_trans word_less_nat_alt)
  then show ?thesis by (simp add: unat_word_ariths)
qed

text \<open>\<open>nxt n i\<close> is the bucket after \<open>i\<close> in a table of \<open>n\<close> buckets.\<close>

definition nxt :: "nat \<Rightarrow> nat \<Rightarrow> nat" where
  "nxt n i = Suc i mod n"

lemma nxt_lt [simp]: "0 < n \<Longrightarrow> nxt n i < n"
  by (simp add: nxt_def)

lemma nxt_add: "nxt n ((i + s) mod n) = (i + Suc s) mod n"
  by (simp add: nxt_def mod_Suc_eq)

lemma nxt_neq: "i < n \<Longrightarrow> 1 < n \<Longrightarrow> nxt n i \<noteq> i"
  by (cases "Suc i = n") (auto simp: nxt_def)

lemma cyclic_reach:
  fixes i z n :: nat
  assumes "i < n" "z < n"
  obtains s where "s < n" "(i + s) mod n = z"
proof (cases "i \<le> z")
  case True
  with assms show thesis by (intro that [of "z - i"]) auto
next
  case False
  with assms have "(i + (n - i + z)) mod n = z" by simp
  with False assms show thesis by (intro that [of "n - i + z"]) auto
qed

section \<open>Lists updated in place\<close>

lemma mset_filter_update:
  assumes "i < length xs"
  shows "filter_mset P (mset (xs[i := v]))
     = filter_mset P (mset xs) - (if P (xs ! i) then {#xs ! i#} else {#}) + (if P v then {#v#} else {#})"
  using assms by (simp add: mset_update nth_mem filter_diff_mset)

lemma mset_swap_in:
  assumes "x \<in># M"
  shows "add_mset x (M - {#x#}) = M"
  using assms by simp

end
