(* ===== verification/C_Float.thy ===== *)
theory C_Float
  imports Sched_Prelude "HOL-Library.Log_Nat"
begin

text \<open>
  The C types \<open>double\<close> and \<open>float\<close> as the sources use them: IEEE 754 binary64 and binary32 with
  round-to-nearest-even. A value is a rational number, an infinity or NaN, and every arithmetic
  operation is the exact one followed by the rounding of its format, so that the double rounding
  of \<open>float\<close> variables computed in \<open>double\<close> expressions is visible. Subnormal numbers and
  overflow to infinity are included; the sign of zero is not represented (no source expression
  divides by a negative zero).
\<close>

section \<open>Rounding\<close>

definition pow2 :: "int \<Rightarrow> rat" where
  "pow2 e = (if 0 \<le> e then of_int (2 ^ nat e) else 1 / of_int (2 ^ nat (- e)))"

text \<open>\<open>ilog2 x\<close> is the exponent of the leading bit of a positive \<open>x\<close>.\<close>

definition ilog2 :: "rat \<Rightarrow> int" where
  "ilog2 x = (let (a, b) = quotient_of x; e = bitlen a - bitlen b
              in if pow2 e \<le> x then e else e - 1)"

definition round_half_even :: "rat \<Rightarrow> int" where
  "round_half_even x = (let f = \<lfloor>x\<rfloor>; d = x - of_int f
     in if d < 1 / 2 then f else if d > 1 / 2 then f + 1 else if even f then f else f + 1)"

text \<open>\<open>ulp_exp p emin x\<close> is the exponent of the last bit of a \<open>p\<close>-bit significand at \<open>x\<close>.\<close>

definition ulp_exp :: "int \<Rightarrow> int \<Rightarrow> rat \<Rightarrow> int" where
  "ulp_exp p emin x = max (ilog2 x - p + 1) emin"

definition round_pos :: "int \<Rightarrow> int \<Rightarrow> rat \<Rightarrow> rat" where
  "round_pos p emin x = of_int (round_half_even (x / pow2 (ulp_exp p emin x))) * pow2 (ulp_exp p emin x)"

definition round_rat :: "int \<Rightarrow> int \<Rightarrow> rat \<Rightarrow> rat" where
  "round_rat p emin x = (if x = 0 then 0 else if x < 0 then - round_pos p emin (- x) else round_pos p emin x)"

section \<open>Values and operations\<close>

datatype fp = NaN | Infty bool | Fin rat  \<comment> \<open>\<open>Infty True\<close> is negative\<close>

definition fp_of :: "int \<Rightarrow> int \<Rightarrow> int \<Rightarrow> rat \<Rightarrow> fp" where
  "fp_of p emin emax x = (let r = round_rat p emin x
     in if r \<noteq> 0 \<and> emax \<le> ilog2 \<bar>r\<bar> then Infty (r < 0) else Fin r)"

definition d_of :: "rat \<Rightarrow> fp" where
  "d_of = fp_of 53 (- 1074) 1024"

definition f_of :: "rat \<Rightarrow> fp" where
  "f_of = fp_of 24 (- 149) 128"

fun fp_conv :: "(rat \<Rightarrow> fp) \<Rightarrow> fp \<Rightarrow> fp" where
  "fp_conv r NaN = NaN"
| "fp_conv r (Infty s) = Infty s"
| "fp_conv r (Fin x) = r x"

fun fp_neg :: "fp \<Rightarrow> fp" where
  "fp_neg NaN = NaN"
| "fp_neg (Infty s) = Infty (\<not> s)"
| "fp_neg (Fin x) = Fin (- x)"

fun fp_add :: "(rat \<Rightarrow> fp) \<Rightarrow> fp \<Rightarrow> fp \<Rightarrow> fp" where
  "fp_add r (Fin x) (Fin y) = r (x + y)"
| "fp_add r (Infty s) (Fin y) = Infty s"
| "fp_add r (Fin x) (Infty t) = Infty t"
| "fp_add r (Infty s) (Infty t) = (if s = t then Infty s else NaN)"
| "fp_add r _ _ = NaN"

definition fp_sub :: "(rat \<Rightarrow> fp) \<Rightarrow> fp \<Rightarrow> fp \<Rightarrow> fp" where
  "fp_sub r x y = fp_add r x (fp_neg y)"

fun fp_mul :: "(rat \<Rightarrow> fp) \<Rightarrow> fp \<Rightarrow> fp \<Rightarrow> fp" where
  "fp_mul r (Fin x) (Fin y) = r (x * y)"
| "fp_mul r (Infty s) (Fin y) = (if y = 0 then NaN else Infty (s \<noteq> (y < 0)))"
| "fp_mul r (Fin x) (Infty t) = (if x = 0 then NaN else Infty ((x < 0) \<noteq> t))"
| "fp_mul r (Infty s) (Infty t) = Infty (s \<noteq> t)"
| "fp_mul r _ _ = NaN"

fun fp_div :: "(rat \<Rightarrow> fp) \<Rightarrow> fp \<Rightarrow> fp \<Rightarrow> fp" where
  "fp_div r (Fin x) (Fin y) =
     (if y = 0 then (if x = 0 then NaN else Infty (x < 0)) else r (x / y))"
| "fp_div r (Infty s) (Fin y) = Infty (s \<noteq> (y < 0))"
| "fp_div r (Fin x) (Infty t) = Fin 0"
| "fp_div r _ _ = NaN"

text \<open>Comparisons are false when an operand is NaN.\<close>

fun fp_lt :: "fp \<Rightarrow> fp \<Rightarrow> bool" where
  "fp_lt (Fin x) (Fin y) = (x < y)"
| "fp_lt (Infty s) (Fin y) = s"
| "fp_lt (Fin x) (Infty t) = (\<not> t)"
| "fp_lt (Infty s) (Infty t) = (s \<and> \<not> t)"
| "fp_lt _ _ = False"

abbreviation dadd where "dadd \<equiv> fp_add d_of"
abbreviation dsub where "dsub \<equiv> fp_sub d_of"
abbreviation dmul where "dmul \<equiv> fp_mul d_of"
abbreviation ddiv where "ddiv \<equiv> fp_div d_of"
abbreviation fadd where "fadd \<equiv> fp_add f_of"
abbreviation fsub where "fsub \<equiv> fp_sub f_of"
abbreviation fdiv where "fdiv \<equiv> fp_div f_of"

text \<open>\<open>(double) w\<close> and \<open>(float) w\<close> of an unsigned long, and \<open>(float) d\<close> of a double.\<close>

definition d_ulong :: "64 word \<Rightarrow> fp" where
  "d_ulong w = d_of (of_nat (unat w))"

definition f_ulong :: "64 word \<Rightarrow> fp" where
  "f_ulong w = f_of (of_nat (unat w))"

definition to_float :: "fp \<Rightarrow> fp" where
  "to_float x = fp_conv f_of x"

text \<open>Conversion to \<open>size_t\<close> truncates towards zero and is undefined out of range.\<close>

fun fp_to_size :: "fp \<Rightarrow> size_t res" where
  "fp_to_size (Fin x) = (if - 1 < x \<and> x < 2 ^ 64
      then Inr (of_int (if x < 0 then 0 else \<lfloor>x\<rfloor>)) else Inl Bad_conversion)"
| "fp_to_size _ = Inl Bad_conversion"

section \<open>Facts about the rounding\<close>

lemma pow2_powi: "pow2 e = 2 powi e"
  by (cases "0 \<le> e") (simp_all add: pow2_def power_int_def inverse_eq_divide power_one_over)

lemma pow2_gt_0 [simp]: "0 < pow2 e"
  by (simp add: pow2_powi)

lemma pow2_neq_0 [simp]: "pow2 e \<noteq> 0"
  by (simp add: pow2_powi)

lemma pow2_add: "pow2 (a + b) = pow2 a * pow2 b"
  by (simp add: pow2_powi power_int_add)

lemma pow2_le_iff [simp]: "pow2 a \<le> pow2 b \<longleftrightarrow> a \<le> b"
  unfolding pow2_powi by (metis power_int_strict_increasing power_int_increasing one_less_numeral_iff semiring_norm(76) not_le one_le_numeral)

lemma pow2_less_iff [simp]: "pow2 a < pow2 b \<longleftrightarrow> a < b"
  by (simp flip: not_le)

lemma pow2_nat: "pow2 (int n) = 2 ^ n"
  by (simp add: pow2_def)

lemma pow2_diff_int:
  assumes "a \<le> b"
  shows "pow2 b = of_int (2 ^ nat (b - a)) * pow2 a"
proof -
  have "pow2 b = pow2 (b - a) * pow2 a" by (simp flip: pow2_add)
  with assms show ?thesis by (simp add: pow2_def)
qed

lemma bitlen_pow2_bounds:
  assumes "0 < a"
  shows "pow2 (bitlen a - 1) \<le> of_int a" and "of_int a < pow2 (bitlen a)"
proof -
  have b: "2 ^ nat (bitlen a - 1) \<le> a" "a < 2 ^ nat (bitlen a)"
    using bitlen_bounds [OF assms] by auto
  have "0 < bitlen a"
    using assms bitlen_nonneg [of a] bitlen_eq_zero_iff [of a] by linarith
  then have "pow2 (bitlen a - 1) = of_int (2 ^ nat (bitlen a - 1))" "pow2 (bitlen a) = of_int (2 ^ nat (bitlen a))"
    by (simp_all add: pow2_def)
  with b show "pow2 (bitlen a - 1) \<le> of_int a" "of_int a < pow2 (bitlen a)"
    by (simp_all only: of_int_le_iff of_int_less_iff)
qed

lemma ilog2_bounds:
  assumes "0 < x"
  shows "pow2 (ilog2 x) \<le> x" and "x < pow2 (ilog2 x + 1)"
proof -
  obtain a b where q: "quotient_of x = (a, b)" by force
  have b: "0 < b" using q by (rule quotient_of_denom_pos)
  have x: "x = of_int a / of_int b" using q by (rule quotient_of_div)
  have a: "0 < a" using assms b x by (simp add: zero_less_divide_iff)
  let ?e = "bitlen a - bitlen b"
  note A = bitlen_pow2_bounds [OF a] and B = bitlen_pow2_bounds [OF b]
  have "x * of_int b < pow2 (bitlen a)" using A x b by simp
  also have "\<dots> = pow2 (?e + 1) * pow2 (bitlen b - 1)" by (simp flip: pow2_add)
  also have "\<dots> \<le> pow2 (?e + 1) * of_int b" using B by simp
  finally have hi: "x < pow2 (?e + 1)" using b by simp
  have "pow2 (?e - 1) * of_int b < pow2 (?e - 1) * pow2 (bitlen b)" using B by simp
  also have "\<dots> = pow2 (bitlen a - 1)" by (simp flip: pow2_add)
  also have "\<dots> \<le> x * of_int b" using A x b by simp
  finally have lo: "pow2 (?e - 1) \<le> x" using b by simp
  from hi lo show "pow2 (ilog2 x) \<le> x" and "x < pow2 (ilog2 x + 1)"
    by (auto simp: ilog2_def q Let_def)
qed

lemma ilog2_eqI:
  assumes "pow2 k \<le> x" "x < pow2 (k + 1)"
  shows "ilog2 x = k"
proof -
  have x: "0 < x" using assms(1) pow2_gt_0 [of k] by linarith
  have "pow2 k < pow2 (ilog2 x + 1)" "pow2 (ilog2 x) < pow2 (k + 1)"
    using assms ilog2_bounds [OF x] by linarith+
  then show ?thesis by simp
qed

lemma ilog2_mono:
  assumes "0 < x" "x \<le> y"
  shows "ilog2 x \<le> ilog2 y"
proof -
  have "pow2 (ilog2 x) < pow2 (ilog2 y + 1)"
    using ilog2_bounds(1) [OF assms(1)] ilog2_bounds(2) [of y] assms by linarith
  then show ?thesis by simp
qed

lemma round_half_even_int [simp]: "round_half_even (of_int m) = m"
  by (simp add: round_half_even_def)

lemma round_half_even_bounds: "\<lfloor>x\<rfloor> \<le> round_half_even x" "round_half_even x \<le> \<lfloor>x\<rfloor> + 1"
  by (simp_all add: round_half_even_def Let_def)

lemma round_half_even_mono:
  assumes "x \<le> y"
  shows "round_half_even x \<le> round_half_even y"
proof (cases "\<lfloor>x\<rfloor> = \<lfloor>y\<rfloor>")
  case True
  with assms show ?thesis by (auto simp: round_half_even_def Let_def)
next
  case False
  with assms have "\<lfloor>x\<rfloor> + 1 \<le> \<lfloor>y\<rfloor>" using floor_mono [OF assms] by linarith
  with round_half_even_bounds [of x] round_half_even_bounds [of y] show ?thesis by linarith
qed

lemma round_pos_le:
  assumes "x \<le> of_int m * pow2 (ulp_exp p emin x)"
  shows "round_pos p emin x \<le> of_int m * pow2 (ulp_exp p emin x)"
proof -
  have "x / pow2 (ulp_exp p emin x) \<le> of_int m"
    using assms by (simp add: pos_divide_le_eq)
  from round_half_even_mono [OF this] show ?thesis
    by (simp add: round_pos_def)
qed

lemma round_pos_ge:
  assumes "of_int m * pow2 (ulp_exp p emin x) \<le> x"
  shows "of_int m * pow2 (ulp_exp p emin x) \<le> round_pos p emin x"
proof -
  have "of_int m \<le> x / pow2 (ulp_exp p emin x)"
    using assms by (simp add: pos_le_divide_eq)
  from round_half_even_mono [OF this] show ?thesis
    by (simp add: round_pos_def)
qed

lemma round_pos_exact:
  assumes "x = of_int m * pow2 q" "ulp_exp p emin x \<le> q"
  shows "round_pos p emin x = x"
proof -
  have "x = of_int (m * 2 ^ nat (q - ulp_exp p emin x)) * pow2 (ulp_exp p emin x)"
    using assms pow2_diff_int [OF assms(2)] by simp
  then show ?thesis using round_pos_le [of x _ p emin] round_pos_ge [of _ p emin x]
    by (metis order.refl order_antisym)
qed

lemma round_pos_mono:
  assumes "0 < x" "x \<le> y" "1 \<le> p"
  shows "round_pos p emin x \<le> round_pos p emin y"
proof (cases "ulp_exp p emin x = ulp_exp p emin y")
  case True
  then show ?thesis
    using assms round_half_even_mono [of "x / pow2 (ulp_exp p emin x)" "y / pow2 (ulp_exp p emin x)"]
    by (simp add: round_pos_def divide_right_mono order_less_imp_le)
next
  case False
  let ?k = "ilog2 y"
  have lt: "ilog2 x < ?k" and le: "ulp_exp p emin x \<le> ulp_exp p emin y" and k: "ulp_exp p emin y \<le> ?k"
    using False ilog2_mono [OF assms(1,2)] assms(3) by (auto simp: ulp_exp_def max_def split: if_splits)
  have "x < pow2 (ilog2 x + 1)" using assms(1) by (rule ilog2_bounds)
  also have "\<dots> \<le> pow2 ?k" using lt by simp
  finally have "round_pos p emin x \<le> pow2 ?k"
    using round_pos_le [of x _ p emin] pow2_diff_int [of "ulp_exp p emin x" ?k] le k
    by (metis less_imp_le order_trans)
  also have "pow2 ?k \<le> round_pos p emin y"
    using round_pos_ge [of _ p emin y] pow2_diff_int [OF k] ilog2_bounds(1) [of y] assms
    by (metis less_le_trans)
  finally show ?thesis .
qed

lemma round_pos_nonneg: "0 < x \<Longrightarrow> 0 \<le> round_pos p emin x"
  using round_pos_ge [of 0 p emin x] by simp

theorem round_rat_mono:
  assumes "x \<le> y" "1 \<le> p"
  shows "round_rat p emin x \<le> round_rat p emin y"
proof -
  consider "0 < x" | "x = 0" | "x < 0" "0 \<le> y" | "y < 0" using assms by linarith
  then show ?thesis
  proof cases
    case 3
    then have "round_rat p emin x \<le> 0" "0 \<le> round_rat p emin y"
      using round_pos_nonneg [of "- x" p emin] round_pos_nonneg [of y p emin]
      by (auto simp: round_rat_def)
    then show ?thesis by linarith
  qed (use assms round_pos_mono [of x y p emin] round_pos_mono [of "- y" "- x" p emin]
         round_pos_nonneg [of y p emin] in \<open>auto simp: round_rat_def\<close>)
qed

lemma round_rat_0 [simp]: "round_rat p emin 0 = 0"
  by (simp add: round_rat_def)

lemma round_rat_minus: "round_rat p emin (- x) = - round_rat p emin x"
  by (simp add: round_rat_def)

lemma round_rat_nonneg: "0 \<le> x \<Longrightarrow> 1 \<le> p \<Longrightarrow> 0 \<le> round_rat p emin x"
  using round_rat_mono [of 0 x p emin] by simp

text \<open>A number with at most \<open>p\<close> significant bits, none below \<open>2 ^ emin\<close>, is not changed.\<close>

lemma round_rat_exact:
  assumes "x = of_int m * pow2 q" "\<bar>m\<bar> < 2 ^ n" "emin \<le> q"
  shows "round_rat (int n) emin x = x"
proof -
  have pos: "round_pos (int n) emin y = y" if "0 < y" "y = of_int k * pow2 q" "\<bar>k\<bar> < 2 ^ n" for y k
  proof -
    have "0 < k" using that(1,2) pow2_gt_0 [of q] by (simp add: zero_less_mult_iff)
    then have "of_int k < (2 ^ n :: rat)" using that(3)
      by (metis abs_of_pos of_int_less_iff of_int_numeral of_int_power)
    then have "y < pow2 (int n + q)" using that(2) by (simp add: pow2_add pow2_nat)
    moreover have "pow2 (ilog2 y) \<le> y" using that(1) by (rule ilog2_bounds)
    ultimately have "pow2 (ilog2 y) < pow2 (int n + q)" by linarith
    then have "ulp_exp (int n) emin y \<le> q" using assms(3) by (simp add: ulp_exp_def)
    with that(2) show ?thesis by (rule round_pos_exact)
  qed
  show ?thesis
  proof (cases x "0 :: rat" rule: linorder_cases)
    case less
    then show ?thesis using pos [of "- x" "- m"] assms by (simp add: round_rat_def)
  next
    case greater
    then show ?thesis using pos [of x m] assms by (simp add: round_rat_def)
  qed simp
qed

section \<open>The rounding contract and its consequences for the operations\<close>

fun fp_in :: "rat \<Rightarrow> rat \<Rightarrow> fp \<Rightarrow> bool" where
  "fp_in lo hi (Fin x) = (lo \<le> x \<and> x \<le> hi)"
| "fp_in lo hi _ = False"

lemma fp_in_iff: "fp_in lo hi v \<longleftrightarrow> (\<exists>x. v = Fin x \<and> lo \<le> x \<and> x \<le> hi)"
  by (cases v) auto

lemma fp_in_mono: "fp_in lo hi v \<Longrightarrow> lo' \<le> lo \<Longrightarrow> hi \<le> hi' \<Longrightarrow> fp_in lo' hi' v"
  by (cases v) auto

locale rounding =
  fixes r :: "rat \<Rightarrow> fp"
  assumes r_zero: "r 0 = Fin 0"
    and r_between: "r lo = Fin lo \<Longrightarrow> r hi = Fin hi \<Longrightarrow> lo \<le> x \<Longrightarrow> x \<le> hi \<Longrightarrow> fp_in lo hi (r x)"
    and r_mono: "x \<le> y \<Longrightarrow> r x = Fin a \<Longrightarrow> r y = Fin b \<Longrightarrow> a \<le> b"
begin

lemma add_in:
  assumes "fp_in la ha x" "fp_in lb hb y" "r (la + lb) = Fin (la + lb)" "r (ha + hb) = Fin (ha + hb)"
  shows "fp_in (la + lb) (ha + hb) (fp_add r x y)"
  using assms by (auto simp: fp_in_iff [of _ _ x] fp_in_iff [of _ _ y] intro!: r_between)

lemma mul_in:
  assumes "fp_in 0 ha x" "fp_in 0 hb y" "r (ha * hb) = Fin (ha * hb)"
  shows "fp_in 0 (ha * hb) (fp_mul r x y)"
  using assms by (auto simp: fp_in_iff [of _ _ x] fp_in_iff [of _ _ y] intro!: r_between r_zero mult_mono)

lemma div_in_unit:
  assumes "0 \<le> x" "x \<le> y" "0 < y" "r 1 = Fin 1"
  shows "fp_in 0 1 (fp_div r (Fin x) (Fin y))"
  using assms by (auto intro!: r_between r_zero)

lemma div_self: "y \<noteq> 0 \<Longrightarrow> fp_div r (Fin y) (Fin y) = r 1"
  by simp

end

lemma fp_of_zero [simp]: "fp_of p emin emax 0 = Fin 0"
  by (simp add: fp_of_def)

lemma fp_of_Fin: "fp_of p emin emax x = Fin a \<Longrightarrow> a = round_rat p emin x"
  by (auto simp: fp_of_def Let_def split: if_splits)

lemma fp_of_between:
  assumes lo: "fp_of p emin emax lo = Fin lo" and hi: "fp_of p emin emax hi = Fin hi"
    and x: "lo \<le> x" "x \<le> hi" and p: "1 \<le> p"
  shows "fp_in lo hi (fp_of p emin emax x)"
proof -
  let ?r = "round_rat p emin x"
  have "lo = round_rat p emin lo" "hi = round_rat p emin hi" using lo hi by (auto dest: fp_of_Fin)
  with x p have b: "lo \<le> ?r" "?r \<le> hi" by (metis round_rat_mono)+
  have small: "v \<noteq> 0 \<Longrightarrow> ilog2 \<bar>v\<bar> < emax" if "fp_of p emin emax v = Fin v" for v
    using that fp_of_Fin [OF that] by (auto simp: fp_of_def Let_def split: if_splits)
  have "\<bar>?r\<bar> \<le> \<bar>lo\<bar> \<or> \<bar>?r\<bar> \<le> \<bar>hi\<bar>" using b by linarith
  then have "ilog2 \<bar>?r\<bar> < emax" if "?r \<noteq> 0"
  proof (elim disjE)
    assume "\<bar>?r\<bar> \<le> \<bar>lo\<bar>"
    with that have "ilog2 \<bar>?r\<bar> \<le> ilog2 \<bar>lo\<bar>" "lo \<noteq> 0" by (auto intro: ilog2_mono)
    with small [OF lo] show ?thesis by linarith
  next
    assume "\<bar>?r\<bar> \<le> \<bar>hi\<bar>"
    with that have "ilog2 \<bar>?r\<bar> \<le> ilog2 \<bar>hi\<bar>" "hi \<noteq> 0" by (auto intro: ilog2_mono)
    with small [OF hi] show ?thesis by linarith
  qed
  with b show ?thesis by (auto simp: fp_of_def Let_def)
qed

lemma fp_of_mono:
  assumes "x \<le> y" "fp_of p emin emax x = Fin a" "fp_of p emin emax y = Fin b" "1 \<le> p"
  shows "a \<le> b"
  using fp_of_Fin [OF assms(2)] fp_of_Fin [OF assms(3)] round_rat_mono [OF assms(1,4)] by simp

lemma fp_of_rounding: "1 \<le> p \<Longrightarrow> rounding (fp_of p emin emax)"
  by unfold_locales (rule fp_of_zero, erule fp_of_between, assumption+, erule fp_of_mono, assumption+)

interpretation dbl: rounding d_of
  unfolding d_of_def by (rule fp_of_rounding) simp

interpretation flt: rounding f_of
  unfolding f_of_def by (rule fp_of_rounding) simp

lemma fp_of_exact:
  assumes "x = of_int m * pow2 q" "\<bar>m\<bar> < 2 ^ n" "emin \<le> q" "int n + q \<le> emax"
  shows "fp_of (int n) emin emax x = Fin x"
proof -
  have "ilog2 \<bar>x\<bar> < emax" if "x \<noteq> 0"
  proof -
    have "\<bar>x\<bar> = of_int \<bar>m\<bar> * pow2 q" using assms(1) pow2_gt_0 [of q] by (simp add: abs_mult abs_of_pos)
    also have "\<dots> < of_int (2 ^ n) * pow2 q" using assms(2) by (intro mult_strict_right_mono) (simp_all only: of_int_less_iff pow2_gt_0)
    also have "\<dots> = pow2 (int n + q)" by (simp add: pow2_add pow2_nat)
    finally have "\<bar>x\<bar> < pow2 (int n + q)" .
    with ilog2_bounds(1) [of "\<bar>x\<bar>"] that have "pow2 (ilog2 \<bar>x\<bar>) < pow2 (int n + q)" by linarith
    then show ?thesis using assms(4) by simp
  qed
  with round_rat_exact [OF assms(1-3)] show ?thesis by (auto simp: fp_of_def Let_def)
qed

lemma d_of_exact:
  "x = of_int m * pow2 q \<Longrightarrow> \<bar>m\<bar> < 2 ^ 53 \<Longrightarrow> - 1074 \<le> q \<Longrightarrow> q \<le> 971 \<Longrightarrow> d_of x = Fin x"
  using fp_of_exact [of x m q 53 "- 1074" 1024] by (simp add: d_of_def)

lemma f_of_exact:
  "x = of_int m * pow2 q \<Longrightarrow> \<bar>m\<bar> < 2 ^ 24 \<Longrightarrow> - 149 \<le> q \<Longrightarrow> q \<le> 104 \<Longrightarrow> f_of x = Fin x"
  using fp_of_exact [of x m q 24 "- 149" 128] by (simp add: f_of_def)

lemma d_of_int: "\<bar>m\<bar> < 2 ^ 53 \<Longrightarrow> d_of (of_int m) = Fin (of_int m)"
  by (rule d_of_exact [where q = 0]) (auto simp: pow2_def)

lemma f_of_int: "\<bar>m\<bar> < 2 ^ 24 \<Longrightarrow> f_of (of_int m) = Fin (of_int m)"
  by (rule f_of_exact [where q = 0]) (auto simp: pow2_def)

lemma d_of_nat: "n < 2 ^ 53 \<Longrightarrow> d_of (of_nat n) = Fin (of_nat n)"
  using d_of_int [of "int n"] by simp

lemma f_of_nat: "n < 2 ^ 24 \<Longrightarrow> f_of (of_nat n) = Fin (of_nat n)"
  using f_of_int [of "int n"] by simp

lemma d_of_numeral [simp]:
  "d_of 0 = Fin 0" "d_of 1 = Fin 1"
  "numeral k < (2 ^ 53 :: int) \<Longrightarrow> d_of (numeral k) = Fin (numeral k)"
  using d_of_int [of "numeral k"] d_of_int [of 1] d_of_int [of 0] by simp_all

lemma f_of_numeral [simp]:
  "f_of 0 = Fin 0" "f_of 1 = Fin 1"
  "numeral k < (2 ^ 24 :: int) \<Longrightarrow> f_of (numeral k) = Fin (numeral k)"
  using f_of_int [of "numeral k"] f_of_int [of 1] f_of_int [of 0] by simp_all

lemma fp_to_size_nat:
  assumes "k < 2 ^ 64"
  shows "fp_to_size (Fin (of_nat k)) = Inr (of_nat k)"
proof -
  have "(of_nat k :: rat) < of_nat (2 ^ 64)" using assms by (simp only: of_nat_less_iff)
  moreover have "(- 1 :: rat) < of_nat k" using of_nat_0_le_iff [of k] by (rule less_le_trans [rotated]) simp
  ultimately show ?thesis by simp
qed

end
