(* ===== verification/Recorder.thy ===== *)
theory Recorder
  imports C_Float
begin

text \<open>
  \<open>recorder.h\<close> and \<open>recorder.c\<close>: the table of allocations \<open>g_tier_manager\<close> that all threads
  share, and the two operations of the interception thread on it, \<open>insert_object\<close> and
  \<open>deallocate_object\<close>, which split an allocation larger than \<open>CHUNK_SIZE\<close> into chunks.

  The C arrays of length \<open>MAX_OBJECTS\<close> are functions of the index; every access that the code does
  not bound by a constant is checked and gives \<open>Out_of_bounds\<close>. Reading the clock starts a shell
  (\<open>popen\<close>), which may fail: the readings are the argument \<open>clk\<close>, a sequence of optional values,
  and \<open>ticks\<close> counts the readings made. The page size is the argument \<open>pagesize\<close>.
\<close>

unbundle bit_operations_syntax

section \<open>Data\<close>

abbreviation (input) MAX_OBJECTS :: nat where "MAX_OBJECTS \<equiv> 2000"

abbreviation (input) CHUNK_SIZE :: u64 where "CHUNK_SIZE \<equiv> 1000001536"

abbreviation (input) MEM_LEVELS :: nat where "MEM_LEVELS \<equiv> 5"

abbreviation (input) NODE_0_DRAM :: int where "NODE_0_DRAM \<equiv> 0"

abbreviation (input) NODE_0_PMEM :: int where "NODE_0_PMEM \<equiv> 2"

datatype bind_type = INITIAL_DATAPLACEMENT | PROMOTION | DEMOTION

record data_bind =
  d_start_addr :: u64
  d_size :: u64
  d_nodemask_target_node :: u64
  d_obj_index :: int
  d_type :: bind_type
  d_flag :: int

record metrics =
  sum_latency_cost :: "nat \<Rightarrow> fp"
  loads_count :: "nat \<Rightarrow> fp"
  stores_count :: fp
  tlb_hit :: "nat \<Rightarrow> fp"
  tlb_miss :: "nat \<Rightarrow> fp"

record object =
  o_start_addr :: u64
  o_end_addr :: u64
  o_size :: u64
  o_pages :: u64
  o_birth_date :: fp
  o_page_status :: "nat \<Rightarrow> fp"
  o_sliced :: int
  o_obj_index :: int
  o_pid :: int
  o_last_decision :: int
  o_metrics :: metrics

record tier_manager =
  obj_vector :: "nat \<Rightarrow> object"
  obj_alloc :: "nat \<Rightarrow> int"
  pids_to_manager :: "nat \<Rightarrow> int"
  total_obj :: int
  total_dram_mapped_gb :: fp

text \<open>What the threads share: the table, the messages written to \<open>migration.pipe\<close>, the clock.\<close>

record world =
  tm :: tier_manager
  migration_pipe :: "data_bind list"
  ticks :: nat

text \<open>The recorder adds the \<open>static int index\<close> of \<open>_insert_object\<close> and its descriptor of the pipe.\<close>

record recorder = world +
  rec_index :: nat
  rec_pipe_fd :: int

text \<open>An object of zeroed static storage, and the table at program start.\<close>

definition zero_metrics :: metrics where
  "zero_metrics = \<lparr>sum_latency_cost = \<lambda>_. Fin 0, loads_count = \<lambda>_. Fin 0, stores_count = Fin 0,
     tlb_hit = \<lambda>_. Fin 0, tlb_miss = \<lambda>_. Fin 0\<rparr>"

definition zero_object :: object where
  "zero_object = \<lparr>o_start_addr = 0, o_end_addr = 0, o_size = 0, o_pages = 0, o_birth_date = Fin 0,
     o_page_status = \<lambda>_. Fin 0, o_sliced = 0, o_obj_index = 0, o_pid = 0, o_last_decision = 0,
     o_metrics = zero_metrics\<rparr>"

definition zero_tier_manager :: tier_manager where
  "zero_tier_manager = \<lparr>obj_vector = \<lambda>_. zero_object, obj_alloc = \<lambda>_. 0, pids_to_manager = \<lambda>_. 0,
     total_obj = 0, total_dram_mapped_gb = Fin 0\<rparr>"

section \<open>Helpers\<close>

definition guard :: "int \<Rightarrow> int" where
  "guard ret = (if ret = - 1 then - 1 else ret)"

definition get_my_timestamp :: "(nat \<Rightarrow> fp option) \<Rightarrow> 'z world_scheme \<Rightarrow> (fp \<times> 'z world_scheme) res" where
  "get_my_timestamp clk w =
     (case clk (ticks w) of None \<Rightarrow> Inl (Exit 1) | Some t \<Rightarrow> Inr (t, w\<lparr>ticks := ticks w + 1\<rparr>))"

text \<open>\<open>open_result\<close> is what \<open>open\<close> returns for \<open>migration.pipe\<close>.\<close>

definition recorder_open_pipes :: "int \<Rightarrow> 'z recorder_scheme \<Rightarrow> 'z recorder_scheme" where
  "recorder_open_pipes open_result s = s\<lparr>rec_pipe_fd := guard open_result\<rparr>"

text \<open>A \<open>write\<close> to the descriptor -1 fails, and its result is ignored.\<close>

definition bind_order :: "u64 \<Rightarrow> u64 \<Rightarrow> int \<Rightarrow> int \<Rightarrow> bind_type \<Rightarrow> 'z recorder_scheme \<Rightarrow> 'z recorder_scheme" where
  "bind_order start_addr sz target_node obj_index type s =
     (let data = \<lparr>d_start_addr = start_addr, d_size = sz,
                  d_nodemask_target_node = push_bit (nat target_node) 1,
                  d_obj_index = obj_index, d_type = type, d_flag = 1\<rparr>
      in if rec_pipe_fd s = - 1 then s else s\<lparr>migration_pipe := migration_pipe s @ [data]\<rparr>)"

section \<open>Initialisation\<close>

definition initialize_object :: "object \<Rightarrow> object" where
  "initialize_object ob = ob\<lparr>o_start_addr := - 1, o_sliced := 0, o_last_decision := - 1,
     o_metrics := (o_metrics ob)\<lparr>stores_count := Fin 0,
       sum_latency_cost := \<lambda>j. if j < MEM_LEVELS then Fin 0 else sum_latency_cost (o_metrics ob) j,
       loads_count := \<lambda>j. if j < MEM_LEVELS then Fin 0 else loads_count (o_metrics ob) j,
       tlb_hit := \<lambda>j. if j < MEM_LEVELS then Fin 0 else tlb_hit (o_metrics ob) j,
       tlb_miss := \<lambda>j. if j < MEM_LEVELS then Fin 0 else tlb_miss (o_metrics ob) j\<rparr>\<rparr>"

definition initialize_recorder :: "tier_manager \<Rightarrow> tier_manager" where
  "initialize_recorder t = t\<lparr>
     obj_alloc := \<lambda>i. if i < MAX_OBJECTS then 0 else obj_alloc t i,
     total_dram_mapped_gb := Fin 0, total_obj := 0,
     obj_vector := \<lambda>i. if i < MAX_OBJECTS then initialize_object (obj_vector t i) else obj_vector t i\<rparr>"

section \<open>Insertion\<close>

text \<open>The search of \<open>_insert_object\<close> for a free slot, from the last index on.\<close>

function find_slot :: "tier_manager \<Rightarrow> nat \<Rightarrow> nat res" where
  "find_slot t i =
     (if i \<ge> MAX_OBJECTS then Inl Out_of_bounds
      else if obj_alloc t i = 1 then (if i + 1 = MAX_OBJECTS then Inl (Exit (- 1)) else find_slot t (i + 1))
      else Inr i)"
  by pat_completeness auto
termination by (relation "measure (\<lambda>(t, i). MAX_OBJECTS - i)") auto

declare find_slot.simps [simp del]

definition insert_object1 ::
  "(nat \<Rightarrow> fp option) \<Rightarrow> u64 \<Rightarrow> int \<Rightarrow> u64 \<Rightarrow> u64 \<Rightarrow> int \<Rightarrow> 'z recorder_scheme \<Rightarrow> 'z recorder_scheme res" where
  "insert_object1 clk pagesize pid start_addr sz sliced s =
     rbind (find_slot (tm s) (rec_index s)) (\<lambda>index.
     let t = tm s;
         ob = (obj_vector t index)\<lparr>o_start_addr := start_addr, o_end_addr := start_addr + sz, o_size := sz,
            o_pages := sz div pagesize, o_pid := pid, o_obj_index := int index, o_sliced := sliced\<rparr>;
         s = s\<lparr>rec_index := index, tm := t\<lparr>obj_vector := (obj_vector t)(index := ob), obj_alloc := (obj_alloc t)(index := 1)\<rparr>\<rparr>
     in rbind (get_my_timestamp clk s) (\<lambda>(birth, s).
        let t = tm s;
            s = s\<lparr>tm := t\<lparr>obj_vector := (obj_vector t)(index := (obj_vector t index)\<lparr>o_birth_date := birth\<rparr>),
                          total_obj := total_obj t + 1\<rparr>\<rparr>
        in rbind (get_my_timestamp clk s) (\<lambda>(_, s).
           let s = bind_order start_addr sz NODE_0_DRAM (int index) INITIAL_DATAPLACEMENT s
           in Inr (s\<lparr>rec_index := index + 1\<rparr>))))"

text \<open>
  \<open>insert_object\<close> and \<open>deallocate_object\<close> walk over the chunks of an allocation in the same way:
  \<open>for_chunks\<close> is that walk, for the operation \<open>f\<close> called on each chunk. \<open>total_chunks\<close> is an
  \<open>int\<close>: the quotient is reduced to 32 bits, and \<open>total_chunks * CHUNK_SIZE\<close> and
  \<open>i * CHUNK_SIZE\<close> are 64-bit products.
\<close>

fun chunk_loop :: "(u64 \<Rightarrow> u64 \<Rightarrow> int \<Rightarrow> 's \<Rightarrow> 's res) \<Rightarrow> u64 \<Rightarrow> nat \<Rightarrow> nat \<Rightarrow> 's \<Rightarrow> (nat \<times> 's) res" where
  "chunk_loop f start_addr 0 i s = Inr (i, s)"
| "chunk_loop f start_addr (Suc n) i s =
     rbind (f (start_addr + of_nat i * CHUNK_SIZE) CHUNK_SIZE 1 s) (\<lambda>s. chunk_loop f start_addr n (i + 1) s)"

definition for_chunks :: "(u64 \<Rightarrow> u64 \<Rightarrow> int \<Rightarrow> 's \<Rightarrow> 's res) \<Rightarrow> u64 \<Rightarrow> u64 \<Rightarrow> 's \<Rightarrow> 's res" where
  "for_chunks f start_addr sz s =
     (if sz > CHUNK_SIZE
      then let total_chunks = sint (ucast (sz div CHUNK_SIZE) :: 32 word);
               remnant_size = sz - of_int total_chunks * CHUNK_SIZE
           in rbind (chunk_loop f start_addr (nat total_chunks) 0 s) (\<lambda>(i, s).
              if remnant_size > 0 then f (start_addr + of_nat i * CHUNK_SIZE) remnant_size 1 s
              else f (start_addr + of_nat i * CHUNK_SIZE) CHUNK_SIZE 1 s)
      else f start_addr sz 0 s)"

definition insert_object ::
  "(nat \<Rightarrow> fp option) \<Rightarrow> u64 \<Rightarrow> int \<Rightarrow> u64 \<Rightarrow> u64 \<Rightarrow> 'z recorder_scheme \<Rightarrow> 'z recorder_scheme res" where
  "insert_object clk pagesize pid start_addr sz s =
     for_chunks (\<lambda>a n sliced. insert_object1 clk pagesize pid a n sliced) start_addr sz s"

section \<open>Deallocation\<close>

text \<open>The loop of \<open>_deallocate_object\<close>; the result is its return value and the new state.\<close>

function dealloc_loop ::
  "(nat \<Rightarrow> fp option) \<Rightarrow> u64 \<Rightarrow> u64 \<Rightarrow> nat \<Rightarrow> 'z recorder_scheme \<Rightarrow> (int \<times> 'z recorder_scheme) res" where
  "dealloc_loop clk start_addr sz i s =
     (let t = tm s in
      if int i < total_obj t
      then if i \<ge> MAX_OBJECTS then Inl Out_of_bounds
           else if o_start_addr (obj_vector t i) = start_addr \<and> o_size (obj_vector t i) = sz \<and> obj_alloc t i = 1
           then rbind (get_my_timestamp clk s) (\<lambda>(_, s).
                Inr (1, s\<lparr>tm := (tm s)\<lparr>obj_alloc := (obj_alloc (tm s))(i := 0)\<rparr>\<rparr>))
           else dealloc_loop clk start_addr sz (i + 1) s
      else Inr (0, s))"
  by pat_completeness auto
termination by (relation "measure (\<lambda>(clk, a, z, i, s). MAX_OBJECTS - i)") auto

declare dealloc_loop.simps [simp del]

definition deallocate_object1 ::
  "(nat \<Rightarrow> fp option) \<Rightarrow> int \<Rightarrow> u64 \<Rightarrow> u64 \<Rightarrow> int \<Rightarrow> 'z recorder_scheme \<Rightarrow> (int \<times> 'z recorder_scheme) res" where
  "deallocate_object1 clk pid start_addr sz sliced s = dealloc_loop clk start_addr sz 0 s"

definition deallocate_object ::
  "(nat \<Rightarrow> fp option) \<Rightarrow> int \<Rightarrow> u64 \<Rightarrow> u64 \<Rightarrow> 'z recorder_scheme \<Rightarrow> 'z recorder_scheme res" where
  "deallocate_object clk pid start_addr sz s =
     for_chunks (\<lambda>a n sliced s. rbind (deallocate_object1 clk pid a n sliced s) (\<lambda>(_, s). Inr s)) start_addr sz s"

end
