(* ===== verification/Recorder_Correct.thy ===== *)
theory Recorder_Correct
  imports Recorder
begin

text \<open>
  Correctness of the recorder: the chunks that an allocation is split into, the invariant of the
  table and of the recorder's index, what inserting and deallocating do to the live entries, and
  the limits of the table.
\<close>

unbundle bit_operations_syntax

section \<open>The chunks of an allocation\<close>

text \<open>The calls that \<open>for_chunks\<close> makes, as a list of (address, size, sliced).\<close>

definition total_chunks :: "u64 \<Rightarrow> nat" where
  "total_chunks sz = unat sz div 1000001536"

definition chunk_list :: "u64 \<Rightarrow> u64 \<Rightarrow> (u64 \<times> u64 \<times> int) list" where
  "chunk_list a sz =
     (if sz > CHUNK_SIZE
      then map (\<lambda>i. (a + of_nat i * CHUNK_SIZE, CHUNK_SIZE, 1)) [0..<total_chunks sz] @
           [(a + of_nat (total_chunks sz) * CHUNK_SIZE,
             if unat sz mod 1000001536 = 0 then CHUNK_SIZE else of_nat (unat sz mod 1000001536), 1)]
      else [(a, sz, 0)])"

fun each :: "(u64 \<Rightarrow> u64 \<Rightarrow> int \<Rightarrow> 's \<Rightarrow> 's res) \<Rightarrow> (u64 \<times> u64 \<times> int) list \<Rightarrow> 's \<Rightarrow> 's res" where
  "each f [] s = Inr s"
| "each f ((a, z, sl) # xs) s = rbind (f a z sl s) (each f xs)"

lemma each_append: "each f (xs @ ys) s = rbind (each f xs s) (each f ys)"
  by (induction xs arbitrary: s) (auto simp: rbind_def split: sum.splits)

lemma chunk_loop_each:
  "chunk_loop f a n i s = rbind (each f (map (\<lambda>i. (a + of_nat i * CHUNK_SIZE, CHUNK_SIZE, 1)) [i..<i + n]) s)
     (\<lambda>s. Inr (i + n, s))"
proof (induction n arbitrary: i s)
  case (Suc n)
  have "[i..<i + Suc n] = i # [Suc i..<Suc i + n]" by (simp add: upt_conv_Cons)
  then show ?case using Suc.IH [of "Suc i"] by (simp add: rbind_def split: sum.splits)
qed simp

text \<open>Sizes for which the \<open>int\<close> variable holds the number of chunks.\<close>

definition chunkable :: "u64 \<Rightarrow> bool" where
  "chunkable sz \<longleftrightarrow> unat sz < 2 ^ 31 * 1000001536"

lemma total_chunks_int:
  assumes "chunkable sz"
  shows "sint (ucast (sz div CHUNK_SIZE) :: 32 word) = int (total_chunks sz)"
proof -
  have "unat (sz div CHUNK_SIZE) = total_chunks sz" by (simp add: unat_div total_chunks_def)
  moreover have "total_chunks sz < 2 ^ 31" using assms by (simp add: chunkable_def total_chunks_def div_less_iff_less_mult)
  moreover from calculation have "uint (sz div CHUNK_SIZE) = int (total_chunks sz)"
    by (metis int_nat_eq uint_ge_0 unat_eq_nat_uint)
  ultimately have "uint (ucast (sz div CHUNK_SIZE) :: 32 word) = int (total_chunks sz)" "total_chunks sz < 2 ^ 31"
    by (simp_all add: unsigned_ucast_eq take_bit_int_eq_self)
  then show ?thesis by (simp add: sint_uint signed_take_bit_int_eq_self)
qed

lemma remnant:
  assumes "chunkable sz"
  shows "unat (sz - of_int (int (total_chunks sz)) * CHUNK_SIZE) = unat sz mod 1000001536"
proof -
  have "(of_nat (total_chunks sz) * CHUNK_SIZE :: u64) = of_nat (total_chunks sz * 1000001536)" by simp
  then have "sz - of_int (int (total_chunks sz)) * CHUNK_SIZE = of_nat (unat sz) - of_nat (total_chunks sz * 1000001536)"
    by simp
  also have "\<dots> = of_nat (unat sz - total_chunks sz * 1000001536)"
    by (subst of_nat_diff) (auto simp: total_chunks_def)
  also have "unat sz - total_chunks sz * 1000001536 = unat sz mod 1000001536"
    by (simp add: total_chunks_def minus_div_mult_eq_mod)
  finally show ?thesis by (simp add: unsigned_of_nat take_bit_nat_eq_self)
qed

lemma for_chunks_each:
  assumes "chunkable sz"
  shows "for_chunks f a sz s = each f (chunk_list a sz) s"
proof (cases "sz > CHUNK_SIZE")
  case True
  let ?r = "sz - of_int (int (total_chunks sz)) * CHUNK_SIZE"
  have r: "?r = of_nat (unat sz mod 1000001536)" using remnant [OF assms] by (metis of_nat_unat ucast_id)
  then have r0: "(0 < ?r) = (unat sz mod 1000001536 \<noteq> 0)"
    using remnant [OF assms] by (metis unat_gt_0 word_gt_0 neq0_conv unat_0)
  show ?thesis
    unfolding for_chunks_def chunk_list_def total_chunks_int [OF assms] Let_def nat_int chunk_loop_each r0
    using True r by (simp add: each_append rbind_def split: sum.splits)
qed (simp add: for_chunks_def chunk_list_def rbind_def split: sum.splits)

lemma length_chunk_list:
  "length (chunk_list a sz) = (if sz > CHUNK_SIZE then Suc (total_chunks sz) else 1)"
  by (simp add: chunk_list_def)

lemma distinct_chunks:
  assumes "chunkable sz"
  shows "distinct (map (\<lambda>(a, z, sl). (a, z)) (chunk_list a sz))"
proof -
  have "inj_on (\<lambda>i. a + of_nat i * CHUNK_SIZE) {0..<2 ^ 31}"
  proof (rule inj_onI)
    fix i j :: nat assume ij: "i \<in> {0..<2 ^ 31}" "j \<in> {0..<2 ^ 31}" "a + of_nat i * CHUNK_SIZE = a + of_nat j * CHUNK_SIZE"
    then have "(of_nat (i * 1000001536) :: u64) = of_nat (j * 1000001536)" by simp
    then have "unat (of_nat (i * 1000001536) :: u64) = unat (of_nat (j * 1000001536) :: u64)" by simp
    then show "i = j" using ij by (simp only: unsigned_of_nat) (simp add: take_bit_nat_eq_self)
  qed
  moreover have tc: "total_chunks sz < 2 ^ 31" using assms by (simp add: chunkable_def total_chunks_def div_less_iff_less_mult)
  moreover have "set [0..<Suc (total_chunks sz)] \<subseteq> {0..<2 ^ 31}" using tc by auto
  ultimately have "distinct (map (\<lambda>i. a + of_nat i * CHUNK_SIZE) [0..<Suc (total_chunks sz)])"
    unfolding distinct_map by (blast intro: distinct_upt inj_on_subset)
  moreover have "map fst (map (\<lambda>(a, z, sl). (a, z)) (chunk_list a sz)) =
      (if sz > CHUNK_SIZE then map (\<lambda>i. a + of_nat i * CHUNK_SIZE) [0..<Suc (total_chunks sz)] else [a])"
    by (simp add: chunk_list_def comp_def)
  ultimately show ?thesis by (metis distinct_map distinct_singleton)
qed

text \<open>How many bytes the chunks cover: one chunk too many when the size is a multiple of \<open>CHUNK_SIZE\<close>.\<close>

lemma chunk_sum:
  "sum_list (map (\<lambda>(a, z, sl). unat z) (chunk_list a sz)) =
     (if sz > CHUNK_SIZE \<and> unat sz mod 1000001536 = 0 then unat sz + 1000001536 else unat sz)"
proof -
  have m: "unat (of_nat (unat sz mod 1000001536) :: u64) = unat sz mod 1000001536"
    by (simp add: unsigned_of_nat take_bit_nat_eq_self)
  have "total_chunks sz * 1000001536 + unat sz mod 1000001536 = unat sz"
    by (simp add: total_chunks_def)
  then show ?thesis
    by (auto simp: chunk_list_def comp_def sum_list_triv m mult.commute)
qed

section \<open>A table of live entries\<close>

lemma find_upt_unique:
  assumes "k < n" "P k" "\<And>i. P i \<Longrightarrow> i = k"
  shows "find P [0..<n] = Some k"
proof -
  have "\<not> P j" if "j < k" for j using assms(3) [of j] that by blast
  with assms(1,2) show ?thesis by (auto simp: find_Some_iff intro!: exI [of _ k])
qed

text \<open>
  What \<open>insert_object\<close> and \<open>deallocate_object\<close> rely on: adding an entry puts it in the next slot,
  removing one clears the first live slot with the same address and size.
\<close>

locale slot_table =
  fixes inv :: "'s \<Rightarrow> bool"
    and used :: "'s \<Rightarrow> nat"
    and slots :: nat
    and live :: "'s \<Rightarrow> nat \<Rightarrow> (u64 \<times> u64) option"
    and add :: "u64 \<Rightarrow> u64 \<Rightarrow> int \<Rightarrow> 's \<Rightarrow> 's res"
    and rem :: "u64 \<Rightarrow> u64 \<Rightarrow> int \<Rightarrow> 's \<Rightarrow> 's res"
  assumes live_used: "inv s \<Longrightarrow> used s \<le> i \<Longrightarrow> live s i = None"
    and add_law: "inv s \<Longrightarrow> used s < slots \<Longrightarrow> \<exists>s'. add a z sl s = Inr s' \<and> inv s' \<and> used s' = Suc (used s)
      \<and> live s' = (live s)(used s \<mapsto> (a, z))"
    and rem_law: "inv s \<Longrightarrow> \<exists>s'. rem a z sl s = Inr s' \<and> inv s' \<and> used s' = used s
      \<and> live s' = (case find (\<lambda>i. live s i = Some (a, z)) [0..<used s] of None \<Rightarrow> live s | Some i \<Rightarrow> (live s)(i := None))"
begin

lemma add_all:
  assumes "inv s" "used s + length xs \<le> slots"
  shows "\<exists>s'. each add xs s = Inr s' \<and> inv s' \<and> used s' = used s + length xs
    \<and> live s' = (\<lambda>i. if i < used s then live s i
                      else if i < used s + length xs then Some (case xs ! (i - used s) of (a, z, _) \<Rightarrow> (a, z)) else None)"
  using assms
proof (induction xs arbitrary: s)
  case Nil
  then show ?case using live_used by (auto simp: fun_eq_iff)
next
  case (Cons x xs)
  obtain a z sl where x: "x = (a, z, sl)" by (cases x)
  obtain s1 where s1: "add a z sl s = Inr s1" "inv s1" "used s1 = Suc (used s)" "live s1 = (live s)(used s \<mapsto> (a, z))"
    using add_law [of s a z sl] Cons.prems by auto
  obtain s2 where s2: "each add xs s1 = Inr s2" "inv s2" "used s2 = used s1 + length xs"
      "live s2 = (\<lambda>i. if i < used s1 then live s1 i
         else if i < used s1 + length xs then Some (case xs ! (i - used s1) of (a, z, _) \<Rightarrow> (a, z)) else None)"
    using Cons.IH [OF s1(2)] s1(3) Cons.prems(2) by auto
  have "live s2 i = (if i < used s then live s i
      else if i < used s + length (x # xs) then Some (case (x # xs) ! (i - used s) of (a, z, _) \<Rightarrow> (a, z)) else None)" for i
    using s1(3,4) s2(4) x by (cases "i = used s") (auto simp: nth_Cons' Suc_diff_le less_Suc_eq_le not_less)
  with s1 s2 x show ?case by (intro exI [of _ s2]) auto
qed

lemma rem_all:
  assumes "inv s" "distinct (map (\<lambda>(a, z, sl). (a, z)) xs)"
    "\<And>a z sl. (a, z, sl) \<in> set xs \<Longrightarrow> \<exists>!i. live s i = Some (a, z)"
  shows "\<exists>s'. each rem xs s = Inr s' \<and> inv s' \<and> used s' = used s
    \<and> live s' = (\<lambda>i. if live s i \<in> Some ` (\<lambda>(a, z, sl). (a, z)) ` set xs then None else live s i)"
  using assms
proof (induction xs arbitrary: s)
  case (Cons x xs)
  obtain a z sl where x: "x = (a, z, sl)" by (cases x)
  obtain k where k: "live s k = Some (a, z)" "\<And>i. live s i = Some (a, z) \<Longrightarrow> i = k"
    using Cons.prems(3) [of a z sl] x by auto
  have "k < used s" using k(1) live_used [OF Cons.prems(1), of k] by (metis not_le option.distinct(1))
  then have "find (\<lambda>i. live s i = Some (a, z)) [0..<used s] = Some k"
    using k(1) by (rule find_upt_unique) (rule k(2))
  then obtain s1 where s1: "rem a z sl s = Inr s1" "inv s1" "used s1 = used s" "live s1 = (live s)(k := None)"
    using rem_law [OF Cons.prems(1), of a z sl] by auto
  have "\<exists>!i. live s1 i = Some (b, y)" if "(b, y, sl') \<in> set xs" for b y sl'
  proof -
    have "(b, y) \<noteq> (a, z)" using Cons.prems(2) that x by force
    with Cons.prems(3) [of b y sl'] that k s1(4) show ?thesis by (metis fun_upd_apply list.set_intros(2) option.distinct(1) option.inject)
  qed
  then obtain s2 where s2: "each rem xs s1 = Inr s2" "inv s2" "used s2 = used s1"
      "live s2 = (\<lambda>i. if live s1 i \<in> Some ` (\<lambda>(a, z, sl). (a, z)) ` set xs then None else live s1 i)"
    using Cons.IH [OF s1(2)] Cons.prems(2) by auto
  have "live s2 i = (if live s i \<in> Some ` (\<lambda>(a, z, sl). (a, z)) ` set (x # xs) then None else live s i)" for i
  proof (cases "i = k")
    case False
    then have "live s i \<noteq> Some (a, z)" using k(2) by blast
    then show ?thesis using False by (simp add: s1(4) s2(4) x)
  qed (use k(1) x in \<open>simp add: s1(4) s2(4)\<close>)
  with s1 s2 x show ?case by (intro exI [of _ s2]) auto
qed simp

text \<open>Adding entries that are not live yet and removing them again leaves the live entries as they were.\<close>

lemma rem_add_all:
  assumes "inv s" "used s + length xs \<le> slots" "distinct (map (\<lambda>(a, z, sl). (a, z)) xs)"
    "\<And>a z sl i. (a, z, sl) \<in> set xs \<Longrightarrow> live s i \<noteq> Some (a, z)"
  shows "\<exists>s' s''. each add xs s = Inr s' \<and> each rem xs s' = Inr s'' \<and> inv s'' \<and> live s'' = live s
    \<and> used s'' = used s + length xs"
proof -
  obtain s1 where s1: "each add xs s = Inr s1" "inv s1" "used s1 = used s + length xs"
      "live s1 = (\<lambda>i. if i < used s then live s i
         else if i < used s + length xs then Some (case xs ! (i - used s) of (a, z, _) \<Rightarrow> (a, z)) else None)"
    using add_all [OF assms(1,2)] by auto
  have uni: "\<exists>!i. live s1 i = Some (a, z)" if xz: "(a, z, sl) \<in> set xs" for a z sl
  proof -
    obtain k where k: "k < length xs" "xs ! k = (a, z, sl)" using xz by (auto simp: in_set_conv_nth)
    show ?thesis
    proof (rule ex1I [of _ "used s + k"])
      show "live s1 (used s + k) = Some (a, z)" using k by (simp add: s1(4))
    next
      fix i assume i: "live s1 i = Some (a, z)"
      then have "used s \<le> i" "i < used s + length xs"
        using assms(4) [OF xz, of i] by (auto simp: s1(4) not_less split: if_splits)
      moreover from this have "(map (\<lambda>(a, z, sl). (a, z)) xs) ! (i - used s) = (map (\<lambda>(a, z, sl). (a, z)) xs) ! k"
        using i k by (auto simp: s1(4) split: prod.splits)
      ultimately have "i - used s = k" using assms(3) k by (subst (asm) nth_eq_iff_index_eq) auto
      with \<open>used s \<le> i\<close> show "i = used s + k" by simp
    qed
  qed
  obtain s2 where s2: "each rem xs s1 = Inr s2" "inv s2" "used s2 = used s1"
      "live s2 = (\<lambda>i. if live s1 i \<in> Some ` (\<lambda>(a, z, sl). (a, z)) ` set xs then None else live s1 i)"
    using rem_all [OF s1(2) assms(3)] uni by blast
  have "live s2 i = live s i" for i
  proof (cases "i < used s")
    case True
    with assms(4) show ?thesis by (auto simp: s1(4) s2(4))
  next
    case False
    then have "live s i = None" using live_used [OF assms(1)] by simp
    moreover have "(\<lambda>(a, z, sl). (a, z)) (xs ! (i - used s)) \<in> (\<lambda>(a, z, sl). (a, z)) ` set xs" if "i < used s + length xs"
      using that False by (intro imageI nth_mem) simp
    ultimately show ?thesis using False by (auto simp: s1(4) s2(4))
  qed
  with s1 s2 show ?thesis by (intro exI [of _ s1] exI [of _ s2]) auto
qed

end

section \<open>The recorder's table\<close>

definition live_slot :: "'z recorder_scheme \<Rightarrow> nat \<Rightarrow> (u64 \<times> u64) option" where
  "live_slot s i = (if i < MAX_OBJECTS \<and> obj_alloc (tm s) i = 1
     then Some (o_start_addr (obj_vector (tm s) i), o_size (obj_vector (tm s) i)) else None)"

text \<open>
  The slots below \<open>rec_index\<close> have been filled, each once; those above are free. A filled slot holds
  its own number and an end address that fits its size.
\<close>

definition slot_ok :: "tier_manager \<Rightarrow> nat \<Rightarrow> bool" where
  "slot_ok t i \<longleftrightarrow> obj_alloc t i \<in> {0, 1} \<and> o_obj_index (obj_vector t i) = int i
     \<and> o_end_addr (obj_vector t i) = o_start_addr (obj_vector t i) + o_size (obj_vector t i)"

definition rec_inv :: "'z recorder_scheme \<Rightarrow> bool" where
  "rec_inv s \<longleftrightarrow> rec_index s \<le> MAX_OBJECTS \<and> total_obj (tm s) = int (rec_index s)
     \<and> (\<forall>i < rec_index s. slot_ok (tm s) i)
     \<and> (\<forall>i < MAX_OBJECTS. rec_index s \<le> i \<longrightarrow> obj_alloc (tm s) i = 0)"

lemma rec_inv_init:
  "rec_index s = 0 \<Longrightarrow> rec_inv (s\<lparr>tm := initialize_recorder t\<rparr>)"
  by (simp add: rec_inv_def initialize_recorder_def)

text \<open>The state after a successful \<open>_insert_object\<close>.\<close>

definition pushed :: "(nat \<Rightarrow> fp) \<Rightarrow> u64 \<Rightarrow> int \<Rightarrow> u64 \<Rightarrow> u64 \<Rightarrow> int \<Rightarrow> 'z recorder_scheme \<Rightarrow> 'z recorder_scheme" where
  "pushed c pagesize pid a z sl s =
     (let k = rec_index s; t = tm s in s\<lparr>
        tm := t\<lparr>obj_alloc := (obj_alloc t)(k := 1),
          obj_vector := (obj_vector t)(k := (obj_vector t k)\<lparr>o_start_addr := a, o_end_addr := a + z, o_size := z,
            o_pages := z div pagesize, o_pid := pid, o_obj_index := int k, o_sliced := sl, o_birth_date := c (ticks s)\<rparr>),
          total_obj := total_obj t + 1\<rparr>,
        ticks := ticks s + 2,
        migration_pipe := migration_pipe s @ (if rec_pipe_fd s = - 1 then [] else
          [\<lparr>d_start_addr = a, d_size = z, d_nodemask_target_node = 1, d_obj_index = int k,
            d_type = INITIAL_DATAPLACEMENT, d_flag = 1\<rparr>]),
        rec_index := k + 1\<rparr>)"

lemma find_slot_free: "rec_inv s \<Longrightarrow> rec_index s < MAX_OBJECTS \<Longrightarrow> find_slot (tm s) (rec_index s) = Inr (rec_index s)"
  by (subst find_slot.simps) (simp add: rec_inv_def)

lemma find_slot_full: "rec_index s = MAX_OBJECTS \<Longrightarrow> find_slot (tm s) (rec_index s) = Inl Out_of_bounds"
  by (subst find_slot.simps) simp

lemma insert_object1_pushed:
  assumes "rec_inv s" "rec_index s < MAX_OBJECTS"
  shows "insert_object1 (\<lambda>n. Some (c n)) pagesize pid a z sl s = Inr (pushed c pagesize pid a z sl s)"
  by (simp add: insert_object1_def find_slot_free [OF assms] get_my_timestamp_def bind_order_def pushed_def Let_def)

lemma pushed_inv:
  assumes "rec_inv s" "rec_index s < MAX_OBJECTS"
  shows "rec_inv (pushed c pagesize pid a z sl s)"
  using assms by (auto simp: rec_inv_def pushed_def Let_def slot_ok_def less_Suc_eq)

lemma pushed_live:
  assumes "rec_index s < MAX_OBJECTS"
  shows "live_slot (pushed c pagesize pid a z sl s) = (live_slot s)(rec_index s \<mapsto> (a, z))"
  using assms by (auto simp: live_slot_def pushed_def Let_def fun_eq_iff)

text \<open>The state after \<open>_deallocate_object\<close> has cleared slot \<open>i\<close>.\<close>

definition cleared :: "nat \<Rightarrow> 'z recorder_scheme \<Rightarrow> 'z recorder_scheme" where
  "cleared i s = s\<lparr>tm := (tm s)\<lparr>obj_alloc := (obj_alloc (tm s))(i := 0)\<rparr>, ticks := ticks s + 1\<rparr>"

lemma dealloc_loop_find:
  assumes "rec_inv s"
  shows "dealloc_loop (\<lambda>n. Some (c n)) a z i s =
    (case find (\<lambda>j. live_slot s j = Some (a, z)) [i..<rec_index s] of
       None \<Rightarrow> Inr (0, s) | Some j \<Rightarrow> Inr (1, cleared j s))"
proof (induction "rec_index s - i" arbitrary: i)
  case 0
  then show ?case using assms by (subst dealloc_loop.simps) (simp add: rec_inv_def Let_def)
next
  case (Suc d)
  then have i: "i < rec_index s" by simp
  then have "[i..<rec_index s] = i # [Suc i..<rec_index s]" by (rule upt_conv_Cons)
  moreover have "dealloc_loop (\<lambda>n. Some (c n)) a z (Suc i) s =
      (case find (\<lambda>j. live_slot s j = Some (a, z)) [Suc i..<rec_index s] of
       None \<Rightarrow> Inr (0, s) | Some j \<Rightarrow> Inr (1, cleared j s))"
    using Suc by (intro Suc.hyps(1)) simp
  ultimately show ?case using assms i
    by (subst dealloc_loop.simps) (auto simp: rec_inv_def Let_def live_slot_def get_my_timestamp_def cleared_def)
qed

lemma cleared_inv:
  assumes "rec_inv s"
  shows "rec_inv (cleared i s)"
  using assms by (auto simp: rec_inv_def cleared_def slot_ok_def)

lemma cleared_live: "live_slot (cleared i s) = (live_slot s)(i := None)"
  by (auto simp: live_slot_def cleared_def fun_eq_iff)

lemma cleared_frame [simp]:
  "rec_index (cleared i s) = rec_index s" "migration_pipe (cleared i s) = migration_pipe s"
  by (simp_all add: cleared_def)

lemma pushed_frame [simp]: "rec_index (pushed c pagesize pid a z sl s) = Suc (rec_index s)"
  by (simp add: pushed_def Let_def)

abbreviation "add1 c pagesize pid \<equiv> \<lambda>a z sl. insert_object1 (\<lambda>n. Some (c n)) pagesize pid a z sl"

abbreviation "rem1 c pid \<equiv> \<lambda>a z sl s. rbind (deallocate_object1 (\<lambda>n. Some (c n)) pid a z sl s) (\<lambda>(_, s). Inr s)"

lemma rem1_find:
  assumes "rec_inv s"
  shows "rem1 c pid a z sl s = Inr (case find (\<lambda>j. live_slot s j = Some (a, z)) [0..<rec_index s] of
       None \<Rightarrow> s | Some j \<Rightarrow> cleared j s)"
  by (simp add: deallocate_object1_def dealloc_loop_find [OF assms] split: option.split)

lemma live_slot_used: "rec_inv s \<Longrightarrow> rec_index s \<le> i \<Longrightarrow> live_slot s i = None"
  by (simp add: live_slot_def rec_inv_def)

interpretation rec: slot_table rec_inv rec_index MAX_OBJECTS live_slot "add1 c pagesize pid" "rem1 c pid"
  for c pagesize pid
proof
  show "\<exists>s'. add1 c pagesize pid a z sl s = Inr s' \<and> rec_inv s' \<and> rec_index s' = Suc (rec_index s)
      \<and> live_slot s' = (live_slot s)(rec_index s \<mapsto> (a, z))"
    if "rec_inv s" "rec_index s < MAX_OBJECTS" for s :: "'a recorder_scheme" and a z sl
    using that by (simp add: insert_object1_pushed pushed_inv pushed_live)
  show "\<exists>s'. rem1 c pid a z sl s = Inr s' \<and> rec_inv s' \<and> rec_index s' = rec_index s
      \<and> live_slot s' = (case find (\<lambda>i. live_slot s i = Some (a, z)) [0..<rec_index s] of None \<Rightarrow> live_slot s
         | Some i \<Rightarrow> (live_slot s)(i := None))"
    if "rec_inv s" for s :: "'a recorder_scheme" and a z sl
    using that by (simp add: rem1_find cleared_inv cleared_live split: option.split)
qed (simp add: live_slot_used)

lemma insert_object_each:
  "chunkable sz \<Longrightarrow> insert_object (\<lambda>n. Some (c n)) pagesize pid a sz s = each (add1 c pagesize pid) (chunk_list a sz) s"
  by (simp add: insert_object_def for_chunks_each)

lemma deallocate_object_each:
  "chunkable sz \<Longrightarrow> deallocate_object (\<lambda>n. Some (c n)) pid a sz s = each (rem1 c pid) (chunk_list a sz) s"
  by (simp add: deallocate_object_def for_chunks_each)

lemma chunks_fit:
  assumes "length (chunk_list a sz) \<le> MAX_OBJECTS"
  shows "chunkable sz"
proof (cases "sz > CHUNK_SIZE")
  case True
  then have "unat sz div 1000001536 < 2000" using assms by (simp add: length_chunk_list total_chunks_def)
  then have "unat sz < 2000 * 1000001536" by (simp add: div_less_iff_less_mult)
  then show ?thesis by (simp add: chunkable_def)
qed (simp add: chunkable_def word_less_nat_alt)

text \<open>The messages that inserting a list of chunks writes to the pipe.\<close>

definition placement_msgs :: "nat \<Rightarrow> (u64 \<times> u64 \<times> int) list \<Rightarrow> data_bind list" where
  "placement_msgs k xs = map (\<lambda>(i, a, z, sl). \<lparr>d_start_addr = a, d_size = z, d_nodemask_target_node = 1,
     d_obj_index = int i, d_type = INITIAL_DATAPLACEMENT, d_flag = 1\<rparr>) (enumerate k xs)"

lemma add_all_msgs:
  assumes "rec_inv s" "rec_index s + length xs \<le> MAX_OBJECTS" "rec_pipe_fd s \<noteq> - 1" "each (add1 c pagesize pid) xs s = Inr s'"
  shows "migration_pipe s' = migration_pipe s @ placement_msgs (rec_index s) xs"
  using assms
proof (induction xs arbitrary: s)
  case (Cons x xs)
  obtain a z sl where x: "x = (a, z, sl)" by (cases x)
  let ?s = "pushed c pagesize pid a z sl s"
  have s1: "each (add1 c pagesize pid) xs ?s = Inr s'" "rec_inv ?s"
    using Cons.prems x by (simp_all add: insert_object1_pushed pushed_inv)
  have "migration_pipe s' = migration_pipe ?s @ placement_msgs (Suc (rec_index s)) xs"
    using Cons.IH [OF s1(2) _ _ s1(1)] Cons.prems by (simp add: pushed_def Let_def)
  then show ?case using x Cons.prems by (simp add: placement_msgs_def pushed_def Let_def)
qed (simp add: placement_msgs_def)

section \<open>Properties\<close>

text \<open>A recorder at program start, with an open pipe; used in examples.\<close>

definition start_recorder :: recorder where
  "start_recorder = \<lparr>tm = initialize_recorder zero_tier_manager, migration_pipe = [], ticks = 0,
     rec_index = 0, rec_pipe_fd = 5\<rparr>"

lemma start_recorder_inv: "rec_inv start_recorder"
  using rec_inv_init [of start_recorder zero_tier_manager] by (simp add: start_recorder_def)

lemma chunks_2_5: "chunk_list 4096 2500000000 =
  [(4096, CHUNK_SIZE, 1), (1000005632, CHUNK_SIZE, 1), (2000007168, 499996928, 1)]"
  by (simp add: chunk_list_def total_chunks_def upt_rec)

lemma start_recorder_live [simp]: "live_slot start_recorder i = None"
  by (simp add: live_slot_def start_recorder_def initialize_recorder_def)

text \<open>C3: \<open>insert_object\<close> on a table with enough unused slots returns; it fills the next slots, one per
  chunk, with the chunks of the allocation, leaves the older slots as they were, keeps the invariant,
  and writes one placement request per chunk (for the DRAM node) to the pipe, in order.\<close>

theorem insert_object_spec:
  assumes "rec_inv s" "rec_index s + length (chunk_list a sz) \<le> MAX_OBJECTS"
  shows "\<exists>s'. insert_object (\<lambda>n. Some (c n)) pagesize pid a sz s = Inr s' \<and> rec_inv s'
    \<and> rec_index s' = rec_index s + length (chunk_list a sz)
    \<and> live_slot s' = (\<lambda>i. if i < rec_index s then live_slot s i
         else if i < rec_index s' then Some (case chunk_list a sz ! (i - rec_index s) of (b, z, _) \<Rightarrow> (b, z)) else None)
    \<and> (rec_pipe_fd s \<noteq> - 1 \<longrightarrow>
        migration_pipe s' = migration_pipe s @ placement_msgs (rec_index s) (chunk_list a sz))"
proof -
  have fit: "chunkable sz" using assms(2) by (intro chunks_fit [of a]) simp
  obtain s' where s': "each (add1 c pagesize pid) (chunk_list a sz) s = Inr s'" "rec_inv s'"
      "rec_index s' = rec_index s + length (chunk_list a sz)"
      "live_slot s' = (\<lambda>i. if i < rec_index s then live_slot s i
         else if i < rec_index s + length (chunk_list a sz) then Some (case chunk_list a sz ! (i - rec_index s) of (b, z, _) \<Rightarrow> (b, z)) else None)"
    using rec.add_all [OF assms] by blast
  with add_all_msgs [OF assms _ s'(1)] show ?thesis
    by (intro exI [of _ s']) (simp add: insert_object_each [OF fit] cong: if_cong)
qed

theorem insert_object_spec_witness:
  "\<exists>s'. insert_object (\<lambda>n. Some (Fin 0)) 4096 7 4096 2500000000 start_recorder = Inr s' \<and> rec_index s' = 3
     \<and> live_slot s' 2 = Some (2000007168, 499996928)"
  using insert_object_spec [OF start_recorder_inv, of 4096 2500000000 "\<lambda>_. Fin 0" 4096 7]
  by (auto simp: chunks_2_5 start_recorder_def)

text \<open>C19: the chunks of an allocation follow each other without gap or overlap from its first address,
  and together have its size; only when the size is a multiple of \<open>CHUNK_SIZE\<close> beyond the first
  they have one \<open>CHUNK_SIZE\<close> more, the last chunk then lying outside the allocation.\<close>

theorem chunk_list_tiles:
  assumes "chunkable sz"
  shows "for_chunks f a sz s = each f (chunk_list a sz) s
    \<and> (\<forall>i < length (chunk_list a sz). fst (chunk_list a sz ! i) = a + of_nat (sum_list (map (\<lambda>(b, z, sl). unat z) (take i (chunk_list a sz)))))
    \<and> sum_list (map (\<lambda>(b, z, sl). unat z) (chunk_list a sz)) =
        (if sz > CHUNK_SIZE \<and> unat sz mod 1000001536 = 0 then unat sz + 1000001536 else unat sz)"
proof (intro conjI allI impI)
  fix i assume "i < length (chunk_list a sz)"
  then show "fst (chunk_list a sz ! i) = a + of_nat (sum_list (map (\<lambda>(b, z, sl). unat z) (take i (chunk_list a sz))))"
    by (auto simp: chunk_list_def nth_append take_map comp_def sum_list_triv less_Suc_eq mult.commute)
qed (simp_all add: for_chunks_each [OF assms] chunk_sum)

theorem chunk_list_tiles_witness:
  "for_chunks (\<lambda>a z sl xs. Inr (xs @ [a])) 4096 2500000000 [] = Inr [4096, 1000005632, 2000007168]"
  using chunk_list_tiles [of 2500000000 "\<lambda>a z sl xs. Inr (xs @ [a])" 4096 "[]"]
  by (simp add: chunks_2_5 chunkable_def)

text \<open>C4: deallocating an allocation with the address and size it was recorded with undoes the
  recording: the live slots are again those from before. The slots stay used up.\<close>

theorem deallocate_insert:
  assumes "rec_inv s" "rec_index s + length (chunk_list a sz) \<le> MAX_OBJECTS"
    "\<forall>(b, z, sl) \<in> set (chunk_list a sz). \<forall>i. live_slot s i \<noteq> Some (b, z)"
  shows "\<exists>s' s''. insert_object (\<lambda>n. Some (c n)) pagesize pid a sz s = Inr s'
    \<and> deallocate_object (\<lambda>n. Some (c n)) pid a sz s' = Inr s'' \<and> rec_inv s'' \<and> live_slot s'' = live_slot s
    \<and> rec_index s'' = rec_index s + length (chunk_list a sz)"
proof -
  have fit: "chunkable sz" using assms(2) by (intro chunks_fit [of a]) simp
  have "live_slot s i \<noteq> Some (b, z)" if "(b, z, sl) \<in> set (chunk_list a sz)" for b z sl i
    using assms(3) that by fastforce
  from rec.rem_add_all [OF assms(1,2) distinct_chunks [OF fit] this]
  show ?thesis by (simp add: insert_object_each [OF fit] deallocate_object_each [OF fit])
qed

theorem deallocate_insert_witness:
  "\<exists>s' s''. insert_object (\<lambda>n. Some (Fin 0)) 4096 7 4096 2500000000 start_recorder = Inr s'
    \<and> deallocate_object (\<lambda>n. Some (Fin 0)) 7 4096 2500000000 s' = Inr s'' \<and> live_slot s'' = live_slot start_recorder
    \<and> rec_index s'' = 3"
  using deallocate_insert [OF start_recorder_inv, of 4096 2500000000 "\<lambda>_. Fin 0" 4096 7]
  by (auto simp: chunks_2_5) (auto simp: start_recorder_def)

text \<open>C40: once all \<open>MAX_OBJECTS\<close> slots have been used, the next insertion reads \<open>obj_alloc\<close> outside the
  array, also when slots have been freed: the check that asks to increase \<open>MAX_OBJECTS\<close> is not reached.\<close>

theorem insert_object_full:
  assumes "rec_index s = MAX_OBJECTS"
  shows "insert_object clk pagesize pid a sz s = Inl Out_of_bounds"
proof -
  have "insert_object1 clk pagesize pid b z sl s = Inl Out_of_bounds" for b z sl
    by (simp add: insert_object1_def find_slot_full [OF assms])
  moreover from this have "chunk_loop (\<lambda>a n sliced. insert_object1 clk pagesize pid a n sliced) a n 0 s =
      (if n = 0 then Inr (0, s) else Inl Out_of_bounds)" for n
    by (cases n) simp_all
  ultimately show ?thesis by (simp add: insert_object_def for_chunks_def Let_def)
qed

theorem insert_object_full_witness:
  "insert_object (\<lambda>n. Some (Fin 0)) 4096 7 4096 2000000 (start_recorder\<lparr>rec_index := 2000\<rparr>) = Inl Out_of_bounds"
  using insert_object_full [of "start_recorder\<lparr>rec_index := 2000\<rparr>"] by simp

end
