(* ===== verification/Perf_Events.thy ===== *)
theory Perf_Events
  imports Sched_Prelude
begin

text \<open>
  The set-up of perf events at the start of the interception and monitor threads, and the labels at their end that
  release what was acquired. \<open>libperf\<close> and \<open>libpfm\<close> are libraries: which of their calls succeed is an
  argument. Of their behaviour the model uses that a new object belongs to the caller, that an event selector added to
  a list belongs to the list, and that \<open>perf_evlist__delete\<close> releases a list with its selectors and buffers.
\<close>

section \<open>Data\<close>

text \<open>\<open>pe_encode\<close>: the \<open>config\<close> that \<open>pfm_get_os_event_encoding\<close> fills in, \<open>None\<close> when it fails. \<open>pe_evsel n\<close>: whether
  call \<open>n\<close> of \<open>perf_evsel__new\<close> succeeds. \<open>pe_open\<close> and \<open>pe_mmap\<close>: the error codes.\<close>

record perf_env =
  pe_pfm_init :: bool
  pe_encode :: "string \<Rightarrow> u64 option"
  pe_cpus :: bool
  pe_evlist :: bool
  pe_evsel :: "nat \<Rightarrow> bool"
  pe_open :: int
  pe_mmap :: int

datatype perf_type = TYPE_TRACEPOINT | TYPE_RAW

datatype sample_field = F_IDENTIFIER | F_TID | F_ADDR | F_RAW | F_WEIGHT | F_DATA_SRC

text \<open>\<open>struct perf_event_attr\<close>, as far as it is set; the others are 0. \<open>pa_rate\<close> is the union of \<open>sample_freq\<close> and
  \<open>sample_period\<close>.\<close>

record perf_attr =
  pa_type :: perf_type
  pa_config :: u64
  pa_disabled :: bool
  pa_precise_ip :: nat
  pa_exclude_kernel :: bool
  pa_exclude_user :: bool
  pa_exclude_hv :: bool
  pa_wakeup_events :: u32
  pa_freq :: bool
  pa_rate :: u64
  pa_sample_type :: "sample_field set"

text \<open>What a thread holds: the CPU map, the list with its events, selectors that are in no list.\<close>

record perf =
  pf_cpus :: bool
  pf_evlist :: bool
  pf_events :: "perf_attr list"
  pf_loose :: "perf_attr list"
  pf_maps_set :: bool
  pf_opened :: bool
  pf_pages :: nat
  pf_enabled :: bool

definition no_perf :: perf where
  "no_perf = \<lparr>pf_cpus = False, pf_evlist = False, pf_events = [], pf_loose = [], pf_maps_set = False, pf_opened = False,
     pf_pages = 0, pf_enabled = False\<rparr>"

text \<open>How the set-up ends: ready for the loop, or by a jump to one of the two labels.\<close>

datatype perf_end = Ready | Out_evlist | Out_cpus

section \<open>Operations\<close>

text \<open>The part both threads have in common: the maps of the list are set, it is opened and mapped.\<close>

definition open_list :: "perf_env \<Rightarrow> nat \<Rightarrow> perf \<Rightarrow> perf_end \<times> perf" where
  "open_list env pages p =
     (let p = p\<lparr>pf_maps_set := True\<rparr>
      in if pe_open env \<noteq> 0 then (Out_evlist, p)
         else let p = p\<lparr>pf_opened := True\<rparr>
              in if pe_mmap env \<noteq> 0 then (Out_evlist, p) else (Ready, p\<lparr>pf_pages := pages\<rparr>))"

text \<open>The labels: the loop falls through \<open>out_evlist\<close> to \<open>out_cpus\<close>.\<close>

definition perf_cleanup :: "perf_end \<Rightarrow> perf \<Rightarrow> perf" where
  "perf_cleanup l p =
     (let p = (if l = Out_cpus then p
               else p\<lparr>pf_evlist := False, pf_events := [], pf_maps_set := False, pf_opened := False, pf_pages := 0, pf_enabled := False\<rparr>)
      in p\<lparr>pf_cpus := False\<rparr>)"

text \<open>\<open>while(g_app_pid == -1) sleep(...)\<close>, over the values that \<open>main\<close> has given the variable at each test.\<close>

fun wait_app_pid :: "int list \<Rightarrow> int res" where
  "wait_app_pid [] = Inl Diverges"
| "wait_app_pid (pid # pids) = (if pid = - 1 then wait_app_pid pids else Inr pid)"

subsection \<open>The interception thread\<close>

definition intercept_attr :: "int \<Rightarrow> perf_attr" where
  "intercept_attr config = \<lparr>pa_type = TYPE_TRACEPOINT, pa_config = word_of_int config, pa_disabled = True, pa_precise_ip = 2,
     pa_exclude_kernel = True, pa_exclude_user = False, pa_exclude_hv = True, pa_wakeup_events = 1, pa_freq = False, pa_rate = 1,
     pa_sample_type = {F_TID, F_RAW}\<rparr>"

text \<open>A selector for each configuration is created and added to the list before the next.\<close>

fun add_tracepoints :: "perf_env \<Rightarrow> int list \<Rightarrow> perf \<Rightarrow> perf_end \<times> perf" where
  "add_tracepoints env [] p = (Ready, p)"
| "add_tracepoints env (c # cs) p =
     (if \<not> pe_evsel env (length (pf_events p)) then (Out_cpus, p)
      else add_tracepoints env cs (p\<lparr>pf_events := pf_events p @ [intercept_attr c]\<rparr>))"

definition intercept_setup :: "perf_env \<Rightarrow> int list \<Rightarrow> (perf_end \<times> perf) res" where
  "intercept_setup env configs =
     (if \<not> pe_cpus env then Inl (Exit (- 1))
      else let p = no_perf\<lparr>pf_cpus := True\<rparr>
           in if \<not> pe_evlist env then Inr (Out_cpus, p)
              else let (l, p) = add_tracepoints env configs (p\<lparr>pf_evlist := True\<rparr>)
                   in if l \<noteq> Ready then Inr (l, p)
                      else let (l, p) = open_list env 4 p
                           in Inr (l, if l = Ready then p\<lparr>pf_enabled := True\<rparr> else p))"

subsection \<open>The monitor\<close>

text \<open>The result is converted to \<open>int\<close>; -1 is also the error value.\<close>

definition encode_event :: "perf_env \<Rightarrow> string \<Rightarrow> int" where
  "encode_event env event_name =
     (case pe_encode env event_name of None \<Rightarrow> - 1 | Some config \<Rightarrow> sint (ucast config :: 32 word))"

definition monitor_attr :: "int \<Rightarrow> int \<Rightarrow> perf_attr" where
  "monitor_attr sample_freq event = \<lparr>pa_type = TYPE_RAW, pa_config = word_of_int event, pa_disabled = True, pa_precise_ip = 2,
     pa_exclude_kernel = True, pa_exclude_user = False, pa_exclude_hv = True, pa_wakeup_events = 0, pa_freq = True,
     pa_rate = word_of_int sample_freq, pa_sample_type = {F_IDENTIFIER, F_ADDR, F_WEIGHT, F_DATA_SRC}\<rparr>"

text \<open>Both selectors are created before they are added.\<close>

definition monitor_setup :: "perf_env \<Rightarrow> int \<Rightarrow> (perf_end \<times> perf) res" where
  "monitor_setup env sample_freq =
     (if \<not> pe_pfm_init env then Inl (Exit (- 1))
      else let load_event = encode_event env ''MEM_TRANS_RETIRED:LOAD_LATENCY:ldlat=3''
      in if load_event = - 1 then Inl (Panic ''load_event != -1'')
      else let store_event = encode_event env ''MEM_UOPS_RETIRED:ALL_STORES''
      in if store_event = - 1 then Inl (Panic ''store_event != -1'')
      else if \<not> pe_cpus env then Inl (Exit (- 1))
      else let p = no_perf\<lparr>pf_cpus := True\<rparr>
           in if \<not> pe_evlist env then Inr (Out_cpus, p)
              else let p = p\<lparr>pf_evlist := True\<rparr>; load = monitor_attr sample_freq load_event; store = monitor_attr sample_freq store_event
                   in if \<not> pe_evsel env 0 then Inr (Out_cpus, p)
                      else let p = p\<lparr>pf_loose := [load]\<rparr>
                           in if \<not> pe_evsel env 1 then Inr (Out_cpus, p)
                              else Inr (open_list env 1024 (p\<lparr>pf_loose := [], pf_events := [load, store]\<rparr>)))"

section \<open>Behaviour\<close>

lemma add_tracepoints_end:
  "fst (add_tracepoints env cs p) = (if \<forall>i < length cs. pe_evsel env (length (pf_events p) + i) then Ready else Out_cpus)"
proof (induction cs arbitrary: p)
  case (Cons c cs)
  show ?case by (auto simp: Cons.IH less_Suc_eq_0_disj)
qed simp

lemma add_tracepoints_holds:
  "\<exists>n \<le> length cs. snd (add_tracepoints env cs p) = p\<lparr>pf_events := pf_events p @ map intercept_attr (take n cs)\<rparr>
     \<and> (fst (add_tracepoints env cs p) = Ready \<longrightarrow> n = length cs)"
proof (induction cs arbitrary: p)
  case (Cons c cs)
  show ?case
  proof (cases "pe_evsel env (length (pf_events p))")
    case True
    obtain n where "n \<le> length cs" "snd (add_tracepoints env cs (p\<lparr>pf_events := pf_events p @ [intercept_attr c]\<rparr>))
        = p\<lparr>pf_events := pf_events p @ [intercept_attr c] @ map intercept_attr (take n cs)\<rparr>"
        "fst (add_tracepoints env cs (p\<lparr>pf_events := pf_events p @ [intercept_attr c]\<rparr>)) = Ready \<longrightarrow> n = length cs"
      using Cons.IH [of "p\<lparr>pf_events := pf_events p @ [intercept_attr c]\<rparr>"] by auto
    with True show ?thesis by (intro exI [of _ "Suc n"]) simp
  qed (auto intro: exI [of _ 0])
qed simp

lemma wait_app_pid_found: "wait_app_pid pids = Inr pid \<Longrightarrow> pid \<in> set pids \<and> pid \<noteq> - 1"
  by (induction pids) (auto split: if_splits)

lemma open_list_end: "fst (open_list env pages p) = (if pe_open env = 0 \<and> pe_mmap env = 0 then Ready else Out_evlist)"
  by (simp add: open_list_def Let_def)

lemma cleanup_cpus: "\<not> pf_cpus (perf_cleanup l p)"
  by (simp add: perf_cleanup_def Let_def)

text \<open>When the loop is entered, and what is held after the labels. If a selector cannot be created the code jumps behind the
  release of the list.\<close>

lemma intercept_setup_end:
  assumes "intercept_setup env cs = Inr (l, p)"
  shows "l = Ready \<longleftrightarrow> pe_evlist env \<and> (\<forall>i < length cs. pe_evsel env i) \<and> pe_open env = 0 \<and> pe_mmap env = 0"
    "pf_evlist (perf_cleanup l p) \<longleftrightarrow> pe_evlist env \<and> (\<exists>i < length cs. \<not> pe_evsel env i)"
    "l = Ready \<Longrightarrow> pf_events p = map intercept_attr cs \<and> pf_maps_set p \<and> pf_opened p \<and> pf_pages p = 4 \<and> pf_enabled p"
    "pf_loose p = []"
proof -
  let ?p = "no_perf\<lparr>pf_cpus := True, pf_evlist := True\<rparr>"
  obtain l1 p1 where 1: "add_tracepoints env cs ?p = (l1, p1)" by fastforce
  have l1: "l1 = (if \<forall>i < length cs. pe_evsel env i then Ready else Out_cpus)"
    using add_tracepoints_end [of env cs ?p] 1 by (simp add: no_perf_def)
  obtain n where n: "p1 = ?p\<lparr>pf_events := map intercept_attr (take n cs)\<rparr>" "l1 = Ready \<longrightarrow> n = length cs"
    using add_tracepoints_holds [of cs env ?p] 1 by (auto simp: no_perf_def)
  show "l = Ready \<longleftrightarrow> pe_evlist env \<and> (\<forall>i < length cs. pe_evsel env i) \<and> pe_open env = 0 \<and> pe_mmap env = 0"
    "pf_evlist (perf_cleanup l p) \<longleftrightarrow> pe_evlist env \<and> (\<exists>i < length cs. \<not> pe_evsel env i)"
    "l = Ready \<Longrightarrow> pf_events p = map intercept_attr cs \<and> pf_maps_set p \<and> pf_opened p \<and> pf_pages p = 4 \<and> pf_enabled p"
    "pf_loose p = []"
    using assms 1 l1 n
    by (auto simp: intercept_setup_def open_list_def perf_cleanup_def no_perf_def Let_def split: if_splits prod.splits)
qed

lemma monitor_setup_end:
  assumes "monitor_setup env freq = Inr (l, p)"
  shows "l = Ready \<longleftrightarrow> pe_evlist env \<and> pe_evsel env 0 \<and> pe_evsel env 1 \<and> pe_open env = 0 \<and> pe_mmap env = 0"
    "pf_evlist (perf_cleanup l p) \<longleftrightarrow> pe_evlist env \<and> \<not> (pe_evsel env 0 \<and> pe_evsel env 1)"
    "pf_loose (perf_cleanup l p) \<noteq> [] \<longleftrightarrow> pe_evlist env \<and> pe_evsel env 0 \<and> \<not> pe_evsel env 1"
  using assms by (auto simp: monitor_setup_def open_list_def perf_cleanup_def no_perf_def Let_def split: if_splits)

text \<open>A code that does not fit into 31 bits is not the one that the event is opened with.\<close>

lemma sign_extension_range:
  assumes "0 \<le> (x :: int)" "x < 2 ^ 64"
  shows "((x + 2 ^ 31) mod 2 ^ 32 - 2 ^ 31) mod 2 ^ 64 = x \<longleftrightarrow> x \<le> 0x7FFFFFFF \<or> 0xFFFFFFFF80000000 \<le> x"
proof -
  define r where "r = (x + 2 ^ 31) mod 2 ^ 32"
  define q where "q = (x + 2 ^ 31) div 2 ^ 32"
  have r: "0 \<le> r" "r < 2 ^ 32" by (simp_all add: r_def)
  have q: "x + 2 ^ 31 = q * 2 ^ 32 + r" by (simp add: r_def q_def)
  have q_cases: "q = 0 \<or> (1 \<le> q \<and> q < 2 ^ 32) \<or> q = 2 ^ 32" using q r assms by auto
  show ?thesis
  proof (cases "2 ^ 31 \<le> r")
    case True
    then have "(r - 2 ^ 31) mod 2 ^ 64 = r - 2 ^ 31" using r by simp
    moreover have "q = 0 \<or> 1 \<le> q" "q \<le> 0xFFFFFFFF" using q_cases True q assms by auto
    ultimately show ?thesis unfolding r_def [symmetric] using True r q assms by auto
  next
    case False
    have "(r - 2 ^ 31) mod 2 ^ 64 = (r - 2 ^ 31 + 2 ^ 64) mod 2 ^ 64" by (rule mod_add_self2 [symmetric])
    also have "\<dots> = r - 2 ^ 31 + 2 ^ 64" using False r by simp
    finally have "(r - 2 ^ 31) mod 2 ^ 64 = r - 2 ^ 31 + 2 ^ 64" .
    moreover have "1 \<le> q" "q \<le> 0xFFFFFFFF \<or> q = 2 ^ 32" using q_cases False q assms by auto
    ultimately show ?thesis unfolding r_def [symmetric] using False r q assms by auto
  qed
qed

lemma encode_event_word:
  assumes "pe_encode env name = Some config"
  shows "word_of_int (encode_event env name) = config \<longleftrightarrow> config \<le> 0x7FFFFFFF \<or> 0xFFFFFFFF80000000 \<le> config"
proof -
  let ?x = "uint config"
  define y where "y = signed_take_bit 31 ?x"
  have x: "0 \<le> ?x" "?x < 2 ^ 64" using unsigned_less [of config, where 'a = int] by simp_all
  have y: "y = (?x + 2 ^ 31) mod 2 ^ 32 - 2 ^ 31"
    by (simp add: y_def signed_take_bit_eq_take_bit_shift take_bit_eq_mod)
  have "encode_event env name = y"
    using assms by (simp add: encode_event_def y_def sint_uint unsigned_ucast_eq signed_take_bit_take_bit)
  then have "word_of_int (encode_event env name) = config \<longleftrightarrow> y mod 2 ^ 64 = ?x"
    by (simp add: word_uint_eq_iff unsigned_of_int take_bit_eq_mod)
  also have "\<dots> \<longleftrightarrow> ?x \<le> 0x7FFFFFFF \<or> 0xFFFFFFFF80000000 \<le> ?x" using sign_extension_range [OF x] unfolding y .
  finally show ?thesis by (simp add: word_le_def)
qed

text \<open>All calls succeed, with the codes of an Intel processor; used in examples.\<close>

definition calm_perf :: perf_env where
  "calm_perf = \<lparr>pe_pfm_init = True, pe_encode = (\<lambda>e. Some (if e = ''MEM_UOPS_RETIRED:ALL_STORES'' then 0x82d0 else 0x1cd)),
     pe_cpus = True, pe_evlist = True, pe_evsel = (\<lambda>_. True), pe_open = 0, pe_mmap = 0\<rparr>"

end
