(* ===== verification/Intercept.thy ===== *)
theory Intercept
  imports Recorder_Correct Perf_Events
begin

text \<open>
  \<open>intercept_mmap.c\<close>: the thread that reads the tracepoint samples of \<open>mmap\<close> and \<open>munmap\<close> from the
  perf ring buffers and calls the recorder. \<open>mmap_enter_args\<close> is a pointer to the sample of the last
  \<open>sys_enter_mmap\<close>, without a value before the first one. The code keeps it after the sample has been
  consumed, when the kernel may reuse that part of the ring buffer: the event \<open>Reused\<close> is such a write.
\<close>

unbundle bit_operations_syntax

section \<open>Data\<close>

text \<open>
  A raw sample: process, event type and the 64-bit words of the payload from offset 16 on. The three
  \<open>struct syscall_..._args\<close> of the code are views of the same words.
\<close>

record sample =
  sm_pid :: u32
  sm_type :: "16 word"
  sm_word :: "nat \<Rightarrow> u64"

record mmap_enter_args =
  ea_addr :: u64
  ea_len :: u64
  ea_prot :: u64
  ea_flags :: u64
  ea_fd :: u64
  ea_off :: u64

record munmap_enter_args =
  ua_addr :: u64
  ua_len :: u64

record mmap_exit_args =
  xa_ret :: u64

definition as_mmap_enter :: "sample \<Rightarrow> mmap_enter_args" where
  "as_mmap_enter sm = \<lparr>ea_addr = sm_word sm 0, ea_len = sm_word sm 1, ea_prot = sm_word sm 2,
     ea_flags = sm_word sm 3, ea_fd = sm_word sm 4, ea_off = sm_word sm 5\<rparr>"

definition as_munmap_enter :: "sample \<Rightarrow> munmap_enter_args" where
  "as_munmap_enter sm = \<lparr>ua_addr = sm_word sm 0, ua_len = sm_word sm 1\<rparr>"

definition as_mmap_exit :: "sample \<Rightarrow> mmap_exit_args" where
  "as_mmap_exit sm = \<lparr>xa_ret = sm_word sm 0\<rparr>"

record intercept = recorder +
  sys_enter_mmap_id :: int
  sys_exit_mmap_id :: int
  sys_enter_munmap_id :: int
  app_pid :: int
  enter_args :: "mmap_enter_args option"  \<comment> \<open>what \<open>mmap_enter_args\<close> points to; \<open>None\<close> before it is set\<close>

datatype ring_event = Sample sample | Not_sample | Reused mmap_enter_args

section \<open>The thread\<close>

text \<open>\<open>read_mmaps_ids\<close>: the numbers in the three files, \<open>None\<close> for a file that cannot be opened.\<close>

definition read_mmaps_ids :: "int option \<Rightarrow> int option \<Rightarrow> int option \<Rightarrow> 'z intercept_scheme \<Rightarrow> 'z intercept_scheme" where
  "read_mmaps_ids f1 f2 f3 s = s\<lparr>
     sys_enter_mmap_id := (case f1 of Some n \<Rightarrow> n | None \<Rightarrow> sys_enter_mmap_id s),
     sys_exit_mmap_id := (case f2 of Some n \<Rightarrow> n | None \<Rightarrow> sys_exit_mmap_id s),
     sys_enter_munmap_id := (case f3 of Some n \<Rightarrow> n | None \<Rightarrow> sys_enter_munmap_id s)\<rparr>"

text \<open>The body of the inner loop, for one record of the ring buffer.\<close>

definition handle_sample ::
  "(nat \<Rightarrow> fp option) \<Rightarrow> u64 \<Rightarrow> sample \<Rightarrow> 'z intercept_scheme \<Rightarrow> 'z intercept_scheme res" where
  "handle_sample clk pagesize sm s =
     (let sys_type = uint (sm_type sm) in
      if sys_type = sys_enter_mmap_id s then Inr (s\<lparr>enter_args := Some (as_mmap_enter sm)\<rparr>)
      else if sys_type = sys_exit_mmap_id s then
        (let args = as_mmap_exit sm in
         case enter_args s of None \<Rightarrow> Inl Uninit_read
         | Some e \<Rightarrow>
             if ea_addr e = 0 \<and> sm_pid sm = word_of_int (app_pid s) \<and> ea_flags e \<noteq> 0x4022 \<and> ea_len e > 1000000
             then insert_object clk pagesize (sint (sm_pid sm)) (xa_ret args) (ea_len e) s
             else Inr s)
      else if sys_type = sys_enter_munmap_id s then
        (let args = as_munmap_enter sm in
         if sm_pid sm = word_of_int (app_pid s) then
           (case enter_args s of None \<Rightarrow> Inl Uninit_read
            | Some e \<Rightarrow>
                if ea_len e > 1000000
                then deallocate_object clk (sint (sm_pid sm)) (ua_addr args) (ua_len args) s
                else Inr s)
         else Inr s)
      else Inr s)"

definition handle_event ::
  "(nat \<Rightarrow> fp option) \<Rightarrow> u64 \<Rightarrow> ring_event \<Rightarrow> 'z intercept_scheme \<Rightarrow> 'z intercept_scheme res" where
  "handle_event clk pagesize ev s =
     (case ev of
        Sample sm \<Rightarrow> handle_sample clk pagesize sm s
      | Not_sample \<Rightarrow> Inr s
      | Reused e \<Rightarrow> Inr (s\<lparr>enter_args := map_option (\<lambda>_. e) (enter_args s)\<rparr>))"

fun drain_map ::
  "(nat \<Rightarrow> fp option) \<Rightarrow> u64 \<Rightarrow> ring_event list \<Rightarrow> 'z intercept_scheme \<Rightarrow> 'z intercept_scheme res" where
  "drain_map clk pagesize [] s = Inr s"
| "drain_map clk pagesize (ev # evs) s = rbind (handle_event clk pagesize ev s) (drain_map clk pagesize evs)"

text \<open>One turn of the outer loop: the maps, \<open>None\<close> for a map whose \<open>perf_mmap__read_init\<close> fails.\<close>

fun intercept_turn ::
  "(nat \<Rightarrow> fp option) \<Rightarrow> u64 \<Rightarrow> ring_event list option list \<Rightarrow> 'z intercept_scheme \<Rightarrow> 'z intercept_scheme res" where
  "intercept_turn clk pagesize [] s = Inr s"
| "intercept_turn clk pagesize (None # maps) s = intercept_turn clk pagesize maps s"
| "intercept_turn clk pagesize (Some evs # maps) s =
     rbind (drain_map clk pagesize evs s) (intercept_turn clk pagesize maps)"

text \<open>The turns of the loop until \<open>g_running_intercept\<close> is 0.\<close>

fun intercept_turns ::
  "(nat \<Rightarrow> fp option) \<Rightarrow> u64 \<Rightarrow> ring_event list option list list \<Rightarrow> 'z intercept_scheme \<Rightarrow> 'z intercept_scheme res" where
  "intercept_turns clk pagesize [] s = Inr s"
| "intercept_turns clk pagesize (t # ts) s = rbind (intercept_turn clk pagesize t s) (intercept_turns clk pagesize ts)"

text \<open>The thread: the numbers of the tracepoints are read, the events are set up, and if that succeeds the pipe is opened,
  the process number awaited and the loop run. The result has what is still held after the labels.\<close>

definition thread_intercept_mmap ::
  "perf_env \<Rightarrow> (nat \<Rightarrow> fp option) \<Rightarrow> u64 \<Rightarrow> int option \<times> int option \<times> int option \<Rightarrow> int \<Rightarrow> int list \<Rightarrow> ring_event list option list list \<Rightarrow>
   'z intercept_scheme \<Rightarrow> ('z intercept_scheme \<times> perf) res" where
  "thread_intercept_mmap perf clk pagesize ids fd pids turns s =
     (case ids of (f1, f2, f3) \<Rightarrow>
        let s = (read_mmaps_ids f1 f2 f3 s)\<lparr>enter_args := None\<rparr>
        in rbind (intercept_setup perf [sys_enter_mmap_id s, sys_exit_mmap_id s, sys_enter_munmap_id s]) (\<lambda>(l, p).
           rbind (if l = Ready
                  then rbind (wait_app_pid pids) (\<lambda>pid.
                       intercept_turns clk pagesize turns ((recorder_open_pipes fd s)\<lparr>app_pid := pid\<rparr>))
                  else Inr s) (\<lambda>s.
           Inr (s, perf_cleanup l p))))"

section \<open>Slots are never reused\<close>

text \<open>What one state may do to the slots of an earlier one: keep them, at most freeing some.\<close>

definition slots_kept :: "'z recorder_scheme \<Rightarrow> 'z recorder_scheme \<Rightarrow> bool" where
  "slots_kept s s' \<longleftrightarrow> rec_index s \<le> rec_index s'
     \<and> (\<forall>i < rec_index s. o_start_addr (obj_vector (tm s') i) = o_start_addr (obj_vector (tm s) i)
          \<and> o_size (obj_vector (tm s') i) = o_size (obj_vector (tm s) i)
          \<and> (obj_alloc (tm s') i = 1 \<longrightarrow> obj_alloc (tm s) i = 1))"

definition rec_step :: "'z recorder_scheme \<Rightarrow> 'z recorder_scheme \<Rightarrow> bool" where
  "rec_step s s' \<longleftrightarrow> (rec_inv s \<longrightarrow> rec_inv s' \<and> slots_kept s s')"

lemma rec_step_refl [simp]: "rec_step s s"
  by (simp add: rec_step_def slots_kept_def)

lemma rec_step_trans: "rec_step s s' \<Longrightarrow> rec_step s' s'' \<Longrightarrow> rec_step s s''"
  by (force simp: rec_step_def slots_kept_def)

lemma rec_step_insert1:
  assumes "insert_object1 clk pagesize pid a z sl s = Inr s'"
  shows "rec_step s s'"
proof (cases "rec_inv s")
  case True
  then have "rec_index s < MAX_OBJECTS"
    using assms find_slot_full [of s] by (auto simp: insert_object1_def rec_inv_def order_less_le)
  moreover from this True assms have "s' = pushed (\<lambda>n. the (clk n)) pagesize pid a z sl s"
    by (auto simp: insert_object1_def find_slot_free get_my_timestamp_def Let_def bind_order_def pushed_def
        split: option.splits)
  ultimately show ?thesis
    using pushed_inv [OF True] by (auto simp: rec_step_def slots_kept_def pushed_def Let_def)
qed (simp add: rec_step_def)

lemma dealloc_loop_cleared:
  "dealloc_loop clk a z i s = Inr (r, s') \<Longrightarrow> s' = s \<or> (\<exists>j. s' = cleared j s)"
proof (induction clk a z i s rule: dealloc_loop.induct)
  case (1 clk a z i s)
  consider "dealloc_loop clk a z i s = dealloc_loop clk a z (i + 1) s" "int i < total_obj (tm s)" "\<not> MAX_OBJECTS \<le> i"
      "\<not> (o_start_addr (obj_vector (tm s) i) = a \<and> o_size (obj_vector (tm s) i) = z \<and> obj_alloc (tm s) i = 1)"
    | "s' = s" | "s' = cleared i s"
    using "1.prems" dealloc_loop.simps [of clk a z i s]
    by (auto simp: Let_def get_my_timestamp_def cleared_def split: if_splits option.splits)
  then show ?case using "1.IH" "1.prems" by cases auto
qed

lemma rec_step_dealloc: "dealloc_loop clk a z i s = Inr (r, s') \<Longrightarrow> rec_step s s'"
  by (drule dealloc_loop_cleared)
    (auto simp: rec_step_def cleared_inv slots_kept_def, auto simp: cleared_def split: if_splits)

text \<open>A relation that every call on a chunk satisfies holds for the whole walk.\<close>

lemma chunk_loop_rel:
  assumes "reflp R" "transp R" "\<And>a z sl s s'. f a z sl s = Inr s' \<Longrightarrow> R s s'" "chunk_loop f a n i s = Inr (j, s')"
  shows "R s s'"
  using assms(4)
proof (induction n arbitrary: i s)
  case 0
  then show ?case using assms(1) by (simp add: reflpD)
next
  case (Suc n)
  then obtain s1 where "f (a + of_nat i * CHUNK_SIZE) CHUNK_SIZE 1 s = Inr s1" "chunk_loop f a n (i + 1) s1 = Inr (j, s')"
    by (auto simp: rbind_Inr_iff)
  then have "R s s1" "R s1 s'" using assms(3) Suc.IH by blast+
  then show ?case using assms(2) by (rule transpD [rotated])
qed

lemma for_chunks_rel:
  assumes "reflp R" "transp R" "\<And>a z sl s s'. f a z sl s = Inr s' \<Longrightarrow> R s s'" "for_chunks f a sz s = Inr s'"
  shows "R s s'"
proof (cases "sz > CHUNK_SIZE")
  case True
  then obtain i s1 b y where loop: "chunk_loop f a (nat (sint (ucast (sz div CHUNK_SIZE) :: 32 word))) 0 s = Inr (i, s1)"
      and last: "f b y 1 s1 = Inr s'"
    using assms(4) by (auto simp: for_chunks_def Let_def rbind_Inr_iff split: if_splits)
  have "R s s1" by (rule chunk_loop_rel [OF assms(1,2) _ loop]) (rule assms(3))
  moreover have "R s1 s'" using last by (rule assms(3))
  ultimately show ?thesis using assms(2) by (rule transpD [rotated])
qed (use assms(3,4) in \<open>auto simp: for_chunks_def\<close>)

lemma rec_step_preorder: "reflp rec_step" "transp rec_step"
  by (auto intro: reflpI transpI rec_step_trans)

lemma rec_step_insert: "insert_object clk pagesize pid a sz s = Inr s' \<Longrightarrow> rec_step s s'"
  unfolding insert_object_def
  by (rule for_chunks_rel [OF rec_step_preorder]) (auto intro: rec_step_insert1)

lemma rec_step_deallocate: "deallocate_object clk pid a sz s = Inr s' \<Longrightarrow> rec_step s s'"
  unfolding deallocate_object_def
  by (rule for_chunks_rel [OF rec_step_preorder])
    (auto simp: deallocate_object1_def rbind_Inr_iff intro: rec_step_dealloc)

lemma rec_step_enter [simp]: "rec_step s (s\<lparr>enter_args := x\<rparr>)"
  by (simp add: rec_step_def slots_kept_def rec_inv_def)

lemma rec_step_event: "handle_event clk pagesize ev s = Inr s' \<Longrightarrow> rec_step s s'"
  by (auto simp: handle_event_def handle_sample_def Let_def rec_step_insert rec_step_deallocate
      split: ring_event.splits if_splits option.splits)

lemma rec_step_drain: "drain_map clk pagesize evs s = Inr s' \<Longrightarrow> rec_step s s'"
  by (induction evs arbitrary: s) (auto simp: rbind_Inr_iff intro: rec_step_trans rec_step_event)

lemma rec_step_turn: "intercept_turn clk pagesize maps s = Inr s' \<Longrightarrow> rec_step s s'"
  by (induction clk pagesize maps s rule: intercept_turn.induct)
    (auto simp: rbind_Inr_iff intro: rec_step_trans rec_step_drain)

lemma rec_step_turns: "intercept_turns clk pagesize ts s = Inr s' \<Longrightarrow> rec_step s s'"
  by (induction ts arbitrary: s) (auto simp: rbind_Inr_iff intro: rec_step_trans rec_step_turn)

section \<open>Progress\<close>

text \<open>The lengths that events bring, and the number of slots one event can use.\<close>

definition small_event :: "nat \<Rightarrow> ring_event \<Rightarrow> bool" where
  "small_event k ev \<longleftrightarrow> (case ev of
      Sample sm \<Rightarrow> length (chunk_list 0 (sm_word sm 1)) \<le> k
    | Not_sample \<Rightarrow> True
    | Reused e \<Rightarrow> length (chunk_list 0 (ea_len e)) \<le> k)"

lemma length_chunk_list_addr: "length (chunk_list a z) = length (chunk_list b z)"
  by (simp add: length_chunk_list)

lemma rec_all_total:
  assumes "rec_inv s"
  shows "\<exists>s'. each (rem1 c pid) xs s = Inr s' \<and> rec_inv s' \<and> rec_index s' = rec_index s"
  using assms
proof (induction xs arbitrary: s)
  case (Cons x xs)
  obtain a z sl where "x = (a, z, sl)" by (cases x)
  then show ?case using Cons rec.rem_law [OF Cons.prems, of c pid a z sl] by fastforce
qed simp

text \<open>The recorder does not touch the variables of the interception thread.\<close>

definition same_ic :: "'z intercept_scheme \<Rightarrow> 'z intercept_scheme \<Rightarrow> bool" where
  "same_ic s s' \<longleftrightarrow> enter_args s' = enter_args s \<and> app_pid s' = app_pid s
     \<and> sys_enter_mmap_id s' = sys_enter_mmap_id s \<and> sys_exit_mmap_id s' = sys_exit_mmap_id s
     \<and> sys_enter_munmap_id s' = sys_enter_munmap_id s"

lemma same_ic_preorder: "reflp same_ic" "transp same_ic"
  by (auto simp: same_ic_def intro: reflpI transpI)

lemma same_ic_insert1: "insert_object1 clk pagesize pid a z sl s = Inr s' \<Longrightarrow> same_ic s s'"
  by (auto simp: insert_object1_def rbind_Inr_iff get_my_timestamp_def Let_def bind_order_def same_ic_def
      split: option.splits)

lemma same_ic_insert: "insert_object clk pagesize pid a sz s = Inr s' \<Longrightarrow> same_ic s s'"
  unfolding insert_object_def
  by (rule for_chunks_rel [OF same_ic_preorder]) (auto intro: same_ic_insert1)

lemma same_ic_deallocate: "deallocate_object clk pid a sz s = Inr s' \<Longrightarrow> same_ic s s'"
  unfolding deallocate_object_def
  by (rule for_chunks_rel [OF same_ic_preorder])
    (auto simp: deallocate_object1_def rbind_Inr_iff same_ic_def cleared_def dest!: dealloc_loop_cleared)

definition ic_ready :: "nat \<Rightarrow> 'z intercept_scheme \<Rightarrow> bool" where
  "ic_ready k s \<longleftrightarrow> rec_inv s \<and> (\<exists>e. enter_args s = Some e \<and> length (chunk_list 0 (ea_len e)) \<le> k)"

lemma ic_ready_same: "ic_ready k s \<Longrightarrow> same_ic s s' \<Longrightarrow> rec_inv s' \<Longrightarrow> ic_ready k s'"
  by (auto simp: ic_ready_def same_ic_def)

lemma insert_total:
  assumes "ic_ready k s" "length (chunk_list 0 z) \<le> k" "rec_index s + k \<le> MAX_OBJECTS"
  shows "\<exists>s'. insert_object (\<lambda>n. Some (c n)) pagesize pid a z s = Inr s' \<and> ic_ready k s' \<and> rec_index s' \<le> rec_index s + k"
proof -
  have len: "length (chunk_list a z) \<le> k" using assms(2) length_chunk_list_addr [of a z 0] by simp
  have fit: "chunkable z" using len assms(3) by (intro chunks_fit [of a]) simp
  obtain s' where s': "insert_object (\<lambda>n. Some (c n)) pagesize pid a z s = Inr s'" "rec_inv s'" "rec_index s' \<le> rec_index s + k"
    using rec.add_all [of s "chunk_list a z" c pagesize pid] assms(1,3) len
    by (auto simp: insert_object_each [OF fit] ic_ready_def)
  with ic_ready_same [OF assms(1) same_ic_insert [OF s'(1)] s'(2)] show ?thesis by blast
qed

lemma deallocate_total:
  assumes "ic_ready k s" "length (chunk_list 0 z) \<le> k" "k \<le> MAX_OBJECTS"
  shows "\<exists>s'. deallocate_object (\<lambda>n. Some (c n)) pid a z s = Inr s' \<and> ic_ready k s' \<and> rec_index s' = rec_index s"
proof -
  have fit: "chunkable z" using assms(2,3) by (intro chunks_fit [of 0]) simp
  obtain s' where s': "deallocate_object (\<lambda>n. Some (c n)) pid a z s = Inr s'" "rec_inv s'" "rec_index s' = rec_index s"
    using rec_all_total [of s c pid "chunk_list a z"] assms(1) by (auto simp: deallocate_object_each [OF fit] ic_ready_def)
  with ic_ready_same [OF assms(1) same_ic_deallocate [OF s'(1)] s'(2)] show ?thesis by blast
qed

lemma ic_ready_enter: "ic_ready k s \<Longrightarrow> length (chunk_list 0 (ea_len e)) \<le> k \<Longrightarrow> ic_ready k (s\<lparr>enter_args := Some e\<rparr>)"
  by (auto simp: ic_ready_def rec_inv_def)

lemma handle_total:
  assumes "ic_ready k s" "rec_index s + k \<le> MAX_OBJECTS" "small_event k ev"
  shows "\<exists>s'. handle_event (\<lambda>n. Some (c n)) pagesize ev s = Inr s' \<and> ic_ready k s' \<and> rec_index s' \<le> rec_index s + k"
proof -
  obtain e where e: "enter_args s = Some e" "length (chunk_list 0 (ea_len e)) \<le> k" using assms(1) by (auto simp: ic_ready_def)
  show ?thesis
  proof (cases ev)
    case (Sample sm)
    then have len: "length (chunk_list 0 (sm_word sm 1)) \<le> k" using assms(3) by (simp add: small_event_def)
    have "ic_ready k (s\<lparr>enter_args := Some (as_mmap_enter sm)\<rparr>)"
      using len by (intro ic_ready_enter [OF assms(1)]) (simp add: as_mmap_enter_def)
    moreover have "\<exists>s'. insert_object (\<lambda>n. Some (c n)) pagesize pid a (ea_len e) s = Inr s' \<and> ic_ready k s'
        \<and> rec_index s' \<le> rec_index s + k" for pid a
      by (rule insert_total [OF assms(1) e(2) assms(2)])
    moreover have "\<exists>s'. deallocate_object (\<lambda>n. Some (c n)) pid a (sm_word sm 1) s = Inr s' \<and> ic_ready k s'
        \<and> rec_index s' \<le> rec_index s + k" for pid a
      using deallocate_total [OF assms(1) len, of c pid a] assms(2) by auto
    ultimately show ?thesis using assms(1) e(1) Sample
      by (auto simp: handle_event_def handle_sample_def Let_def as_munmap_enter_def)
  next
    case (Reused e')
    then show ?thesis using ic_ready_enter [OF assms(1), of e'] assms(3) e(1)
      by (simp add: handle_event_def small_event_def)
  qed (use assms(1) in \<open>simp add: handle_event_def\<close>)
qed

lemma drain_total:
  assumes "ic_ready k s" "rec_index s + k * length evs \<le> MAX_OBJECTS" "list_all (small_event k) evs"
  shows "\<exists>s'. drain_map (\<lambda>n. Some (c n)) pagesize evs s = Inr s' \<and> ic_ready k s' \<and> rec_index s' \<le> rec_index s + k * length evs"
  using assms
proof (induction evs arbitrary: s)
  case (Cons ev evs)
  obtain s1 where s1: "handle_event (\<lambda>n. Some (c n)) pagesize ev s = Inr s1" "ic_ready k s1" "rec_index s1 \<le> rec_index s + k"
    using handle_total [of k s ev] Cons.prems by auto
  with Cons.IH [OF s1(2)] Cons.prems show ?case by fastforce
qed simp

section \<open>Properties\<close>

text \<open>The interception thread at start, with the numbers of the tracepoints read; used in examples.\<close>

definition start_intercept :: intercept where
  "start_intercept = recorder.extend start_recorder
     \<lparr>sys_enter_mmap_id = 101, sys_exit_mmap_id = 100, sys_enter_munmap_id = 576, app_pid = 7, enter_args = None\<rparr>"

definition mk_sample :: "u32 \<Rightarrow> 16 word \<Rightarrow> u64 \<Rightarrow> u64 \<Rightarrow> sample" where
  "mk_sample pid ty w0 w1 = \<lparr>sm_pid = pid, sm_type = ty, sm_word = (\<lambda>_. 0)(0 := w0, 1 := w1)\<rparr>"

lemma start_intercept_simps [simp]:
  "sys_enter_mmap_id start_intercept = 101" "sys_exit_mmap_id start_intercept = 100"
  "sys_enter_munmap_id start_intercept = 576" "app_pid start_intercept = 7" "enter_args start_intercept = None"
  "rec_index start_intercept = 0" "tm start_intercept = initialize_recorder zero_tier_manager"
  by (simp_all add: start_intercept_def start_recorder_def recorder.defs)

lemma start_intercept_inv: "rec_inv start_intercept"
  by (simp add: rec_inv_def initialize_recorder_def zero_tier_manager_def)

lemma start_intercept_live [simp]: "live_slot start_intercept i = None"
  by (simp add: live_slot_def initialize_recorder_def)

text \<open>C21: whatever the perf buffers deliver, as long as the interception thread has not stopped the
  program, the invariant of the table holds, slots are only added behind the used ones, the address and
  size in a used slot never change, and a freed slot is never live again.\<close>

theorem thread_intercept_keeps_table:
  assumes "rec_inv s" "thread_intercept_mmap perf clk pagesize ids fd pids turns s = Inr (s', p)"
  shows "rec_inv s' \<and> rec_index s \<le> rec_index s' \<and> rec_index s' \<le> MAX_OBJECTS
    \<and> (\<forall>i < rec_index s. o_start_addr (obj_vector (tm s') i) = o_start_addr (obj_vector (tm s) i)
         \<and> o_size (obj_vector (tm s') i) = o_size (obj_vector (tm s) i)
         \<and> (obj_alloc (tm s') i = 1 \<longrightarrow> obj_alloc (tm s) i = 1))"
proof -
  obtain f1 f2 f3 where ids: "ids = (f1, f2, f3)" by (cases ids)
  let ?s = "(read_mmaps_ids f1 f2 f3 s)\<lparr>enter_args := None\<rparr>"
  consider "s' = ?s" | pid where "intercept_turns clk pagesize turns ((recorder_open_pipes fd ?s)\<lparr>app_pid := pid\<rparr>) = Inr s'"
    using assms(2) ids by (auto simp: thread_intercept_mmap_def rbind_Inr_iff Let_def split: if_splits)
  then have "rec_step s s'"
  proof cases
    case 1
    then show ?thesis by (simp add: rec_step_def slots_kept_def rec_inv_def read_mmaps_ids_def)
  next
    case (2 pid)
    have "rec_step s ((recorder_open_pipes fd ?s)\<lparr>app_pid := pid\<rparr>)"
      by (simp add: rec_step_def slots_kept_def rec_inv_def recorder_open_pipes_def read_mmaps_ids_def)
    then show ?thesis by (rule rec_step_trans) (rule rec_step_turns [OF 2])
  qed
  with assms(1) show ?thesis by (simp add: rec_step_def slots_kept_def rec_inv_def)
qed

theorem thread_intercept_keeps_table_witness:
  "\<exists>s' p. thread_intercept_mmap calm_perf (\<lambda>n. Some (Fin 0)) 4096 (Some 101, Some 100, Some 576) 5 [- 1, 7]
     [[None, Some [Not_sample, Sample (mk_sample 7 101 0 2000000)]]] start_intercept = Inr (s', p) \<and> rec_inv s'"
proof -
  let ?s = "recorder_open_pipes 5 ((read_mmaps_ids (Some 101) (Some 100) (Some 576) start_intercept)\<lparr>enter_args := None\<rparr>)\<lparr>app_pid := 7\<rparr>"
  obtain p where run: "thread_intercept_mmap calm_perf (\<lambda>n. Some (Fin 0)) 4096 (Some 101, Some 100, Some 576) 5 [- 1, 7]
      [[None, Some [Not_sample, Sample (mk_sample 7 101 0 2000000)]]] start_intercept
      = Inr (?s\<lparr>enter_args := Some (as_mmap_enter (mk_sample 7 101 0 2000000))\<rparr>, p)"
    by (simp add: thread_intercept_mmap_def intercept_setup_def open_list_def calm_perf_def handle_event_def handle_sample_def mk_sample_def
        read_mmaps_ids_def recorder_open_pipes_def Let_def)
  show ?thesis using thread_intercept_keeps_table [OF start_intercept_inv run] run by blast
qed

text \<open>C23: the interception thread handles records exactly if every call of the set-up succeeds; on every path it
  releases the CPU map, and it keeps the event list exactly if the list was created and a selector was not: then the
  code jumps behind its release. A set-up that fails leaves the table, the index and the pipe as they were.\<close>

theorem intercept_set_up:
  assumes "thread_intercept_mmap perf clk pagesize ids fd pids turns s = Inr (s', p)"
  shows "\<not> pf_cpus p \<and> (pf_evlist p \<longleftrightarrow> pe_evlist perf \<and> (\<exists>i < 3. \<not> pe_evsel perf i))
    \<and> (if pe_evlist perf \<and> (\<forall>i < 3. pe_evsel perf i) \<and> pe_open perf = 0 \<and> pe_mmap perf = 0
       then \<exists>pid \<in> set pids. pid \<noteq> - 1 \<and> (\<exists>f1 f2 f3. ids = (f1, f2, f3) \<and> intercept_turns clk pagesize turns
              ((recorder_open_pipes fd ((read_mmaps_ids f1 f2 f3 s)\<lparr>enter_args := None\<rparr>))\<lparr>app_pid := pid\<rparr>) = Inr s')
       else tm s' = tm s \<and> rec_index s' = rec_index s \<and> migration_pipe s' = migration_pipe s)"
proof -
  obtain f1 f2 f3 where ids: "ids = (f1, f2, f3)" by (cases ids)
  let ?s = "(read_mmaps_ids f1 f2 f3 s)\<lparr>enter_args := None\<rparr>"
  let ?ids = "[sys_enter_mmap_id ?s, sys_exit_mmap_id ?s, sys_enter_munmap_id ?s]"
  obtain l p0 where l: "intercept_setup perf ?ids = Inr (l, p0)" "p = perf_cleanup l p0"
    "(if l = Ready then rbind (wait_app_pid pids) (\<lambda>pid. intercept_turns clk pagesize turns ((recorder_open_pipes fd ?s)\<lparr>app_pid := pid\<rparr>))
      else Inr ?s) = Inr s'"
    using assms ids by (auto simp: thread_intercept_mmap_def rbind_Inr_iff Let_def)
  have len: "length ?ids = 3" by simp
  note ends = intercept_setup_end(1,2) [OF l(1), unfolded len]
  have "\<not> pf_cpus p" "pf_evlist p \<longleftrightarrow> pe_evlist perf \<and> (\<exists>i < 3. \<not> pe_evsel perf i)"
    using ends(2) by (simp_all add: l(2) cleanup_cpus)
  moreover have "if l = Ready then \<exists>pid \<in> set pids. pid \<noteq> - 1 \<and> (\<exists>f1 f2 f3. ids = (f1, f2, f3) \<and> intercept_turns clk pagesize turns
        ((recorder_open_pipes fd ((read_mmaps_ids f1 f2 f3 s)\<lparr>enter_args := None\<rparr>))\<lparr>app_pid := pid\<rparr>) = Inr s')
      else tm s' = tm s \<and> rec_index s' = rec_index s \<and> migration_pipe s' = migration_pipe s"
    using l(3) ids by (auto simp: rbind_Inr_iff read_mmaps_ids_def dest!: wait_app_pid_found split: if_splits)
  ultimately show ?thesis unfolding ends(1) by blast
qed

text \<open>The second selector cannot be created.\<close>

theorem intercept_set_up_witness:
  "\<exists>s' p. thread_intercept_mmap (calm_perf\<lparr>pe_evsel := \<lambda>n. n \<noteq> 1\<rparr>) (\<lambda>n. Some (Fin 0)) 4096 (Some 101, Some 100, Some 576) 5 [7] []
     start_intercept = Inr (s', p) \<and> pf_evlist p \<and> pf_events p = [intercept_attr 101] \<and> tm s' = tm start_intercept"
proof -
  let ?s = "(read_mmaps_ids (Some 101) (Some 100) (Some 576) start_intercept)\<lparr>enter_args := None\<rparr>"
  obtain p where run: "thread_intercept_mmap (calm_perf\<lparr>pe_evsel := \<lambda>n. n \<noteq> 1\<rparr>) (\<lambda>n. Some (Fin 0)) 4096 (Some 101, Some 100, Some 576) 5 [7] []
      start_intercept = Inr (?s, p)" "pf_events p = [intercept_attr 101]"
    by (simp add: thread_intercept_mmap_def intercept_setup_def calm_perf_def read_mmaps_ids_def no_perf_def perf_cleanup_def Let_def)
  have "\<exists>i < 3. \<not> i \<noteq> (1 :: nat)" by (intro exI [of _ 1]) simp
  then show ?thesis using intercept_set_up [OF run(1)] run
    by (intro exI [of _ ?s] exI [of _ p]) (simp add: calm_perf_def read_mmaps_ids_def)
qed

text \<open>The interception thread cannot get stuck or fail while the clock can be read and slots remain:
  draining any sequence of records returns, where \<open>k\<close> bounds the chunks of every length in the records.\<close>

theorem drain_map_returns:
  assumes "rec_inv s" "enter_args s = Some e" "length (chunk_list 0 (ea_len e)) \<le> k"
    "rec_index s + k * length evs \<le> MAX_OBJECTS" "list_all (small_event k) evs"
  shows "\<exists>s'. drain_map (\<lambda>n. Some (c n)) pagesize evs s = Inr s' \<and> rec_inv s' \<and> rec_index s' \<le> rec_index s + k * length evs"
  using drain_total [of k s evs c pagesize] assms by (auto simp: ic_ready_def)

theorem drain_map_returns_witness:
  "\<exists>s'. drain_map (\<lambda>n. Some (Fin 0)) 4096 [Sample (mk_sample 7 101 0 2000000), Sample (mk_sample 7 100 8192 0), Not_sample]
     (start_intercept\<lparr>enter_args := Some (as_mmap_enter (mk_sample 7 101 0 2000000))\<rparr>) = Inr s' \<and> rec_index s' \<le> 3"
  using drain_map_returns [of "start_intercept\<lparr>enter_args := Some (as_mmap_enter (mk_sample 7 101 0 2000000))\<rparr>"
      "as_mmap_enter (mk_sample 7 101 0 2000000)" 1
      "[Sample (mk_sample 7 101 0 2000000), Sample (mk_sample 7 100 8192 0), Not_sample]" "\<lambda>_. Fin 0" 4096]
    start_intercept_inv
  by (auto simp: small_event_def mk_sample_def as_mmap_enter_def chunk_list_def rec_inv_def)

text \<open>The samples of one \<open>mmap\<close> call of the application and of the matching \<open>munmap\<close>.\<close>

definition is_mmap :: "'z intercept_scheme \<Rightarrow> u64 \<Rightarrow> u64 \<Rightarrow> sample \<Rightarrow> sample \<Rightarrow> bool" where
  "is_mmap s a len en ex \<longleftrightarrow> uint (sm_type en) = sys_enter_mmap_id s \<and> uint (sm_type ex) = sys_exit_mmap_id s
     \<and> sys_exit_mmap_id s \<noteq> sys_enter_mmap_id s \<and> sm_pid ex = word_of_int (app_pid s)
     \<and> sm_word en 0 = 0 \<and> sm_word en 1 = len \<and> sm_word en 3 \<noteq> 0x4022 \<and> 1000000 < len \<and> sm_word ex 0 = a"

definition is_munmap :: "'z intercept_scheme \<Rightarrow> u64 \<Rightarrow> u64 \<Rightarrow> sample \<Rightarrow> bool" where
  "is_munmap s a len un \<longleftrightarrow> uint (sm_type un) = sys_enter_munmap_id s \<and> sys_enter_munmap_id s \<noteq> sys_enter_mmap_id s
     \<and> sys_enter_munmap_id s \<noteq> sys_exit_mmap_id s \<and> sm_pid un = word_of_int (app_pid s)
     \<and> sm_word un 0 = a \<and> sm_word un 1 = len"

lemma drain_mmap:
  assumes "is_mmap s a len en ex"
  shows "drain_map clk pagesize [Sample en, Sample ex] s =
    insert_object clk pagesize (sint (sm_pid ex)) a len (s\<lparr>enter_args := Some (as_mmap_enter en)\<rparr>)"
  using assms by (simp add: is_mmap_def handle_event_def handle_sample_def Let_def as_mmap_enter_def as_mmap_exit_def rbind_def
      split: sum.split)

lemma drain_append: "drain_map clk pagesize (xs @ ys) s = rbind (drain_map clk pagesize xs s) (drain_map clk pagesize ys)"
  by (induction xs arbitrary: s) (auto simp: rbind_def split: sum.splits)

lemma each_rem_pipe: "each (rem1 c pid) xs s = Inr s' \<Longrightarrow> migration_pipe s' = migration_pipe s"
proof (induction xs arbitrary: s)
  case (Cons x xs)
  obtain a z sl where "x = (a, z, sl)" by (cases x)
  with Cons obtain r s1 where "deallocate_object1 (\<lambda>n. Some (c n)) pid a z sl s = Inr (r, s1)" "migration_pipe s' = migration_pipe s1"
    by (auto simp: rbind_Inr_iff)
  then show ?case by (auto simp: deallocate_object1_def rbind_Inr_iff cleared_def dest!: dealloc_loop_cleared)
qed simp

lemma mmap_munmap_run:
  assumes "rec_inv s" "rec_index s + length (chunk_list a len) \<le> MAX_OBJECTS" "is_mmap s a len en ex" "is_munmap s a len un"
    "\<forall>(b, z, sl) \<in> set (chunk_list a len). \<forall>i. live_slot s i \<noteq> Some (b, z)"
  shows "\<exists>s'. drain_map (\<lambda>n. Some (c n)) pagesize [Sample en, Sample ex, Sample un] s = Inr s' \<and> rec_inv s'
    \<and> live_slot s' = live_slot s
    \<and> (rec_pipe_fd s \<noteq> - 1 \<longrightarrow> migration_pipe s' = migration_pipe s @ placement_msgs (rec_index s) (chunk_list a len))"
proof -
  let ?s = "s\<lparr>enter_args := Some (as_mmap_enter en)\<rparr>" and ?pid = "sint (sm_pid ex)"
  have fit: "chunkable len" using assms(2) by (intro chunks_fit [of a]) simp
  have live: "live_slot ?s = live_slot s" by (simp add: fun_eq_iff live_slot_def)
  have new: "live_slot ?s i \<noteq> Some (b, z)" if "(b, z, sl) \<in> set (chunk_list a len)" for b z sl i
    using assms(5) that live by fastforce
  have inv: "rec_inv ?s" "rec_index ?s + length (chunk_list a len) \<le> MAX_OBJECTS" using assms(1,2) by (simp_all add: rec_inv_def)
  have "\<exists>s1 s2. each (add1 c pagesize ?pid) (chunk_list a len) ?s = Inr s1
      \<and> each (rem1 c ?pid) (chunk_list a len) s1 = Inr s2 \<and> rec_inv s2 \<and> live_slot s2 = live_slot ?s
      \<and> rec_index s2 = rec_index ?s + length (chunk_list a len)"
    by (rule rec.rem_add_all [OF inv distinct_chunks [OF fit]]) (rule new)
  moreover have pid: "sm_pid un = sm_pid ex" using assms(3,4) by (simp add: is_mmap_def is_munmap_def)
  ultimately obtain s1 s2 where s12: "insert_object (\<lambda>n. Some (c n)) pagesize ?pid a len ?s = Inr s1"
      "deallocate_object (\<lambda>n. Some (c n)) (sint (sm_pid un)) a len s1 = Inr s2" "rec_inv s2" "live_slot s2 = live_slot s"
      "each (add1 c pagesize ?pid) (chunk_list a len) ?s = Inr s1" "each (rem1 c ?pid) (chunk_list a len) s1 = Inr s2"
    using live by (auto simp: insert_object_each [OF fit] deallocate_object_each [OF fit])
  have "rec_pipe_fd s \<noteq> - 1 \<longrightarrow> migration_pipe s2 = migration_pipe s @ placement_msgs (rec_index s) (chunk_list a len)"
    using add_all_msgs [OF inv _ s12(5)] each_rem_pipe [OF s12(6)] by simp
  moreover have "same_ic ?s s1" by (rule same_ic_insert [OF s12(1)])
  then have "handle_event (\<lambda>n. Some (c n)) pagesize (Sample un) s1 = Inr s2"
    using assms(3,4) s12(2) by (simp add: is_mmap_def is_munmap_def same_ic_def handle_event_def handle_sample_def Let_def
        as_munmap_enter_def as_mmap_enter_def)
  ultimately show ?thesis using s12(1,3,4) drain_mmap [OF assms(3)]
      drain_append [of _ pagesize "[Sample en, Sample ex]" "[Sample un]" s] by simp
qed

text \<open>C26: an \<open>mmap\<close> of the application followed by the \<open>munmap\<close> of the same range leaves the live slots
  as they were before.\<close>

theorem mmap_munmap_roundtrip:
  assumes "rec_inv s" "rec_index s + length (chunk_list a len) \<le> MAX_OBJECTS" "is_mmap s a len en ex" "is_munmap s a len un"
    "\<forall>(b, z, sl) \<in> set (chunk_list a len). \<forall>i. live_slot s i \<noteq> Some (b, z)"
  shows "\<exists>s'. drain_map (\<lambda>n. Some (c n)) pagesize [Sample en, Sample ex, Sample un] s = Inr s' \<and> rec_inv s'
    \<and> live_slot s' = live_slot s"
  using mmap_munmap_run [OF assms, of c pagesize] by blast

theorem mmap_munmap_roundtrip_witness:
  "\<exists>s'. drain_map (\<lambda>n. Some (Fin 0)) 4096
     [Sample (mk_sample 7 101 0 2500000000), Sample (mk_sample 7 100 4096 0), Sample (mk_sample 7 576 4096 2500000000)]
     start_intercept = Inr s' \<and> live_slot s' = live_slot start_intercept"
  using mmap_munmap_roundtrip [OF start_intercept_inv, of 4096 2500000000 "mk_sample 7 101 0 2500000000"
      "mk_sample 7 100 4096 0" "mk_sample 7 576 4096 2500000000" "\<lambda>_. Fin 0" 4096]
  by (auto simp: is_mmap_def is_munmap_def mk_sample_def chunks_2_5)

text \<open>Samples of processes other than the application never change the table, the recorder's index
  or the pipe.\<close>

theorem foreign_samples_ignored:
  assumes "sm_pid sm \<noteq> word_of_int (app_pid s)" "handle_event clk pagesize (Sample sm) s = Inr s'"
  shows "tm s' = tm s \<and> rec_index s' = rec_index s \<and> migration_pipe s' = migration_pipe s"
  using assms by (auto simp: handle_event_def handle_sample_def Let_def split: if_splits option.splits)

theorem foreign_samples_ignored_witness:
  "tm (start_intercept\<lparr>enter_args := Some (as_mmap_enter (mk_sample 8 101 0 2000000))\<rparr>) = tm start_intercept"
  using foreign_samples_ignored [of "mk_sample 8 101 0 2000000" start_intercept "\<lambda>_. None" 4096
      "start_intercept\<lparr>enter_args := Some (as_mmap_enter (mk_sample 8 101 0 2000000))\<rparr>"]
  by (simp add: mk_sample_def handle_event_def handle_sample_def Let_def)

text \<open>But an \<open>mmap\<close> entered by any other process between the entry and the exit of an \<open>mmap\<close> of the
  application replaces its arguments: the application's mapping is recorded with the other length.\<close>

theorem mmap_args_of_other_process:
  assumes "is_mmap s a len en ex" "uint (sm_type en') = sys_enter_mmap_id s"
    "sm_word en' 0 = 0" "sm_word en' 3 \<noteq> 0x4022" "1000000 < sm_word en' 1"
  shows "drain_map clk pagesize [Sample en, Sample en', Sample ex] s =
    insert_object clk pagesize (sint (sm_pid ex)) a (sm_word en' 1) (s\<lparr>enter_args := Some (as_mmap_enter en')\<rparr>)"
  using assms by (simp add: is_mmap_def handle_event_def handle_sample_def Let_def as_mmap_enter_def as_mmap_exit_def rbind_def
      split: sum.split)

theorem mmap_args_of_other_process_witness:
  "drain_map (\<lambda>n. Some (Fin 0)) 4096
     [Sample (mk_sample 7 101 0 2000000), Sample (mk_sample 9 101 0 5000000), Sample (mk_sample 7 100 4096 0)] start_intercept
   = insert_object (\<lambda>n. Some (Fin 0)) 4096 7 4096 5000000
       (start_intercept\<lparr>enter_args := Some (as_mmap_enter (mk_sample 9 101 0 5000000))\<rparr>)"
  using mmap_args_of_other_process [of start_intercept 4096 2000000 "mk_sample 7 101 0 2000000" "mk_sample 7 100 4096 0"
      "mk_sample 9 101 0 5000000" "\<lambda>n. Some (Fin 0)" 4096]
  by (simp add: is_mmap_def mk_sample_def)

text \<open>The size filter of \<open>munmap\<close> looks at the last \<open>mmap\<close>, not at the \<open>munmap\<close>: after a small \<open>mmap\<close> the
  deallocation of a recorded mapping of any size is dropped and its slots stay live.\<close>

theorem munmap_after_small_mmap:
  assumes "is_munmap s a len un" "enter_args s = Some e" "ea_len e \<le> 1000000"
  shows "handle_event clk pagesize (Sample un) s = Inr s"
  using assms by (auto simp: is_munmap_def handle_event_def handle_sample_def Let_def dest: leD)

theorem munmap_after_small_mmap_witness:
  "handle_event (\<lambda>n. Some (Fin 0)) 4096 (Sample (mk_sample 7 576 4096 2500000000))
     (start_intercept\<lparr>enter_args := Some (as_mmap_enter (mk_sample 7 101 0 4096))\<rparr>)
   = Inr (start_intercept\<lparr>enter_args := Some (as_mmap_enter (mk_sample 7 101 0 4096))\<rparr>)"
  using munmap_after_small_mmap [of "start_intercept\<lparr>enter_args := Some (as_mmap_enter (mk_sample 7 101 0 4096))\<rparr>"
      4096 2500000000 "mk_sample 7 576 4096 2500000000" "as_mmap_enter (mk_sample 7 101 0 4096)"]
  by (simp add: is_munmap_def mk_sample_def as_mmap_enter_def)

end
