(* ===== verification/Hash_Funs.thy ===== *)
theory Hash_Funs
  imports Sched_Prelude
begin

text \<open>
  The two byte-string hash functions of \<open>hashmap.c\<close>: SipHash-2-4 (\<open>SIP64\<close>, \<open>hashmap_sip\<close>) and
  MurmurHash3 x86-128 (\<open>MM86128\<close>, \<open>hashmap_murmur\<close>). The memory a pointer designates is the byte
  list of the given length; the host stores integers little-endian.
\<close>

unbundle bit_operations_syntax

section \<open>Byte order\<close>

text \<open>The macro \<open>U8TO64_LE(p)\<close>.\<close>

definition u8to64_le :: "bytes \<Rightarrow> u64" where
  "u8to64_le p =
     ucast (p ! 0) OR push_bit 8 (ucast (p ! 1)) OR
     push_bit 16 (ucast (p ! 2)) OR push_bit 24 (ucast (p ! 3)) OR
     push_bit 32 (ucast (p ! 4)) OR push_bit 40 (ucast (p ! 5)) OR
     push_bit 48 (ucast (p ! 6)) OR push_bit 56 (ucast (p ! 7))"

text \<open>The macros \<open>U32TO8_LE(p, v)\<close> and \<open>U64TO8_LE(p, v)\<close>: the bytes they store at \<open>p\<close>.\<close>

definition u32to8_le :: "u32 \<Rightarrow> bytes" where
  "u32to8_le v = [ucast v, ucast (drop_bit 8 v), ucast (drop_bit 16 v), ucast (drop_bit 24 v)]"

definition u64to8_le :: "u64 \<Rightarrow> bytes" where
  "u64to8_le v = u32to8_le (ucast v) @ u32to8_le (ucast (drop_bit 32 v))"

section \<open>SipHash-2-4\<close>

definition rotl :: "u64 \<Rightarrow> nat \<Rightarrow> u64" where
  "rotl x b = push_bit b x OR drop_bit (64 - b) x"

type_synonym sip_state = "u64 \<times> u64 \<times> u64 \<times> u64"

fun sipround :: "sip_state \<Rightarrow> sip_state" where
  "sipround (v0, v1, v2, v3) =
     (let v0 = v0 + v1; v1 = rotl v1 13;
          v1 = v1 XOR v0; v0 = rotl v0 32;
          v2 = v2 + v3; v3 = rotl v3 16;
          v3 = v3 XOR v2;
          v0 = v0 + v3; v3 = rotl v3 21;
          v3 = v3 XOR v0;
          v2 = v2 + v1; v1 = rotl v1 17;
          v1 = v1 XOR v2; v2 = rotl v2 32
      in (v0, v1, v2, v3))"

text \<open>One iteration of the message loop: the word enters at \<open>v3\<close>, two rounds, then at \<open>v0\<close>.\<close>

fun sip_compress :: "sip_state \<Rightarrow> u64 \<Rightarrow> sip_state" where
  "sip_compress (v0, v1, v2, v3) m =
     (case sipround (sipround (v0, v1, v2, v3 XOR m)) of (v0, v1, v2, v3) \<Rightarrow> (v0 XOR m, v1, v2, v3))"

text \<open>The loop over whole 8-byte words; it returns the state and the bytes left over.\<close>

function sip_blocks :: "sip_state \<Rightarrow> bytes \<Rightarrow> sip_state \<times> bytes" where
  "sip_blocks v inp =
     (if length inp < 8 then (v, inp) else sip_blocks (sip_compress v (u8to64_le inp)) (drop 8 inp))"
  by pat_completeness auto
termination
  by (relation "measure (\<lambda>(v, inp). length inp)") auto

declare sip_blocks.simps [simp del]

text \<open>The fall-through switch over the left-over bytes.\<close>

definition sip_tail :: "bytes \<Rightarrow> nat \<Rightarrow> u64" where
  "sip_tail inp inlen =
     (let left = inlen mod 8;
          b = push_bit 56 (of_nat inlen :: u64);
          b = (if left \<ge> 7 then b OR push_bit 48 (ucast (inp ! 6)) else b);
          b = (if left \<ge> 6 then b OR push_bit 40 (ucast (inp ! 5)) else b);
          b = (if left \<ge> 5 then b OR push_bit 32 (ucast (inp ! 4)) else b);
          b = (if left \<ge> 4 then b OR push_bit 24 (ucast (inp ! 3)) else b);
          b = (if left \<ge> 3 then b OR push_bit 16 (ucast (inp ! 2)) else b);
          b = (if left \<ge> 2 then b OR push_bit 8 (ucast (inp ! 1)) else b);
          b = (if left \<ge> 1 then b OR ucast (inp ! 0) else b)
      in b)"

definition sip64 :: "bytes \<Rightarrow> u64 \<Rightarrow> u64 \<Rightarrow> u64" where
  "sip64 inp seed0 seed1 =
     (let k0 = u8to64_le (u64to8_le seed0);
          k1 = u8to64_le (u64to8_le seed1);
          v3 = 0x7465646279746573 XOR k1;
          v2 = 0x6c7967656e657261 XOR k0;
          v1 = 0x646f72616e646f6d XOR k1;
          v0 = 0x736f6d6570736575 XOR k0;
          (v, rest) = sip_blocks (v0, v1, v2, v3) inp;
          b = sip_tail rest (length inp);
          (v0, v1, v2, v3) = sip_compress v b;
          v2 = v2 XOR 0xff;
          (v0, v1, v2, v3) = sipround (sipround (sipround (sipround (v0, v1, v2, v3))));
          b = v0 XOR v1 XOR v2 XOR v3
      in u8to64_le (u64to8_le b))"

definition hashmap_sip :: "bytes \<Rightarrow> u64 \<Rightarrow> u64 \<Rightarrow> u64" where
  "hashmap_sip data seed0 seed1 = sip64 data seed0 seed1"

section \<open>MurmurHash3 x86-128\<close>

definition rotl32 :: "u32 \<Rightarrow> nat \<Rightarrow> u32" where
  "rotl32 x r = push_bit r x OR drop_bit (32 - r) x"

definition fmix32 :: "u32 \<Rightarrow> u32" where
  "fmix32 h = (let h = h XOR drop_bit 16 h; h = h * 0x85ebca6b;
                   h = h XOR drop_bit 13 h; h = h * 0xc2b2ae35;
                   h = h XOR drop_bit 16 h in h)"

text \<open>The little-endian word that \<open>blocks[i]\<close> reads.\<close>

definition u8to32_le :: "bytes \<Rightarrow> u32" where
  "u8to32_le p = ucast (p ! 0) OR push_bit 8 (ucast (p ! 1)) OR
     push_bit 16 (ucast (p ! 2)) OR push_bit 24 (ucast (p ! 3))"

abbreviation (input) mm_c1 :: u32 where "mm_c1 \<equiv> 0x239b961b"
abbreviation (input) mm_c2 :: u32 where "mm_c2 \<equiv> 0xab0e9789"
abbreviation (input) mm_c3 :: u32 where "mm_c3 \<equiv> 0x38b34ae5"
abbreviation (input) mm_c4 :: u32 where "mm_c4 \<equiv> 0xa1e38b93"

type_synonym mm_state = "u32 \<times> u32 \<times> u32 \<times> u32"

definition mm_k1 :: "u32 \<Rightarrow> u32" where "mm_k1 k = rotl32 (k * mm_c1) 15 * mm_c2"
definition mm_k2 :: "u32 \<Rightarrow> u32" where "mm_k2 k = rotl32 (k * mm_c2) 16 * mm_c3"
definition mm_k3 :: "u32 \<Rightarrow> u32" where "mm_k3 k = rotl32 (k * mm_c3) 17 * mm_c4"
definition mm_k4 :: "u32 \<Rightarrow> u32" where "mm_k4 k = rotl32 (k * mm_c4) 18 * mm_c1"

fun mm_block :: "mm_state \<Rightarrow> bytes \<Rightarrow> mm_state" where
  "mm_block (h1, h2, h3, h4) p =
     (let k1 = u8to32_le p; k2 = u8to32_le (drop 4 p);
          k3 = u8to32_le (drop 8 p); k4 = u8to32_le (drop 12 p);
          h1 = h1 XOR mm_k1 k1; h1 = rotl32 h1 19; h1 = h1 + h2; h1 = h1 * 5 + 0x561ccd1b;
          h2 = h2 XOR mm_k2 k2; h2 = rotl32 h2 17; h2 = h2 + h3; h2 = h2 * 5 + 0x0bcaa747;
          h3 = h3 XOR mm_k3 k3; h3 = rotl32 h3 15; h3 = h3 + h4; h3 = h3 * 5 + 0x96cd1c35;
          h4 = h4 XOR mm_k4 k4; h4 = rotl32 h4 13; h4 = h4 + h1; h4 = h4 * 5 + 0x32ac3b17
      in (h1, h2, h3, h4))"

function mm_blocks :: "mm_state \<Rightarrow> bytes \<Rightarrow> mm_state \<times> bytes" where
  "mm_blocks h data =
     (if length data < 16 then (h, data) else mm_blocks (mm_block h data) (drop 16 data))"
  by pat_completeness auto
termination
  by (relation "measure (\<lambda>(h, data). length data)") auto

declare mm_blocks.simps [simp del]

text \<open>
  The fall-through switch over the tail; \<open>l\<close> is \<open>len & 15\<close>. The four words are filled by the
  same pattern of cases, at offsets 0, 4, 8 and 12 (no case reads \<open>tail[15]\<close>, as \<open>l \<le> 15\<close>), and
  a word is mixed in when the switch entered at or above its first byte.
\<close>

definition mm_tail_word :: "bytes \<Rightarrow> nat \<Rightarrow> nat \<Rightarrow> u32" where
  "mm_tail_word tail l off =
     (let k = 0;
          k = (if l \<ge> off + 4 then k XOR push_bit 24 (ucast (tail ! (off + 3))) else k);
          k = (if l \<ge> off + 3 then k XOR push_bit 16 (ucast (tail ! (off + 2))) else k);
          k = (if l \<ge> off + 2 then k XOR push_bit 8 (ucast (tail ! (off + 1))) else k);
          k = (if l \<ge> off + 1 then k XOR ucast (tail ! off) else k)
      in k)"

definition mm_tail :: "mm_state \<Rightarrow> bytes \<Rightarrow> nat \<Rightarrow> mm_state" where
  "mm_tail h tail l = (case h of (h1, h2, h3, h4) \<Rightarrow>
     (if l \<ge> 1 then h1 XOR mm_k1 (mm_tail_word tail l 0) else h1,
      if l \<ge> 5 then h2 XOR mm_k2 (mm_tail_word tail l 4) else h2,
      if l \<ge> 9 then h3 XOR mm_k3 (mm_tail_word tail l 8) else h3,
      if l \<ge> 13 then h4 XOR mm_k4 (mm_tail_word tail l 12) else h4))"

text \<open>Bytes of \<open>len\<close> in range of \<open>int\<close>; \<open>out\<close> receives four 32-bit words.\<close>

definition mm86128 :: "bytes \<Rightarrow> u32 \<Rightarrow> mm_state" where
  "mm86128 data seed =
     (let len = of_nat (length data) :: u32;
          (h, tail) = mm_blocks (seed, seed, seed, seed) data;
          (h1, h2, h3, h4) = mm_tail h tail (length data mod 16);
          h1 = h1 XOR len; h2 = h2 XOR len; h3 = h3 XOR len; h4 = h4 XOR len;
          h1 = h1 + h2; h1 = h1 + h3; h1 = h1 + h4;
          h2 = h2 + h1; h3 = h3 + h1; h4 = h4 + h1;
          h1 = fmix32 h1; h2 = fmix32 h2; h3 = fmix32 h3; h4 = fmix32 h4;
          h1 = h1 + h2; h1 = h1 + h3; h1 = h1 + h4;
          h2 = h2 + h1; h3 = h3 + h1; h4 = h4 + h1
      in (h1, h2, h3, h4))"

definition hashmap_murmur :: "bytes \<Rightarrow> u64 \<Rightarrow> u64 \<Rightarrow> u64" where
  "hashmap_murmur data seed0 seed1 =
     (case mm86128 data (ucast seed0) of (h1, h2, h3, h4) \<Rightarrow> u8to64_le (u32to8_le h1 @ u32to8_le h2))"

section \<open>Byte order round trip\<close>

lemma push_u8_bit:
  "k \<le> 56 \<Longrightarrow> bit (push_bit k (ucast (b :: u8)) :: u64) n \<longleftrightarrow> k \<le> n \<and> n < k + 8 \<and> bit b (n - k)"
  by (auto simp: bit_simps dest: bit_imp_le_length)

lemma u8to64_le_bit:
  assumes "i < 8" "j < 8"
  shows "bit (u8to64_le p) (8 * i + j) = bit (p ! i) j"
proof -
  have "i \<in> set [0..<8]" using assms by simp
  then have "i = 0 \<or> i = 1 \<or> i = 2 \<or> i = 3 \<or> i = 4 \<or> i = 5 \<or> i = 6 \<or> i = 7"
    by (simp add: upt_rec) auto
  then show ?thesis using assms(2) push_u8_bit [of 0]
    by (elim disjE) (simp_all add: u8to64_le_def bit_or_iff push_u8_bit)
qed

lemma u64to8_le_nth_bit: "i < 8 \<Longrightarrow> j < 8 \<Longrightarrow> bit (u64to8_le v ! i) j = bit v (8 * i + j)"
proof -
  assume "i < 8" "j < 8"
  then have "i \<in> set [0..<8]" by simp
  then show ?thesis using \<open>j < 8\<close>
    by (simp add: upt_rec) (auto simp: u64to8_le_def u32to8_le_def bit_simps)
qed
lemma u8to64_le_inverse: "u8to64_le (u64to8_le v) = v"
proof (rule bit_word_eqI)
  fix n assume "n < LENGTH(64)"
  then have "n = 8 * (n div 8) + n mod 8" "n div 8 < 8" by simp_all
  then show "bit (u8to64_le (u64to8_le v)) n = bit v n"
    by (metis mod_less_divisor u8to64_le_bit u64to8_le_nth_bit zero_less_numeral)
qed

end
