(* ===== verification/Hashmap.thy ===== *)
theory Hashmap
  imports C_Float Hash_Funs
begin

text \<open>
  The open-addressing hash map of \<open>hashmap.c\<close> (robin hood hashing): its structures and every
  operation, function by function. An item is the \<open>elsize\<close> bytes that a \<open>void *\<close> argument
  designates, a null pointer is \<open>None\<close>. \<open>compare\<close> receives pointers, so it is given the place
  of each item beside its bytes: outside the map, in the scratch entry \<open>edata\<close>, or in a bucket.
  The scratch buffers \<open>edata\<close> and \<open>spare\<close> are written before they are read in every call and
  are locals of the model. Each call of \<open>malloc\<close> may fail; its outcome is an argument.
\<close>

unbundle bit_operations_syntax

section \<open>Structures\<close>

datatype item_loc = Ext | Edata | Slot nat

type_synonym iptr = "item_loc \<times> bytes"

record bucket =
  b_hash :: "48 word"
  b_dib :: "16 word"
  b_item :: bytes

record hashmap =
  hm_oom :: bool
  hm_elsize :: size_t
  hm_cap :: size_t
  hm_seed0 :: u64
  hm_seed1 :: u64
  hm_hash :: "bytes \<Rightarrow> u64 \<Rightarrow> u64 \<Rightarrow> u64"
  hm_compare :: "iptr \<Rightarrow> iptr \<Rightarrow> int"
  hm_elfree :: bool  \<comment> \<open>whether \<open>elfree\<close> is not null\<close>
  hm_bucketsz :: size_t
  hm_nbuckets :: size_t
  hm_count :: size_t
  hm_mask :: size_t
  hm_growat :: size_t
  hm_shrinkat :: size_t
  hm_buckets :: "bucket list"

text \<open>A bucket of memory that \<open>memset\<close> has cleared.\<close>

definition zero_bucket :: "size_t \<Rightarrow> bucket" where
  "zero_bucket elsize = \<lparr>b_hash = 0, b_dib = 0, b_item = replicate (unat elsize) 0\<rparr>"

definition bucket_at :: "hashmap \<Rightarrow> size_t \<Rightarrow> bucket" where
  "bucket_at m i = hm_buckets m ! unat i"

definition get_hash :: "hashmap \<Rightarrow> bytes \<Rightarrow> u64" where
  "get_hash m key = drop_bit 16 (push_bit 16 (hm_hash m key (hm_seed0 m) (hm_seed1 m)))"

section \<open>Creation\<close>

text \<open>
  \<open>int ncap = 16; while (ncap < cap) ncap *= 2;\<close>: the comparison converts \<open>ncap\<close> to
  \<open>size_t\<close>; doubling past \<open>INT_MAX\<close> is a signed overflow. (\<open>ncap\<close> starts at 16; the test
  for 0 only serves the termination proof.)
\<close>

function grow_cap :: "nat \<Rightarrow> size_t \<Rightarrow> size_t res" where
  "grow_cap ncap cap =
     (if ncap < unat cap
      then if ncap * 2 \<ge> 2 ^ 31 \<or> ncap = 0 then Inl Signed_overflow else grow_cap (ncap * 2) cap
      else Inr (of_nat ncap))"
  by pat_completeness auto
termination
  by (relation "measure (\<lambda>(ncap, cap). 2 ^ 31 - ncap)") auto

declare grow_cap.simps [simp del]

definition round_cap :: "size_t \<Rightarrow> size_t res" where
  "round_cap cap = (if unat cap < 16 then Inr 16 else grow_cap 16 cap)"

text \<open>\<open>while (bucketsz & (sizeof(uintptr_t)-1)) bucketsz++;\<close> with \<open>sizeof(struct bucket) = 8\<close>.\<close>

fun align_up :: "nat \<Rightarrow> size_t \<Rightarrow> size_t" where
  "align_up 0 b = b"
| "align_up (Suc fuel) b = (if b AND 7 \<noteq> 0 then align_up fuel (b + 1) else b)"

definition bucket_size :: "size_t \<Rightarrow> size_t" where
  "bucket_size elsize = align_up 8 (8 + elsize)"

text \<open>\<open>nbuckets*0.75\<close> and \<open>nbuckets*0.10\<close>, computed in \<open>double\<close> and converted back.\<close>

definition scaled :: "rat \<Rightarrow> size_t \<Rightarrow> size_t res" where
  "scaled c n = fp_to_size (dmul (d_ulong n) (d_of c))"

text \<open>
  \<open>hashmap_new_with_allocator\<close>: \<open>Inr None\<close> is the null return. The two allocation outcomes are
  for the map structure and for the bucket array.
\<close>

definition hashmap_new_with_allocator ::
  "bool \<times> bool \<Rightarrow> size_t \<Rightarrow> size_t \<Rightarrow> u64 \<Rightarrow> u64 \<Rightarrow> (bytes \<Rightarrow> u64 \<Rightarrow> u64 \<Rightarrow> u64) \<Rightarrow>
   (iptr \<Rightarrow> iptr \<Rightarrow> int) \<Rightarrow> bool \<Rightarrow> hashmap option res" where
  "hashmap_new_with_allocator ok elsize cap seed0 seed1 hash compare elfree =
     rbind (round_cap cap) (\<lambda>cap.
     if \<not> fst ok then Inr None
     else if \<not> snd ok then Inr None
     else rbind (scaled (3 / 4) cap) (\<lambda>growat.
          rbind (scaled (1 / 10) cap) (\<lambda>shrinkat.
          Inr (Some \<lparr>hm_oom = False, hm_elsize = elsize, hm_cap = cap, hm_seed0 = seed0,
            hm_seed1 = seed1, hm_hash = hash, hm_compare = compare, hm_elfree = elfree,
            hm_bucketsz = bucket_size elsize, hm_nbuckets = cap, hm_count = 0, hm_mask = cap - 1,
            hm_growat = growat, hm_shrinkat = shrinkat,
            hm_buckets = replicate (unat cap) (zero_bucket elsize)\<rparr>))))"

definition hashmap_new ::
  "bool \<times> bool \<Rightarrow> size_t \<Rightarrow> size_t \<Rightarrow> u64 \<Rightarrow> u64 \<Rightarrow> (bytes \<Rightarrow> u64 \<Rightarrow> u64 \<Rightarrow> u64) \<Rightarrow>
   (iptr \<Rightarrow> iptr \<Rightarrow> int) \<Rightarrow> bool \<Rightarrow> hashmap option res" where
  "hashmap_new ok elsize cap seed0 seed1 hash compare elfree =
     hashmap_new_with_allocator ok elsize cap seed0 seed1 hash compare elfree"

section \<open>Clearing and freeing\<close>

text \<open>The items that \<open>elfree\<close> is called with, in order.\<close>

definition free_elements :: "hashmap \<Rightarrow> bytes list" where
  "free_elements m =
     (if hm_elfree m then map b_item (filter (\<lambda>b. b_dib b \<noteq> 0) (hm_buckets m)) else [])"

text \<open>
  \<open>hashmap_clear\<close>: the new map and the freed items. When the array of \<open>cap\<close> buckets cannot be
  allocated the old array is kept and its first \<open>cap\<close> buckets are used.
\<close>

definition hashmap_clear :: "bool \<Rightarrow> hashmap \<Rightarrow> bool \<Rightarrow> (hashmap \<times> bytes list) res" where
  "hashmap_clear ok m update_cap =
     (let freed = free_elements m;
          m = m\<lparr>hm_count := 0\<rparr>;
          m = (if update_cap then m\<lparr>hm_cap := hm_nbuckets m\<rparr>
               else if hm_nbuckets m \<noteq> hm_cap m
               then (if ok then m\<lparr>hm_buckets := replicate (unat (hm_cap m)) (zero_bucket (hm_elsize m))\<rparr> else m)
                    \<lparr>hm_nbuckets := hm_cap m\<rparr>
               else m)
      in if length (hm_buckets m) < unat (hm_nbuckets m) then Inl Out_of_bounds
         else rbind (scaled (3 / 4) (hm_nbuckets m)) (\<lambda>growat.
              rbind (scaled (1 / 10) (hm_nbuckets m)) (\<lambda>shrinkat.
              Inr (m\<lparr>hm_buckets := replicate (unat (hm_nbuckets m)) (zero_bucket (hm_elsize m)),
                     hm_mask := hm_nbuckets m - 1, hm_growat := growat, hm_shrinkat := shrinkat\<rparr>, freed))))"

text \<open>\<open>hashmap_free\<close> of a pointer that may be null: the items passed to \<open>elfree\<close>.\<close>

definition hashmap_free :: "hashmap option \<Rightarrow> bytes list" where
  "hashmap_free m = (case m of None \<Rightarrow> [] | Some m \<Rightarrow> free_elements m)"

section \<open>Resizing\<close>

text \<open>The inner loop of \<open>resize\<close>: it places one entry of the old table in the new one.\<close>

partial_function (option) place_loop :: "size_t \<Rightarrow> bucket list \<Rightarrow> bucket \<Rightarrow> size_t \<Rightarrow> bucket list option" where
  "place_loop msk bs entry j =
     (let b = bs ! unat j in
      if b_dib b = 0 then Some (bs[unat j := entry])
      else if b_dib b < b_dib entry
      then place_loop msk (bs[unat j := entry]) (b\<lparr>b_dib := b_dib b + 1\<rparr>) ((j + 1) AND msk)
      else place_loop msk bs (entry\<lparr>b_dib := b_dib entry + 1\<rparr>) ((j + 1) AND msk))"

text \<open>The outer loop, over the buckets of the old table.\<close>

fun rehash :: "size_t \<Rightarrow> bucket list \<Rightarrow> bucket list \<Rightarrow> bucket list option" where
  "rehash msk [] bs2 = Some bs2"
| "rehash msk (e # es) bs2 =
     (if b_dib e = 0 then rehash msk es bs2
      else case place_loop msk bs2 (e\<lparr>b_dib := 1\<rparr>) (ucast (b_hash e) AND msk) of
             None \<Rightarrow> None | Some bs2' \<Rightarrow> rehash msk es bs2')"

definition resize :: "bool \<times> bool \<Rightarrow> hashmap \<Rightarrow> size_t \<Rightarrow> (bool \<times> hashmap) res" where
  "resize ok m new_cap =
     rbind (hashmap_new ok (hm_elsize m) new_cap (hm_seed1 m) (hm_seed1 m) (hm_hash m)
              (hm_compare m) (hm_elfree m)) (\<lambda>r.
     case r of None \<Rightarrow> Inr (False, m)
     | Some m2 \<Rightarrow>
         rbind (of_loop (rehash (hm_mask m2) (hm_buckets m) (hm_buckets m2))) (\<lambda>bs.
         Inr (True, m\<lparr>hm_buckets := bs, hm_nbuckets := hm_nbuckets m2, hm_mask := hm_mask m2,
                      hm_growat := hm_growat m2, hm_shrinkat := hm_shrinkat m2\<rparr>)))"

section \<open>Insertion\<close>

text \<open>
  The probe loop of \<open>hashmap_set\<close>. It returns the new buckets and the item that was replaced,
  \<open>None\<close> when the entry went into an empty bucket.
\<close>

partial_function (option) set_loop ::
  "(iptr \<Rightarrow> iptr \<Rightarrow> int) \<Rightarrow> size_t \<Rightarrow> bucket list \<Rightarrow> bucket \<Rightarrow> size_t \<Rightarrow> (bucket list \<times> bytes option) option" where
  "set_loop cmp msk bs entry i =
     (let b = bs ! unat i in
      if b_dib b = 0 then Some (bs[unat i := entry], None)
      else if b_hash entry = b_hash b \<and> cmp (Edata, b_item entry) (Slot (unat i), b_item b) = 0
      then Some (bs[unat i := b\<lparr>b_item := b_item entry\<rparr>], Some (b_item b))
      else if b_dib b < b_dib entry
      then set_loop cmp msk (bs[unat i := entry]) (b\<lparr>b_dib := b_dib b + 1\<rparr>) ((i + 1) AND msk)
      else set_loop cmp msk bs (entry\<lparr>b_dib := b_dib entry + 1\<rparr>) ((i + 1) AND msk))"

text \<open>\<open>hashmap_set\<close>: the new map and the returned item (\<open>None\<close> for the null return).\<close>

definition hashmap_set :: "bool \<times> bool \<Rightarrow> hashmap \<Rightarrow> bytes option \<Rightarrow> (hashmap \<times> bytes option) res" where
  "hashmap_set ok m item =
     (case item of None \<Rightarrow> Inl (Panic ''item is null'')
      | Some it \<Rightarrow>
          rbind (if hm_count m = hm_growat m then resize ok (m\<lparr>hm_oom := False\<rparr>) (hm_nbuckets m * 2)
                 else Inr (True, m\<lparr>hm_oom := False\<rparr>)) (\<lambda>(ok', m).
          if \<not> ok' then Inr (m\<lparr>hm_oom := True\<rparr>, None)
          else
            let h = get_hash m it;
                entry = \<lparr>b_hash = ucast h, b_dib = 1, b_item = it\<rparr>
            in rbind (of_loop (set_loop (hm_compare m) (hm_mask m) (hm_buckets m) entry
                                 (ucast (b_hash entry) AND hm_mask m))) (\<lambda>(bs, old).
               Inr (case old of
                      None \<Rightarrow> (m\<lparr>hm_buckets := bs, hm_count := hm_count m + 1\<rparr>, None)
                    | Some x \<Rightarrow> (m\<lparr>hm_buckets := bs\<rparr>, Some x)))))"

section \<open>Lookup\<close>

text \<open>The probe loop shared by \<open>hashmap_get\<close> and \<open>hashmap_delete\<close>: the index of the bucket found.\<close>

partial_function (option) get_loop :: "hashmap \<Rightarrow> bytes \<Rightarrow> u64 \<Rightarrow> size_t \<Rightarrow> size_t option option" where
  "get_loop m key h i =
     (let b = bucket_at m i in
      if b_dib b = 0 then Some None
      else if ucast (b_hash b) = h \<and> hm_compare m (Ext, key) (Slot (unat i), b_item b) = 0 then Some (Some i)
      else get_loop m key h ((i + 1) AND hm_mask m))"

definition hashmap_get :: "hashmap \<Rightarrow> bytes option \<Rightarrow> bytes option res" where
  "hashmap_get m key =
     (case key of None \<Rightarrow> Inl (Panic ''key is null'')
      | Some k \<Rightarrow>
          let h = get_hash m k
          in rbind (of_loop (get_loop m k h (h AND hm_mask m))) (\<lambda>r.
             Inr (map_option (\<lambda>i. b_item (bucket_at m i)) r)))"

definition hashmap_probe :: "hashmap \<Rightarrow> u64 \<Rightarrow> bytes option" where
  "hashmap_probe m position =
     (let b = bucket_at m (position AND hm_mask m) in if b_dib b = 0 then None else Some (b_item b))"

section \<open>Deletion\<close>

text \<open>The loop that moves the following entries back by one bucket.\<close>

partial_function (option) shift_loop :: "size_t \<Rightarrow> bucket list \<Rightarrow> size_t \<Rightarrow> bucket list option" where
  "shift_loop msk bs prev =
     (let i = (prev + 1) AND msk; b = bs ! unat i in
      if b_dib b \<le> 1 then Some (bs[unat prev := (bs ! unat prev)\<lparr>b_dib := 0\<rparr>])
      else shift_loop msk (bs[unat prev := b\<lparr>b_dib := b_dib b - 1\<rparr>]) i)"

definition hashmap_delete :: "bool \<times> bool \<Rightarrow> hashmap \<Rightarrow> bytes option \<Rightarrow> (hashmap \<times> bytes option) res" where
  "hashmap_delete ok m key =
     (case key of None \<Rightarrow> Inl (Panic ''key is null'')
      | Some k \<Rightarrow>
          let m = m\<lparr>hm_oom := False\<rparr>; h = get_hash m k
          in rbind (of_loop (get_loop m k h (h AND hm_mask m))) (\<lambda>r.
             case r of None \<Rightarrow> Inr (m, None)
             | Some i \<Rightarrow>
                 let b = bucket_at m i
                 in rbind (of_loop (shift_loop (hm_mask m) ((hm_buckets m)[unat i := b\<lparr>b_dib := 0\<rparr>]) i)) (\<lambda>bs.
                    let m = m\<lparr>hm_buckets := bs, hm_count := hm_count m - 1\<rparr>
                    in if hm_nbuckets m > hm_cap m \<and> hm_count m \<le> hm_shrinkat m
                       then rbind (resize ok m (hm_nbuckets m div 2)) (\<lambda>(_, m). Inr (m, Some (b_item b)))
                       else Inr (m, Some (b_item b)))))"

section \<open>Inspection\<close>

definition hashmap_count :: "hashmap \<Rightarrow> size_t" where
  "hashmap_count m = hm_count m"

definition hashmap_oom :: "hashmap \<Rightarrow> bool" where
  "hashmap_oom m = hm_oom m"

text \<open>\<open>hashmap_scan\<close> with a callback that threads a state of its own.\<close>

fun scan_buckets :: "(bytes \<Rightarrow> 's \<Rightarrow> bool \<times> 's) \<Rightarrow> bucket list \<Rightarrow> 's \<Rightarrow> bool \<times> 's" where
  "scan_buckets iter [] s = (True, s)"
| "scan_buckets iter (b # bs) s =
     (if b_dib b \<noteq> 0
      then (case iter (b_item b) s of (True, s') \<Rightarrow> scan_buckets iter bs s' | (False, s') \<Rightarrow> (False, s'))
      else scan_buckets iter bs s)"

definition hashmap_scan :: "hashmap \<Rightarrow> (bytes \<Rightarrow> 's \<Rightarrow> bool \<times> 's) \<Rightarrow> 's \<Rightarrow> bool \<times> 's" where
  "hashmap_scan m iter s = scan_buckets iter (hm_buckets m) s"

text \<open>\<open>hashmap_iter\<close>: the cursor after the call and the item, \<open>None\<close> for the return value false.\<close>

function hashmap_iter :: "hashmap \<Rightarrow> nat \<Rightarrow> nat \<times> bytes option" where
  "hashmap_iter m i =
     (if i \<ge> unat (hm_nbuckets m) then (i, None)
      else let b = hm_buckets m ! i
           in if b_dib b = 0 then hashmap_iter m (Suc i) else (Suc i, Some (b_item b)))"
  by pat_completeness auto
termination
  by (relation "measure (\<lambda>(m, i). unat (hm_nbuckets m) - i)") auto

declare hashmap_iter.simps [simp del]

end
