(* ===== verification/Hashmap_Table.thy ===== *)
theory Hashmap_Table
  imports Hashmap
begin

text \<open>
  The robin hood table: the invariant on a bucket array (every entry sits at its distance from
  its home bucket, and the distance grows by at most one from a bucket to the next), the
  multiset of entries it holds, and what the three loops that write buckets (\<open>place_loop\<close>,
  \<open>set_loop\<close>, \<open>shift_loop\<close>) do to both. All loops are shown to end.
\<close>

unbundle bit_operations_syntax

section \<open>Invariant and contents\<close>

definition occ :: "bucket \<Rightarrow> bool" where
  "occ b \<longleftrightarrow> b_dib b \<noteq> 0"

definition dibn :: "bucket \<Rightarrow> nat" where
  "dibn b = unat (b_dib b)"

definition home :: "nat \<Rightarrow> bucket \<Rightarrow> nat" where
  "home n b = unat (b_hash b) mod n"

definition ent :: "bucket \<Rightarrow> 48 word \<times> bytes" where
  "ent b = (b_hash b, b_item b)"

definition cont :: "bucket list \<Rightarrow> (48 word \<times> bytes) multiset" where
  "cont bs = image_mset ent (filter_mset occ (mset bs))"

definition at_dist :: "nat \<Rightarrow> bucket \<Rightarrow> nat \<Rightarrow> bool" where
  "at_dist n b i \<longleftrightarrow> occ b \<and> (home n b + (dibn b - 1)) mod n = i"

definition rh_ok :: "nat \<Rightarrow> bucket list \<Rightarrow> bool" where
  "rh_ok n bs \<longleftrightarrow> length bs = n
     \<and> (\<forall>i<n. occ (bs ! i) \<longrightarrow> at_dist n (bs ! i) i)
     \<and> (\<forall>i<n. dibn (bs ! nxt n i) \<le> dibn (bs ! i) + 1)"

text \<open>The table sizes covered: a power of two for which no distance can leave the 16 bits of \<open>dib\<close>.\<close>

definition geom :: "size_t \<Rightarrow> nat \<Rightarrow> bool" where
  "geom msk n \<longleftrightarrow> (\<exists>p. 1 \<le> p \<and> p \<le> 15 \<and> n = 2 ^ p \<and> unat msk = n - 1)"

lemma geom_bounds: "geom msk n \<Longrightarrow> 2 \<le> n \<and> n \<le> 32768"
proof -
  assume "geom msk n"
  then obtain p where p: "1 \<le> p" "p \<le> 15" "n = 2 ^ p" by (auto simp: geom_def)
  then show ?thesis using power_increasing [of p 15 "2 :: nat"] power_increasing [of 1 p "2 :: nat"] by simp
qed

lemma geom_step:
  assumes "geom msk n" "unat i < n"
  shows "unat ((i + 1) AND msk) = nxt n (unat i)"
proof -
  obtain p where p: "n = 2 ^ p" "unat msk = 2 ^ p - 1" using assms(1) by (auto simp: geom_def)
  have "unat i + 1 < 2 ^ 64" using assms geom_bounds [of msk n] by simp
  then have "unat (i + 1) = Suc (unat i)" by (simp add: unat_word_ariths)
  with unat_and_mask [OF p(2), of "i + 1"] p(1) show ?thesis by (simp add: nxt_def)
qed

lemma unat_ucast_48: "unat (ucast (h :: 48 word) :: u64) = unat h"
proof -
  have "unat h < 2 ^ LENGTH(48)" by (rule unsigned_less)
  then show ?thesis by (simp add: unsigned_ucast_eq take_bit_nat_eq_self)
qed

lemma ucast_48_eq [simp]: "(ucast (a :: 48 word) :: u64) = ucast b \<longleftrightarrow> a = b"
  by (simp add: word_unat_eq_iff unat_ucast_48)

lemma geom_home:
  assumes "geom msk n"
  shows "unat (ucast (h :: 48 word) AND msk) = unat h mod n"
proof -
  obtain p where p: "n = 2 ^ p" "unat msk = 2 ^ p - 1" using assms by (auto simp: geom_def)
  show ?thesis
    using unat_and_mask [OF p(2), of "ucast h"] p(1) by (simp add: unat_ucast_48)
qed

lemma nxt_inj: "i < n \<Longrightarrow> j < n \<Longrightarrow> nxt n i = nxt n j \<Longrightarrow> i = j"
  by (cases "Suc i = n"; cases "Suc j = n") (auto simp: nxt_def)

lemma occ_dibn: "occ b \<longleftrightarrow> dibn b \<noteq> 0"
  by (simp add: occ_def dibn_def unat_eq_0)

lemma not_occ_dib: "\<not> occ b \<longleftrightarrow> b_dib b = 0"
  by (simp add: occ_def)

lemma dib_less: "b_dib b < b_dib e \<longleftrightarrow> dibn b < dibn e"
  by (simp add: dibn_def word_less_nat_alt)

lemma dib_le_1: "b_dib b \<le> 1 \<longleftrightarrow> dibn b \<le> 1"
  by (simp add: dibn_def word_le_nat_alt)

lemma dibn_incr: "dibn b < 32768 \<Longrightarrow> dibn (b\<lparr>b_dib := b_dib b + 1\<rparr>) = dibn b + 1"
  by (simp add: dibn_def unat_word_ariths)

lemma dibn_decr: "occ b \<Longrightarrow> dibn (b\<lparr>b_dib := b_dib b - 1\<rparr>) = dibn b - 1"
  by (simp add: dibn_def occ_def unat_minus_one)

lemma entry_simps [simp]:
  "ent (b\<lparr>b_dib := d\<rparr>) = ent b"
  "home n (b\<lparr>b_dib := d\<rparr>) = home n b"
  "home n (b\<lparr>b_item := x\<rparr>) = home n b"
  "dibn (b\<lparr>b_item := x\<rparr>) = dibn b"
  "occ (b\<lparr>b_item := x\<rparr>) = occ b"
  by (simp_all add: ent_def home_def dibn_def occ_def)

lemma cont_update:
  assumes "i < length bs"
  shows "cont (bs[i := e]) =
    cont bs - (if occ (bs ! i) then {#ent (bs ! i)#} else {#}) + (if occ e then {#ent e#} else {#})"
  using assms nth_mem_mset [OF assms]
  by (auto simp: cont_def mset_filter_update image_mset_Diff)

lemma cont_fill: "i < length bs \<Longrightarrow> \<not> occ (bs ! i) \<Longrightarrow> occ e \<Longrightarrow> cont (bs[i := e]) = add_mset (ent e) (cont bs)"
  by (simp add: cont_update)

lemma ent_in_cont: "i < length bs \<Longrightarrow> occ (bs ! i) \<Longrightarrow> ent (bs ! i) \<in># cont bs"
  by (auto simp: cont_def)

lemma in_contE:
  assumes "x \<in># cont bs"
  obtains i where "i < length bs" "occ (bs ! i)" "x = ent (bs ! i)"
  using assms by (auto simp: cont_def in_set_conv_nth)

lemma size_cont: "size (cont bs) = length (filter occ bs)"
  by (simp add: cont_def flip: mset_filter)

lemma free_bucket:
  assumes "size (cont bs) < length bs"
  obtains z where "z < length bs" "\<not> occ (bs ! z)"
  using assms by (metis filter_True in_set_conv_nth nat_neq_iff size_cont)

section \<open>Distances along the table\<close>

lemma rh_length: "rh_ok n bs \<Longrightarrow> length bs = n"
  by (simp add: rh_ok_def)

lemma rh_step: "rh_ok n bs \<Longrightarrow> i < n \<Longrightarrow> dibn (bs ! nxt n i) \<le> dibn (bs ! i) + 1"
  by (simp add: rh_ok_def)

lemma rh_at: "rh_ok n bs \<Longrightarrow> i < n \<Longrightarrow> occ (bs ! i) \<Longrightarrow> at_dist n (bs ! i) i"
  by (simp add: rh_ok_def)

lemma rh_forward:
  assumes "rh_ok n bs" "i < n"
  shows "dibn (bs ! ((i + s) mod n)) \<le> dibn (bs ! i) + s"
proof (induction s)
  case 0
  with assms show ?case by simp
next
  case (Suc s)
  have "dibn (bs ! nxt n ((i + s) mod n)) \<le> dibn (bs ! ((i + s) mod n)) + 1"
    using assms by (intro rh_step) auto
  with Suc show ?case by (simp add: nxt_add)
qed

lemma rh_dib_bound:
  assumes "rh_ok n bs" "z < n" "\<not> occ (bs ! z)" "i < n"
  shows "dibn (bs ! i) < n"
proof -
  obtain s where "s < n" "(z + s) mod n = i" using cyclic_reach assms by blast
  with rh_forward [OF assms(1,2), of s] assms(3) show ?thesis by (simp add: occ_dibn)
qed

text \<open>Every bucket between an entry's home and the entry holds an entry at least as far from home.\<close>

lemma rh_path:
  assumes "rh_ok n bs" "i < n" "occ (bs ! i)" "t < dibn (bs ! i)"
  shows "t + 1 \<le> dibn (bs ! ((home n (bs ! i) + t) mod n))"
proof -
  let ?h = "home n (bs ! i)" and ?d = "dibn (bs ! i)"
  obtain k where k: "?d = t + k + 1" using assms(4) less_iff_Suc_add by auto
  then have "((?h + t) mod n + (?d - 1 - t)) mod n = (?h + (?d - 1)) mod n"
    by (simp add: mod_add_left_eq add.assoc)
  also have "\<dots> = i" using rh_at [OF assms(1-3)] by (simp add: at_dist_def)
  finally have "?d \<le> dibn (bs ! ((?h + t) mod n)) + (?d - 1 - t)"
    using rh_forward [OF assms(1), of "(?h + t) mod n" "?d - 1 - t"] assms(2) by simp
  with assms(4) show ?thesis by simp
qed

section \<open>Writing one bucket\<close>

text \<open>
  What may be written into bucket \<open>j\<close>: a free bucket or an entry at its distance there, at most
  one further from home than the entry before it, and at most one nearer than the entry after it.
\<close>

lemma rh_write:
  assumes "rh_ok n bs" "2 \<le> n" "j < n" "q < n" "nxt n q = j"
    "dibn e \<le> dibn (bs ! q) + 1" "dibn (bs ! nxt n j) \<le> dibn e + 1" "occ e \<Longrightarrow> at_dist n e j"
  shows "rh_ok n (bs[j := e])"
proof -
  let ?bs = "bs[j := e]"
  have j: "q \<noteq> j" and len: "length bs = n"
    using assms nxt_neq [of q n] rh_length by auto
  have "dibn (?bs ! nxt n i) \<le> dibn (?bs ! i) + 1" if "i < n" for i
  proof -
    consider "nxt n i = j" | "i = j" "nxt n i \<noteq> j" | "i \<noteq> j" "nxt n i \<noteq> j" by blast
    then show ?thesis
    proof cases
      case 1
      with nxt_inj [OF that assms(4)] assms(5) have "i = q" by simp
      with 1 j len assms(3,6) show ?thesis by (simp add: nth_list_update)
    qed (use rh_step [OF assms(1) that] assms(7) len that in \<open>auto simp: nth_list_update\<close>)
  qed
  moreover have "at_dist n (?bs ! i) i" if "i < n" "occ (?bs ! i)" for i
    using that rh_at [OF assms(1), of i] assms(8) len by (cases "i = j") auto
  ultimately show ?thesis by (simp add: rh_ok_def len)
qed

lemma nxt_pred:
  assumes "j < n"
  obtains q where "q < n" "nxt n q = j"
proof
  show "(j + (n - 1)) mod n < n" using assms by simp
  show "nxt n ((j + (n - 1)) mod n) = j" using assms nxt_add [of n j "n - 1"] by simp
qed

text \<open>The state of an entry that is looking for its bucket, about to visit the bucket after \<open>q\<close>.\<close>

definition walker :: "nat \<Rightarrow> bucket list \<Rightarrow> bucket \<Rightarrow> nat \<Rightarrow> bool" where
  "walker n bs e j \<longleftrightarrow> at_dist n e j \<and> (\<exists>q<n. nxt n q = j \<and> dibn e \<le> dibn (bs ! q) + 1)"

lemma at_dist_next:
  assumes "at_dist n b i" "dibn b < 32768"
  shows "at_dist n (b\<lparr>b_dib := b_dib b + 1\<rparr>) (nxt n i)"
proof -
  have "(home n b + dibn b) mod n = nxt n i"
    using assms(1) nxt_add [of n "home n b" "dibn b - 1"] by (auto simp: at_dist_def occ_dibn)
  with dibn_incr [OF assms(2)] show ?thesis by (simp add: at_dist_def occ_dibn)
qed

lemma walker_write:
  assumes "rh_ok n bs" "2 \<le> n" "j < n" "walker n bs e j" "dibn (bs ! j) \<le> dibn e"
  shows "rh_ok n (bs[j := e])"
proof -
  obtain q where "q < n" "nxt n q = j" "dibn e \<le> dibn (bs ! q) + 1" "at_dist n e j"
    using assms(4) by (auto simp: walker_def)
  then show ?thesis
    using assms rh_step [OF assms(1,3)] by (intro rh_write [where q = q]) auto
qed

lemma walker_swap:
  assumes "rh_ok n bs" "j < n" "occ (bs ! j)" "dibn (bs ! j) < dibn e" "dibn (bs ! j) < 32768"
  shows "walker n (bs[j := e]) ((bs ! j)\<lparr>b_dib := b_dib (bs ! j) + 1\<rparr>) (nxt n j)"
  using assms rh_at [OF assms(1-3)] rh_length [OF assms(1)]
  by (auto simp: walker_def dibn_incr intro!: at_dist_next exI [of _ j])

lemma walker_pass:
  assumes "walker n bs e j" "j < n" "dibn e \<le> dibn (bs ! j)" "dibn e < 32768"
  shows "walker n bs (e\<lparr>b_dib := b_dib e + 1\<rparr>) (nxt n j)"
  using assms by (auto simp: walker_def dibn_incr intro!: at_dist_next exI [of _ j])

lemma walker_start:
  assumes "rh_ok n bs" "0 < n" "dibn e = 1" "home n e = j"
  shows "walker n bs e j"
proof -
  have "j < n" using assms by (auto simp: home_def)
  then obtain q where "q < n" "nxt n q = j" using nxt_pred by blast
  with \<open>j < n\<close> assms show ?thesis
    by (auto simp: walker_def at_dist_def occ_dibn)
qed

section \<open>The loops that write the table\<close>

definition same :: "(bytes \<Rightarrow> bytes \<Rightarrow> bool) \<Rightarrow> 48 word \<times> bytes \<Rightarrow> 48 word \<times> bytes \<Rightarrow> bool" where
  "same ceq x y \<longleftrightarrow> fst x = fst y \<and> ceq (snd x) (snd y)"

text \<open>No two entries of the multiset are the same key.\<close>

definition uniq :: "(bytes \<Rightarrow> bytes \<Rightarrow> bool) \<Rightarrow> (48 word \<times> bytes) multiset \<Rightarrow> bool" where
  "uniq ceq M \<longleftrightarrow> (\<forall>x y. {#x, y#} \<subseteq># M \<longrightarrow> \<not> same ceq x y)"

lemma uniq_pair:
  assumes "uniq ceq (add_mset x M)" "y \<in># M"
  shows "\<not> same ceq x y"
proof -
  have "{#x, y#} \<subseteq># add_mset x M" using assms(2) by simp
  with assms(1) show ?thesis unfolding uniq_def by blast
qed

text \<open>\<open>compare\<close> decides \<open>ceq\<close> on items at different places.\<close>

definition cmp_decides :: "(iptr \<Rightarrow> iptr \<Rightarrow> int) \<Rightarrow> (bytes \<Rightarrow> bytes \<Rightarrow> bool) \<Rightarrow> bool" where
  "cmp_decides cmp ceq \<longleftrightarrow> (\<forall>x i y. (cmp (Edata, x) (Slot i, y) = 0 \<longleftrightarrow> ceq x y)
                                   \<and> (cmp (Ext, x) (Slot i, y) = 0 \<longleftrightarrow> ceq x y))"

lemma cyclic_shift: "(i + Suc s) mod n = (nxt n i + s) mod n"
  by (simp add: nxt_def mod_add_left_eq)

lemma cont_swap:
  assumes "j < length bs" "occ (bs ! j)" "occ e"
  shows "add_mset (ent (bs ! j)) (cont (bs[j := e])) = add_mset (ent e) (cont bs)"
  using assms ent_in_cont [OF assms(1,2)] by (simp add: cont_update)

text \<open>
  An entry on its way ends in the table: the loop stops, the invariant holds again, and the
  table holds the entry besides what it held. When the entry's key is not in the table,
  \<open>set_loop\<close> does exactly what \<open>place_loop\<close> does.
\<close>

lemma place_loop_correct:
  assumes "geom msk n" "rh_ok n bs" "walker n bs e (unat j)" "unat j < n"
    "z < n" "\<not> occ (bs ! z)" "(unat j + s) mod n = z"
  shows "\<exists>bs'. place_loop msk bs e j = Some bs' \<and> rh_ok n bs' \<and> cont bs' = add_mset (ent e) (cont bs)
     \<and> (\<forall>cmp ceq. cmp_decides cmp ceq \<longrightarrow> uniq ceq (add_mset (ent e) (cont bs)) \<longrightarrow>
          set_loop cmp msk bs e j = Some (bs', None))"
  using assms
proof (induction s arbitrary: bs e j)
  case (0 bs e j)
  then have "\<not> occ (bs ! unat j)" by simp
  then show ?case
    using 0 walker_write [of n bs "unat j" e] geom_bounds [of msk n] rh_length [of n bs]
    by (subst place_loop.simps, subst set_loop.simps)
      (auto simp: Let_def not_occ_dib [symmetric] occ_dibn [of "bs ! unat j"] walker_def at_dist_def cont_fill)
next
  case (Suc s bs e j)
  note geom = \<open>geom msk n\<close> and rh = \<open>rh_ok n bs\<close> and w = \<open>walker n bs e (unat j)\<close> and j = \<open>unat j < n\<close>
  let ?b = "bs ! unat j" and ?j = "(j + 1) AND msk"
  have n: "2 \<le> n" "n \<le> 32768" using geom_bounds [OF geom] by auto
  have len: "length bs = n" using rh by (rule rh_length)
  have e: "occ e" using w by (simp add: walker_def at_dist_def)
  have j': "unat ?j = nxt n (unat j)" "unat ?j < n" using geom_step [OF geom j] n by auto
  have z': "(unat ?j + s) mod n = z" using Suc.prems(7) unfolding j'(1) cyclic_shift .
  show ?case
  proof (cases "occ ?b")
    case False
    then show ?thesis
      using Suc.prems walker_write [of n bs "unat j" e] n len e
      by (subst place_loop.simps, subst set_loop.simps)
        (auto simp: Let_def not_occ_dib [symmetric] occ_dibn [of ?b] cont_fill)
  next
    case True
    have d: "dibn ?b < 32768" using rh_dib_bound [OF rh Suc.prems(5,6) j] n by simp
    have nomatch: "\<not> (b_hash e = b_hash ?b \<and> cmp (Edata, b_item e) (Slot k, b_item ?b) = 0)"
      if "cmp_decides cmp ceq" "uniq ceq (add_mset (ent e) (cont bs))" for cmp ceq k
      using uniq_pair [OF that(2) ent_in_cont [of "unat j" bs]] that(1) True j len
      by (auto simp: same_def ent_def cmp_decides_def)
    show ?thesis
    proof (cases "dibn ?b < dibn e")
      case swap: True
      let ?bs = "bs[unat j := e]" and ?e = "?b\<lparr>b_dib := b_dib ?b + 1\<rparr>"
      have "unat j \<noteq> z" using True Suc.prems(6) by auto
      have "\<exists>bs'. place_loop msk ?bs ?e ?j = Some bs' \<and> rh_ok n bs' \<and> cont bs' = add_mset (ent ?e) (cont ?bs)
         \<and> (\<forall>cmp ceq. cmp_decides cmp ceq \<longrightarrow> uniq ceq (add_mset (ent ?e) (cont ?bs)) \<longrightarrow>
              set_loop cmp msk ?bs ?e ?j = Some (bs', None))"
      proof (rule Suc.IH [OF geom _ _ j'(2) Suc.prems(5) _ z'])
        show "rh_ok n ?bs" using walker_write [OF rh n(1) j w] swap by simp
        show "walker n ?bs ?e (unat ?j)" using walker_swap [OF rh j True swap d] by (simp add: j')
        show "\<not> occ (?bs ! z)" using \<open>unat j \<noteq> z\<close> Suc.prems(6) by simp
      qed
      moreover have "cont ?bs + {#ent ?b#} = add_mset (ent e) (cont bs)"
        using cont_swap [of "unat j" bs e] True j len e by simp
      ultimately show ?thesis using True swap nomatch
        by (subst place_loop.simps, subst set_loop.simps)
          (auto simp: Let_def not_occ_dib [symmetric] dib_less)
    next
      case pass: False
      let ?e = "e\<lparr>b_dib := b_dib e + 1\<rparr>"
      have "\<exists>bs'. place_loop msk bs ?e ?j = Some bs' \<and> rh_ok n bs' \<and> cont bs' = add_mset (ent ?e) (cont bs)
         \<and> (\<forall>cmp ceq. cmp_decides cmp ceq \<longrightarrow> uniq ceq (add_mset (ent ?e) (cont bs)) \<longrightarrow>
              set_loop cmp msk bs ?e ?j = Some (bs', None))"
        using walker_pass [OF w j] pass d
        by (intro Suc.IH [OF geom rh _ j'(2) Suc.prems(5,6) z']) (simp add: j')
      then show ?thesis using True pass nomatch
        by (subst place_loop.simps, subst set_loop.simps)
          (auto simp: Let_def not_occ_dib [symmetric] dib_less)
    qed
  qed
qed
lemma cont_erase:
  assumes "i < length bs" "occ (bs ! i)" "\<not> occ e"
  shows "add_mset (ent (bs ! i)) (cont (bs[i := e])) = cont bs"
  using assms ent_in_cont [OF assms(1,2)] by (simp add: cont_update)

lemma two_in_cont:
  assumes "i < length bs" "k < length bs" "i \<noteq> k" "occ (bs ! i)" "occ (bs ! k)"
  shows "{#ent (bs ! i), ent (bs ! k)#} \<subseteq># cont bs"
proof -
  let ?bs = "bs[i := (bs ! i)\<lparr>b_dib := 0\<rparr>]"
  have "add_mset (ent (bs ! i)) (cont ?bs) = cont bs"
    using assms by (intro cont_erase) (auto simp: occ_def)
  moreover have "ent (bs ! k) \<in># cont ?bs" using ent_in_cont [of k ?bs] assms by simp
  ultimately show ?thesis by (metis insert_subset_eq_iff mset_subset_eq_add_mset_cancel mset_subset_eq_single union_single_eq_member add_mset_add_single single_subset_iff)
qed

text \<open>
  A key that is in the table is found: the walk from its home meets only occupied buckets at
  least as far from home, so nothing is displaced before the match.
\<close>

lemma set_loop_replace:
  assumes "geom msk n" "rh_ok n bs" "z < n" "\<not> occ (bs ! z)"
    "k < n" "occ (bs ! k)" "b_hash e = b_hash (bs ! k)"
    "\<And>i. i < n \<Longrightarrow> occ (bs ! i) \<Longrightarrow>
       (b_hash e = b_hash (bs ! i) \<and> cmp (Edata, b_item e) (Slot i, b_item (bs ! i)) = 0) \<longleftrightarrow> i = k"
    "dibn e = Suc t" "t + r + 1 = dibn (bs ! k)" "unat j = (home n (bs ! k) + t) mod n"
  shows "set_loop cmp msk bs e j =
    Some (bs[k := (bs ! k)\<lparr>b_item := b_item e\<rparr>], Some (b_item (bs ! k)))"
  using assms(7-)
proof (induction r arbitrary: e t j)
  case (0 e t j)
  have "dibn (bs ! k) - 1 = t" using 0(4) by simp
  then have "unat j = k" using rh_at [OF assms(2,5,6)] 0(5) unfolding at_dist_def by metis
  with 0(2) [of k] assms(5,6) show ?case
    by (subst set_loop.simps) (simp add: Let_def occ_def)
next
  case (Suc r e t j)
  let ?b = "bs ! unat j" and ?e = "e\<lparr>b_dib := b_dib e + 1\<rparr>"
  have j: "unat j < n" using Suc.prems(5) assms(5) by simp
  have path: "t + 1 \<le> dibn ?b" using rh_path [OF assms(2,5,6), of t] Suc.prems by simp
  then have occ: "occ ?b" by (simp add: occ_dibn)
  have d: "dibn e < 32768"
    using Suc.prems(3,4) rh_dib_bound [OF assms(2,3,4,5)] geom_bounds [OF assms(1)] by linarith
  show ?case
  proof (cases "unat j = k")
    case True
    with Suc.prems(2) [of k] assms(5,6) show ?thesis
      by (subst set_loop.simps) (simp add: Let_def occ_def)
  next
    case False
    have "set_loop cmp msk bs ?e ((j + 1) AND msk) =
        Some (bs[k := (bs ! k)\<lparr>b_item := b_item ?e\<rparr>], Some (b_item (bs ! k)))"
      using Suc.prems dibn_incr [OF d] geom_step [OF assms(1) j]
      by (intro Suc.IH [of ?e "Suc t"]) (auto simp: nxt_add)
    moreover have "\<not> b_dib ?b < b_dib e" using path Suc.prems(3) by (simp add: dib_less)
    ultimately show ?thesis using occ False Suc.prems(2) [OF j occ]
      by (subst set_loop.simps) (auto simp: Let_def occ_def)
  qed
qed

text \<open>Removing the entry of bucket \<open>i\<close> by moving the following entries back.\<close>

lemma at_dist_prev:
  assumes "at_dist n b (nxt n i)" "2 \<le> dibn b" "i < n"
  shows "at_dist n (b\<lparr>b_dib := b_dib b - 1\<rparr>) i"
proof -
  let ?r = "(home n b + (dibn b - 2)) mod n"
  have "nxt n ?r = (home n b + (dibn b - 1)) mod n"
    using assms(2) nxt_add [of n "home n b" "dibn b - 2"] by (simp add: Suc_diff_Suc numeral_2_eq_2)
  also have "\<dots> = nxt n i" using assms(1) by (simp add: at_dist_def)
  finally have "nxt n ?r = nxt n i" .
  moreover have "?r < n" using assms(3) by simp
  ultimately have "?r = i" using nxt_inj assms(3) by metis
  moreover have "dibn (b\<lparr>b_dib := b_dib b - 1\<rparr>) = dibn b - 1"
    using assms(1) by (intro dibn_decr) (simp add: at_dist_def)
  ultimately show ?thesis using assms(2) by (simp add: at_dist_def occ_dibn numeral_2_eq_2)
qed

lemma rh_erase:
  assumes "rh_ok n bs" "2 \<le> n" "i < n" "dibn (bs ! nxt n i) \<le> 1"
  shows "rh_ok n (bs[i := (bs ! i)\<lparr>b_dib := 0\<rparr>])"
proof -
  obtain q where "q < n" "nxt n q = i" using nxt_pred assms(3) by blast
  with assms show ?thesis by (intro rh_write [where q = q]) (auto simp: dibn_def occ_def)
qed

lemma rh_shift:
  assumes "rh_ok n bs" "2 \<le> n" "i < n" "2 \<le> dibn (bs ! nxt n i)"
  shows "rh_ok n (bs[i := (bs ! nxt n i)\<lparr>b_dib := b_dib (bs ! nxt n i) - 1\<rparr>])"
proof -
  let ?b = "bs ! nxt n i"
  obtain q where q: "q < n" "nxt n q = i" using nxt_pred assms(3) by blast
  have occ: "occ ?b" using assms(4) by (simp add: occ_dibn)
  have "at_dist n ?b (nxt n i)" using rh_at [OF assms(1) _ occ] assms(3) by simp
  then have "at_dist n (?b\<lparr>b_dib := b_dib ?b - 1\<rparr>) i" using assms(3,4) by (intro at_dist_prev)
  moreover have "dibn ?b \<le> dibn (bs ! i) + 1" "dibn (bs ! i) \<le> dibn (bs ! q) + 1"
    using rh_step [OF assms(1)] assms(3) q by auto
  ultimately show ?thesis using q assms occ
    by (intro rh_write [where q = q]) (auto simp: dibn_decr)
qed

lemma shift_loop_correct:
  assumes "geom msk n" "rh_ok n bs" "unat i < n" "occ (bs ! unat i)"
    "z < n" "\<not> occ (bs ! z)" "(unat i + Suc s) mod n = z"
  shows "\<exists>bs'. shift_loop msk bs i = Some bs' \<and> rh_ok n bs' \<and> add_mset (ent (bs ! unat i)) (cont bs') = cont bs"
  using assms
proof (induction s arbitrary: bs i)
  case (0 bs i)
  then have "nxt n (unat i) = z" by (simp add: nxt_def)
  with 0 have "dibn (bs ! nxt n (unat i)) \<le> 1" by (simp add: occ_dibn)
  then show ?case
    using 0 rh_erase [of n bs "unat i"] geom_bounds [of msk n] geom_step [of msk n i] rh_length [of n bs]
    by (subst shift_loop.simps) (auto simp: Let_def dib_le_1 occ_def intro!: cont_erase)
next
  case (Suc s bs i)
  let ?j = "(i + 1) AND msk" and ?b = "bs ! nxt n (unat i)"
  let ?bs = "bs[unat i := ?b\<lparr>b_dib := b_dib ?b - 1\<rparr>]"
  have n: "2 \<le> n" using geom_bounds [OF Suc.prems(1)] by simp
  have j: "unat ?j = nxt n (unat i)" "unat ?j < n" "nxt n (unat i) \<noteq> unat i"
    using geom_step [OF Suc.prems(1,3)] nxt_neq [OF Suc.prems(3)] n by auto
  have len: "length bs = n" using Suc.prems(2) by (rule rh_length)
  show ?case
  proof (cases "dibn ?b \<le> 1")
    case True
    then show ?thesis
      using Suc.prems rh_erase [of n bs "unat i"] n j len
      by (subst shift_loop.simps) (auto simp: Let_def dib_le_1 occ_def intro!: cont_erase)
  next
    case False
    then have occ: "occ ?b" by (simp add: occ_dibn)
    have rh: "rh_ok n ?bs" using False Suc.prems(2,3) n by (intro rh_shift) auto
    have "\<exists>bs'. shift_loop msk ?bs ?j = Some bs' \<and> rh_ok n bs' \<and> add_mset (ent (?bs ! unat ?j)) (cont bs') = cont ?bs"
    proof (rule Suc.IH [OF Suc.prems(1) rh j(2) _ Suc.prems(5)])
      show "occ (?bs ! unat ?j)" using occ j by simp
      show "\<not> occ (?bs ! z)" using Suc.prems(4,6) by (metis nth_list_update_neq)
      show "(unat ?j + Suc s) mod n = z" using Suc.prems(7) unfolding j(1) cyclic_shift [of "unat i"] .
    qed
    moreover have "cont ?bs = cont bs - {#ent (bs ! unat i)#} + {#ent ?b#}"
      using Suc.prems(3,4) False len occ by (simp add: cont_update occ_dibn dibn_decr)
    moreover have "ent (bs ! unat i) \<in># cont bs" using ent_in_cont Suc.prems(3,4) len by simp
    ultimately show ?thesis using False j
      by (subst shift_loop.simps) (auto simp: Let_def dib_le_1)
  qed
qed
section \<open>Rehashing\<close>

lemma rehash_correct:
  assumes "geom msk n" "rh_ok n bs2" "size (cont bs2) + size (cont es) < n"
  shows "\<exists>bs'. rehash msk es bs2 = Some bs' \<and> rh_ok n bs' \<and> cont bs' = cont bs2 + cont es"
  using assms(2,3)
proof (induction es arbitrary: bs2)
  case Nil
  then show ?case by (simp add: cont_def)
next
  case (Cons e es)
  show ?case
  proof (cases "occ e")
    case False
    then have "cont (e # es) = cont es" by (simp add: cont_def)
    with Cons False show ?thesis by (simp add: occ_def)
  next
    case True
    let ?e = "e\<lparr>b_dib := 1\<rparr>" and ?j = "ucast (b_hash e) AND msk :: size_t"
    have ce: "cont (e # es) = add_mset (ent e) (cont es)" using True by (simp add: cont_def)
    have j: "unat ?j = home n e" using geom_home [OF assms(1)] by (simp add: home_def)
    then have jn: "unat ?j < n" using geom_bounds [OF assms(1)] by (simp add: home_def)
    obtain z where z: "z < n" "\<not> occ (bs2 ! z)"
      using free_bucket [of bs2] Cons.prems rh_length by (metis add_lessD1)
    obtain s where s: "(unat ?j + s) mod n = z" using cyclic_reach [OF jn z(1)] by blast
    have "walker n bs2 ?e (unat ?j)"
      using Cons.prems(1) geom_bounds [OF assms(1)] j by (intro walker_start) (auto simp: dibn_def)
    from place_loop_correct [OF assms(1) Cons.prems(1) this jn z s]
    obtain bs' where bs': "place_loop msk bs2 ?e ?j = Some bs'" "rh_ok n bs'" "cont bs' = add_mset (ent e) (cont bs2)"
      by auto
    with Cons.IH [of bs'] Cons.prems(2) ce True show ?thesis by (auto simp: occ_def)
  qed
qed

section \<open>Lookup\<close>

definition hit :: "hashmap \<Rightarrow> bytes \<Rightarrow> 48 word \<Rightarrow> nat \<Rightarrow> bool" where
  "hit m key h i \<longleftrightarrow> occ (hm_buckets m ! i) \<and> b_hash (hm_buckets m ! i) = h
     \<and> hm_compare m (Ext, key) (Slot i, b_item (hm_buckets m ! i)) = 0"

lemma get_loop_absent:
  assumes "geom (hm_mask m) n" "\<And>k. k < n \<Longrightarrow> \<not> hit m key h k" "z < n" "\<not> occ (hm_buckets m ! z)"
    "unat i < n" "(unat i + s) mod n = z"
  shows "get_loop m key (ucast h) i = Some None"
  using assms(5,6)
proof (induction s arbitrary: i)
  case (0 i)
  with assms(4) show ?case by (subst get_loop.simps) (simp add: bucket_at_def occ_def)
next
  case (Suc s i)
  let ?j = "(i + 1) AND hm_mask m"
  have j: "unat ?j = nxt n (unat i)" using geom_step [OF assms(1) Suc.prems(1)] .
  have "get_loop m key (ucast h) ?j = Some None"
    using Suc.prems geom_bounds [OF assms(1)] j by (intro Suc.IH) (auto simp: cyclic_shift [symmetric])
  with assms(2) [OF Suc.prems(1)] show ?case
    by (subst get_loop.simps) (auto simp: bucket_at_def hit_def occ_def Let_def)
qed

lemma get_loop_found:
  assumes "geom (hm_mask m) n" "rh_ok n (hm_buckets m)" "\<And>i. i < n \<Longrightarrow> hit m key h i \<longleftrightarrow> i = k" "k < n"
    "t + r + 1 = dibn (hm_buckets m ! k)" "unat i = (home n (hm_buckets m ! k) + t) mod n"
  shows "\<exists>i'. get_loop m key (ucast h) i = Some (Some i') \<and> unat i' = k"
  using assms(5,6)
proof (induction r arbitrary: t i)
  case (0 t i)
  have hit: "hit m key h k" using assms(3,4) by simp
  have "dibn (hm_buckets m ! k) - 1 = t" using 0(1) by simp
  then have "unat i = k"
    using rh_at [OF assms(2,4)] hit 0(2) unfolding at_dist_def hit_def by metis
  with hit show ?case by (subst get_loop.simps) (simp add: bucket_at_def hit_def occ_def)
next
  case (Suc r t i)
  let ?j = "(i + 1) AND hm_mask m"
  have i: "unat i < n" using Suc.prems(2) assms(4) by simp
  have occk: "occ (hm_buckets m ! k)" using assms(3,4) by (auto simp: hit_def)
  have "t + 1 \<le> dibn (hm_buckets m ! unat i)"
    using rh_path [OF assms(2,4) occk, of t] Suc.prems by simp
  then have occ: "b_dib (hm_buckets m ! unat i) \<noteq> 0" by (simp add: occ_dibn flip: occ_def)
  show ?case
  proof (cases "unat i = k")
    case True
    with assms(3,4) have "hit m key h (unat i)" by simp
    with True show ?thesis by (subst get_loop.simps) (simp add: bucket_at_def hit_def occ_def)
  next
    case False
    have "\<exists>i'. get_loop m key (ucast h) ?j = Some (Some i') \<and> unat i' = k"
      using Suc.prems geom_step [OF assms(1) i] by (intro Suc.IH [of "Suc t"]) (auto simp: nxt_add)
    moreover have "\<not> hit m key h (unat i)" using False assms(3) [OF i] by simp
    ultimately show ?thesis using occ
      by (subst get_loop.simps) (auto simp: bucket_at_def hit_def occ_def Let_def)
  qed
qed

end
