(* ===== verification/Hashmap_Correct.thy ===== *)
theory Hashmap_Correct
  imports Hashmap_Table
begin

text \<open>
  Correctness of the hash map operations: the invariant of a \<open>struct hashmap\<close>, the multiset of
  items it holds, and for every operation that it returns, keeps the invariant and has the
  effect on the items that its comment promises. Two items are the same key when their 48-bit
  hashes agree and \<open>compare\<close> returns 0 on them. The number of buckets is bounded by \<open>2 ^ 15\<close>: up
  to that size no probe distance can exceed the 16-bit field \<open>dib\<close>, whatever the hash function.
\<close>

unbundle bit_operations_syntax

section \<open>Capacities\<close>

lemma scaled_exact:
  assumes "unat n = 2 ^ p" "p \<le> 30"
  shows "d_ulong n = Fin (2 ^ p)"
proof -
  have "(2 :: nat) ^ p \<le> 2 ^ 30" using assms(2) by (intro power_increasing) auto
  then show ?thesis using assms(1) d_of_nat [of "2 ^ p"] by (simp add: d_ulong_def)
qed

lemma d_of_pow2:
  assumes "\<bar>m\<bar> < 2 ^ 53" "- 1074 \<le> q" "q \<le> 971"
  shows "d_of (of_int m * pow2 q) = Fin (of_int m * pow2 q)"
  using assms by (rule d_of_exact [OF refl])

lemma d_of_3_4: "d_of (3 / 4) = Fin (3 / 4)"
  using d_of_pow2 [of 3 "- 2"] by (simp add: pow2_def)

lemma growat_exact:
  assumes "unat n = 2 ^ p" "2 \<le> p" "p \<le> 30"
  shows "scaled (3 / 4) n = Inr (of_nat (3 * 2 ^ (p - 2)))"
proof -
  obtain k where k: "p = k + 2" using assms(2) le_Suc_ex by (metis add.commute)
  have "(2 :: nat) ^ k \<le> 2 ^ 28" using assms(3) k by (intro power_increasing) auto
  then have "3 * 2 ^ k < (2 ^ 53 :: nat)" by simp
  then have "d_of (of_nat (3 * 2 ^ k)) = Fin (of_nat (3 * 2 ^ k))" by (rule d_of_nat)
  moreover have "(2 ^ p * (3 / 4) :: rat) = of_nat (3 * 2 ^ k)" by (simp add: k power_add)
  ultimately have "dmul (d_ulong n) (d_of (3 / 4)) = Fin (of_nat (3 * 2 ^ k))"
    using scaled_exact [OF assms(1,3)] d_of_3_4 by simp
  with fp_to_size_nat [of "3 * 2 ^ k"] \<open>3 * 2 ^ k < (2 ^ 53 :: nat)\<close> k show ?thesis
    by (simp only: scaled_def diff_add_inverse2) simp
qed

lemma shrinkat_bound:
  assumes "unat n = 2 ^ p" "3 \<le> p" "p \<le> 30"
  shows "\<exists>s. scaled (1 / 10) n = Inr s \<and> unat s \<le> 2 ^ (p - 3)"
proof -
  obtain k where k: "p = k + 3" using assms(2) le_Suc_ex by (metis add.commute)
  have k28: "(2 :: nat) ^ k \<le> 2 ^ 27" using assms(3) k by (intro power_increasing) auto
  have "d_of (1 / 8) = Fin (1 / 8)" using d_of_pow2 [of 1 "- 3"] by (simp add: pow2_def)
  then have "fp_in 0 (1 / 8) (d_of (1 / 10))" by (intro dbl.r_between) auto
  moreover have "fp_in 0 (2 ^ p) (d_ulong n)" using scaled_exact [OF assms(1,3)] by simp
  moreover have e: "(2 ^ p * (1 / 8) :: rat) = of_nat (2 ^ k)" by (simp add: k power_add)
  moreover have "d_of (of_nat (2 ^ k)) = Fin (of_nat (2 ^ k))" using k28 by (intro d_of_nat) simp
  ultimately have "fp_in 0 (of_nat (2 ^ k)) (dmul (d_ulong n) (d_of (1 / 10)))"
    using dbl.mul_in [of "2 ^ p" "d_ulong n" "1 / 8" "d_of (1 / 10)"] by simp
  then obtain x where x: "dmul (d_ulong n) (d_of (1 / 10)) = Fin x" "0 \<le> x" "x \<le> of_nat (2 ^ k)"
    by (auto simp: fp_in_iff)
  have "(of_nat (2 ^ k) :: rat) \<le> of_nat (2 ^ 27)" using k28 by (simp only: of_nat_le_iff)
  with x have x64: "x < 2 ^ 64" by simp
  have fl: "0 \<le> \<lfloor>x\<rfloor>" "\<lfloor>x\<rfloor> \<le> int (2 ^ k)" using x by (simp_all add: floor_le_iff)
  then have "unat (of_int \<lfloor>x\<rfloor> :: size_t) \<le> 2 ^ k"
    using zmod_le_nonneg_dividend [OF fl(1), of "2 ^ 64"]
    by (simp add: unat_eq_nat_uint uint_word_of_int nat_le_iff take_bit_eq_mod)
  with x x64 k show ?thesis by (simp add: scaled_def)
qed

lemma grow_cap_pow2:
  assumes "unat cap = 2 ^ p" "p \<le> 30" "k \<le> p"
  shows "grow_cap (2 ^ k) cap = Inr cap"
  using assms(3)
proof (induction "p - k" arbitrary: k)
  case 0
  then have "k = p" by simp
  with assms(1) show ?case by (subst grow_cap.simps) (simp flip: assms(1))
next
  case (Suc d)
  then have "k < p" by simp
  have "grow_cap (2 ^ Suc k) cap = Inr cap" using Suc by (intro Suc.hyps(1)) auto
  moreover have "(2 :: nat) ^ k < 2 ^ p" "(2 :: nat) ^ Suc k < 2 ^ 31"
    using \<open>k < p\<close> assms(2) by (intro power_strict_increasing; simp)+
  ultimately show ?case using assms(1) by (subst grow_cap.simps) (auto simp: mult.commute)
qed

lemma round_cap_pow2:
  assumes "unat cap = 2 ^ p" "4 \<le> p" "p \<le> 30"
  shows "round_cap cap = Inr cap"
proof -
  have "(2 :: nat) ^ 4 \<le> 2 ^ p" using assms(2) by (intro power_increasing) auto
  with grow_cap_pow2 [OF assms(1,3,2)] assms(1) show ?thesis by (simp add: round_cap_def)
qed


lemma grow_cap_general:
  assumes "1 \<le> k" "k \<le> 30" "unat cap \<le> 2 ^ 30" "k = 4 \<or> 2 ^ (k - 1) < unat cap"
  shows "\<exists>p. k \<le> p \<and> p \<le> 30 \<and> grow_cap (2 ^ k) cap = Inr (of_nat (2 ^ p)) \<and> unat cap \<le> 2 ^ p
     \<and> (p = 4 \<or> 2 ^ (p - 1) < unat cap)"
  using assms
proof (induction "30 - k" arbitrary: k)
  case 0
  then show ?case by (subst grow_cap.simps) auto
next
  case (Suc d)
  show ?case
  proof (cases "2 ^ k < unat cap")
    case True
    have "k < 30" using Suc.hyps(2) by simp
    then have "(2 :: nat) ^ Suc k < 2 ^ 31" by (intro power_strict_increasing) auto
    with True have "grow_cap (2 ^ k) cap = grow_cap (2 ^ Suc k) cap"
      by (subst grow_cap.simps) (auto simp: mult.commute)
    moreover have "\<exists>p. Suc k \<le> p \<and> p \<le> 30 \<and> grow_cap (2 ^ Suc k) cap = Inr (of_nat (2 ^ p))
        \<and> unat cap \<le> 2 ^ p \<and> (p = 4 \<or> 2 ^ (p - 1) < unat cap)"
      by (rule Suc.hyps(1)) (use Suc.hyps(2) Suc.prems \<open>k < 30\<close> True in auto)
    ultimately show ?thesis by (metis Suc_leD)
  next
    case False
    with Suc.prems show ?thesis by (subst grow_cap.simps) (auto intro!: exI [of _ k])
  qed
qed

section \<open>Invariant and items\<close>

definition h48 :: "hashmap \<Rightarrow> bytes \<Rightarrow> 48 word" where
  "h48 m x = ucast (hm_hash m x (hm_seed0 m) (hm_seed1 m))"

definition key_eq :: "(bytes \<Rightarrow> bytes \<Rightarrow> bool) \<Rightarrow> hashmap \<Rightarrow> bytes \<Rightarrow> bytes \<Rightarrow> bool" where
  "key_eq ceq m x y \<longleftrightarrow> h48 m x = h48 m y \<and> ceq x y"

definition hm_items :: "hashmap \<Rightarrow> bytes multiset" where
  "hm_items m = image_mset snd (cont (hm_buckets m))"

definition hm_shape :: "hashmap \<Rightarrow> nat \<Rightarrow> bool" where
  "hm_shape m p \<longleftrightarrow> 4 \<le> p \<and> p \<le> 15 \<and> unat (hm_nbuckets m) = 2 ^ p \<and> hm_mask m = hm_nbuckets m - 1
     \<and> unat (hm_growat m) = 3 * 2 ^ (p - 2) \<and> unat (hm_shrinkat m) \<le> 2 ^ (p - 3)
     \<and> (\<exists>q. 4 \<le> q \<and> q \<le> p \<and> unat (hm_cap m) = 2 ^ q)"

definition hm_data :: "(bytes \<Rightarrow> bytes \<Rightarrow> bool) \<Rightarrow> hashmap \<Rightarrow> bool" where
  "hm_data ceq m \<longleftrightarrow> rh_ok (unat (hm_nbuckets m)) (hm_buckets m)
     \<and> unat (hm_count m) = size (cont (hm_buckets m)) \<and> hm_count m \<le> hm_growat m
     \<and> (\<forall>x \<in># cont (hm_buckets m). fst x = h48 m (snd x))
     \<and> uniq ceq (cont (hm_buckets m)) \<and> cmp_decides (hm_compare m) ceq \<and> equivp ceq"

definition hm_inv :: "(bytes \<Rightarrow> bytes \<Rightarrow> bool) \<Rightarrow> hashmap \<Rightarrow> bool" where
  "hm_inv ceq m \<longleftrightarrow> (\<exists>p. hm_shape m p) \<and> hm_data ceq m"

text \<open>The fields that no operation changes after creation.\<close>

definition same_client :: "hashmap \<Rightarrow> hashmap \<Rightarrow> bool" where
  "same_client m m' \<longleftrightarrow> hm_hash m' = hm_hash m \<and> hm_compare m' = hm_compare m \<and> hm_seed0 m' = hm_seed0 m
     \<and> hm_seed1 m' = hm_seed1 m \<and> hm_elsize m' = hm_elsize m \<and> hm_elfree m' = hm_elfree m
     \<and> hm_cap m' = hm_cap m"

lemma same_client_h48: "same_client m m' \<Longrightarrow> h48 m' = h48 m"
  by (auto simp: same_client_def h48_def)

lemma get_hash_h48: "get_hash m x = ucast (h48 m x)"
  unfolding get_hash_def h48_def by (rule bit_word_eqI) (auto simp: bit_simps)

lemma ucast_get_hash: "(ucast (get_hash m x) :: 48 word) = h48 m x"
  unfolding get_hash_def h48_def by (rule bit_word_eqI) (auto simp: bit_simps)

lemma shape_geom:
  assumes "hm_shape m p"
  shows "geom (hm_mask m) (unat (hm_nbuckets m))"
proof -
  have "hm_nbuckets m \<noteq> 0" using assms by (auto simp: hm_shape_def)
  then have "unat (hm_mask m) = unat (hm_nbuckets m) - 1"
    using assms by (simp add: hm_shape_def unat_minus_one)
  with assms show ?thesis unfolding geom_def hm_shape_def by (intro exI [of _ p]) auto
qed

lemma shape_growat:
  assumes "hm_shape m p"
  shows "unat (hm_growat m) < unat (hm_nbuckets m)"
proof -
  obtain k where "p = k + 2" using assms le_Suc_ex [of 2 p] by (auto simp: hm_shape_def)
  with assms show ?thesis by (simp add: hm_shape_def)
qed

lemma inv_free:
  assumes "hm_shape m p" "hm_data ceq m"
  obtains z where "z < unat (hm_nbuckets m)" "\<not> occ (hm_buckets m ! z)"
proof -
  have "size (cont (hm_buckets m)) < length (hm_buckets m)"
    using assms shape_growat [OF assms(1)] by (simp add: hm_data_def rh_ok_def word_le_nat_alt)
  then obtain z where "z < length (hm_buckets m)" "\<not> occ (hm_buckets m ! z)" by (rule free_bucket)
  with assms that show thesis by (simp add: hm_data_def rh_ok_def)
qed

lemma data_entry:
  assumes "hm_data ceq m" "i < length (hm_buckets m)" "occ (hm_buckets m ! i)"
  shows "b_hash (hm_buckets m ! i) = h48 m (b_item (hm_buckets m ! i))"
  using assms ent_in_cont [OF assms(2,3)] by (fastforce simp: hm_data_def ent_def)

lemma same_trans:
  assumes "equivp ceq" "same ceq x y" "same ceq x z"
  shows "same ceq y z"
proof -
  have "ceq (snd y) (snd x)" using assms(2) equivp_symp [OF assms(1)] by (simp add: same_def)
  then have "ceq (snd y) (snd z)" using assms(3) equivp_transp [OF assms(1)] by (simp add: same_def)
  with assms(2,3) show ?thesis by (simp add: same_def)
qed

lemma data_unique:
  assumes "hm_data ceq m" "i < length (hm_buckets m)" "k < length (hm_buckets m)"
    "occ (hm_buckets m ! i)" "occ (hm_buckets m ! k)"
    "same ceq x (ent (hm_buckets m ! i))" "same ceq x (ent (hm_buckets m ! k))"
  shows "i = k"
proof (rule ccontr)
  assume "i \<noteq> k"
  with assms two_in_cont have "{#ent (hm_buckets m ! i), ent (hm_buckets m ! k)#} \<subseteq># cont (hm_buckets m)" by blast
  with assms(1) have "\<not> same ceq (ent (hm_buckets m ! i)) (ent (hm_buckets m ! k))"
    unfolding hm_data_def uniq_def by blast
  moreover have eq: "equivp ceq" using assms(1) by (simp add: hm_data_def)
  have "same ceq (ent (hm_buckets m ! i)) (ent (hm_buckets m ! k))"
    using same_trans [OF eq assms(6,7)] .
  ultimately show False by blast
qed

lemma items_bucket:
  "x \<in># hm_items m \<longleftrightarrow> (\<exists>i < length (hm_buckets m). occ (hm_buckets m ! i) \<and> b_item (hm_buckets m ! i) = x)"
proof
  assume "x \<in># hm_items m"
  then obtain e where "e \<in># cont (hm_buckets m)" "snd e = x" by (auto simp: hm_items_def)
  then show "\<exists>i < length (hm_buckets m). occ (hm_buckets m ! i) \<and> b_item (hm_buckets m ! i) = x"
    by (metis ent_def in_contE snd_conv)
next
  assume "\<exists>i < length (hm_buckets m). occ (hm_buckets m ! i) \<and> b_item (hm_buckets m ! i) = x"
  then show "x \<in># hm_items m"
    unfolding hm_items_def by (metis ent_def ent_in_cont image_eqI set_image_mset snd_conv)
qed

lemma hit_iff:
  assumes "hm_data ceq m" "i < length (hm_buckets m)"
  shows "hit m key (h48 m key) i \<longleftrightarrow> occ (hm_buckets m ! i) \<and> key_eq ceq m key (b_item (hm_buckets m ! i))"
  using assms data_entry [OF assms] by (auto simp: hit_def key_eq_def hm_data_def cmp_decides_def)

section \<open>Lookup\<close>

text \<open>The probe of \<open>hashmap_get\<close> and \<open>hashmap_delete\<close> ends at the one bucket with the key, or at none.\<close>

lemma get_loop_spec:
  assumes "hm_shape m p" "hm_data ceq m"
  shows "\<exists>r. get_loop m k (get_hash m k) (get_hash m k AND hm_mask m) = Some r \<and>
    (case r of None \<Rightarrow> \<forall>x \<in># hm_items m. \<not> key_eq ceq m k x
     | Some i \<Rightarrow> unat i < unat (hm_nbuckets m) \<and> occ (bucket_at m i) \<and> key_eq ceq m k (b_item (bucket_at m i)))"
proof -
  let ?n = "unat (hm_nbuckets m)" and ?bs = "hm_buckets m"
  have geom: "geom (hm_mask m) ?n" using shape_geom [OF assms(1)] .
  have rh: "rh_ok ?n ?bs" using assms(2) by (simp add: hm_data_def)
  have len: "length ?bs = ?n" using rh by (rule rh_length)
  obtain z where z: "z < ?n" "\<not> occ (?bs ! z)" using inv_free [OF assms] .
  let ?i = "ucast (h48 m k) AND hm_mask m :: size_t"
  have i: "unat ?i = unat (h48 m k) mod ?n" "unat ?i < ?n"
    using geom_home [OF geom] geom_bounds [OF geom] by auto
  show ?thesis
  proof (cases "\<exists>x \<in># hm_items m. key_eq ceq m k x")
    case False
    obtain s where "(unat ?i + s) mod ?n = z" using cyclic_reach [OF i(2) z(1)] by blast
    moreover have "\<not> hit m k (h48 m k) i'" if "i' < ?n" for i'
      using False that hit_iff [OF assms(2)] items_bucket len by metis
    ultimately have "get_loop m k (ucast (h48 m k)) ?i = Some None"
      using z i by (intro get_loop_absent [OF geom])
    with False show ?thesis by (auto simp: get_hash_h48)
  next
    case True
    then obtain j where j: "j < ?n" "occ (?bs ! j)" "key_eq ceq m k (b_item (?bs ! j))"
      by (auto simp: items_bucket len)
    have hj: "b_hash (?bs ! j) = h48 m k" using data_entry [OF assms(2)] j len by (simp add: key_eq_def)
    have uniq: "hit m k (h48 m k) i' \<longleftrightarrow> i' = j" if "i' < ?n" for i'
    proof
      assume "hit m k (h48 m k) i'"
      then have "occ (?bs ! i')" "key_eq ceq m k (b_item (?bs ! i'))"
        using hit_iff [OF assms(2)] that len by auto
      then show "i' = j"
        using data_unique [OF assms(2), of i' j "(h48 m k, k)"] data_entry [OF assms(2), of i'] that j hj len
        by (auto simp: same_def ent_def key_eq_def)
    qed (use hit_iff [OF assms(2)] j len in auto)
    have "0 + (dibn (?bs ! j) - 1) + 1 = dibn (?bs ! j)" using j(2) by (simp add: occ_dibn)
    then have "\<exists>i'. get_loop m k (ucast (h48 m k)) ?i = Some (Some i') \<and> unat i' = j"
      using i hj by (intro get_loop_found [OF geom rh uniq j(1), where t = 0]) (auto simp: home_def)
    with j show ?thesis by (auto simp: get_hash_h48 bucket_at_def)
  qed
qed

lemma hashmap_get_spec:
  assumes "hm_inv ceq m"
  shows "\<exists>r. hashmap_get m (Some k) = Inr r \<and>
    (case r of None \<Rightarrow> \<forall>x \<in># hm_items m. \<not> key_eq ceq m k x
     | Some x \<Rightarrow> x \<in># hm_items m \<and> key_eq ceq m k x)"
proof -
  obtain p where m: "hm_shape m p" "hm_data ceq m" using assms by (auto simp: hm_inv_def)
  obtain r where r: "get_loop m k (get_hash m k) (get_hash m k AND hm_mask m) = Some r"
    "case r of None \<Rightarrow> \<forall>x \<in># hm_items m. \<not> key_eq ceq m k x
     | Some i \<Rightarrow> unat i < unat (hm_nbuckets m) \<and> occ (bucket_at m i) \<and> key_eq ceq m k (b_item (bucket_at m i))"
    using get_loop_spec [OF m] by blast
  have "length (hm_buckets m) = unat (hm_nbuckets m)" using m(2) by (simp add: hm_data_def rh_ok_def)
  with r show ?thesis
    by (cases r) (auto simp: hashmap_get_def Let_def items_bucket bucket_at_def)
qed

section \<open>Creation\<close>

lemma cont_zero [simp]: "cont (replicate n (zero_bucket e)) = {#}"
  by (induction n) (auto simp: cont_def occ_def zero_bucket_def)

lemma rh_zero: "rh_ok n (replicate n (zero_bucket e))"
  by (auto simp: rh_ok_def occ_def dibn_def zero_bucket_def)

lemma uniq_empty [simp]: "uniq ceq {#}"
  by (simp add: uniq_def)

lemma hashmap_new_pow2:
  assumes "unat c = 2 ^ p" "4 \<le> p" "p \<le> 15"
  shows "\<exists>s. unat s \<le> 2 ^ (p - 3) \<and> hashmap_new (True, True) elsize c s0 s1 h cmp ef =
    Inr (Some \<lparr>hm_oom = False, hm_elsize = elsize, hm_cap = c, hm_seed0 = s0, hm_seed1 = s1,
      hm_hash = h, hm_compare = cmp, hm_elfree = ef, hm_bucketsz = bucket_size elsize, hm_nbuckets = c,
      hm_count = 0, hm_mask = c - 1, hm_growat = of_nat (3 * 2 ^ (p - 2)), hm_shrinkat = s,
      hm_buckets = replicate (unat c) (zero_bucket elsize)\<rparr>)"
proof -
  obtain s where "scaled (1 / 10) c = Inr s" "unat s \<le> 2 ^ (p - 3)"
    using shrinkat_bound [OF assms(1)] assms by auto
  with assms growat_exact [OF assms(1)] round_cap_pow2 [OF assms(1)] show ?thesis
    by (intro exI [of _ s]) (simp add: hashmap_new_def hashmap_new_with_allocator_def)
qed

lemma unat_growat:
  assumes "p \<le> 15"
  shows "unat (of_nat (3 * 2 ^ (p - 2)) :: size_t) = 3 * 2 ^ (p - 2)"
proof -
  have "(2 :: nat) ^ (p - 2) \<le> 2 ^ 13" using assms by (intro power_increasing) auto
  then have "3 * 2 ^ (p - 2) < (2 :: nat) ^ 64" by simp
  then show ?thesis by (simp only: unsigned_of_nat take_bit_nat_eq_self len_num0 len_bit0 len_num1) (simp add: take_bit_nat_eq_self)
qed

section \<open>Resizing\<close>

lemma resize_spec:
  assumes "hm_shape m p" "hm_data ceq m" "unat c = 2 ^ p'" "4 \<le> p'" "p' \<le> 15"
    "unat (hm_count m) \<le> 3 * 2 ^ (p' - 2)" "unat (hm_cap m) \<le> unat c"
  shows "\<exists>m'. resize (True, True) m c = Inr (True, m') \<and> hm_shape m' p' \<and> hm_data ceq m'
    \<and> cont (hm_buckets m') = cont (hm_buckets m) \<and> same_client m m' \<and> hm_count m' = hm_count m
    \<and> hm_oom m' = hm_oom m \<and> hm_nbuckets m' = c"
proof -
  obtain s where s: "unat s \<le> 2 ^ (p' - 3)" "hashmap_new (True, True) (hm_elsize m) c (hm_seed1 m) (hm_seed1 m)
      (hm_hash m) (hm_compare m) (hm_elfree m) =
    Inr (Some \<lparr>hm_oom = False, hm_elsize = hm_elsize m, hm_cap = c, hm_seed0 = hm_seed1 m, hm_seed1 = hm_seed1 m,
      hm_hash = hm_hash m, hm_compare = hm_compare m, hm_elfree = hm_elfree m,
      hm_bucketsz = bucket_size (hm_elsize m), hm_nbuckets = c,
      hm_count = 0, hm_mask = c - 1, hm_growat = of_nat (3 * 2 ^ (p' - 2)), hm_shrinkat = s,
      hm_buckets = replicate (unat c) (zero_bucket (hm_elsize m))\<rparr>)"
    using hashmap_new_pow2 [OF assms(3-5)] by blast
  let ?m' = "\<lambda>bs. m\<lparr>hm_buckets := bs, hm_nbuckets := c, hm_mask := c - 1,
      hm_growat := of_nat (3 * 2 ^ (p' - 2)), hm_shrinkat := s\<rparr>"
  obtain q where q: "4 \<le> q" "unat (hm_cap m) = 2 ^ q" using assms(1) by (auto simp: hm_shape_def)
  have "q \<le> p'" using assms(3,7) q by simp
  with q s(1) assms(3-5) have shape: "hm_shape (?m' bs) p'" for bs
    by (auto simp: hm_shape_def unat_growat simp del: of_nat_mult of_nat_power)
  have geom: "geom (c - 1) (unat c)" using shape_geom [OF shape] by simp
  have "3 * 2 ^ (p' - 2) < unat c" using shape_growat [OF shape] unat_growat [OF assms(5)] by simp
  then have "size (cont (hm_buckets m)) < unat c" using assms(2,6) by (simp add: hm_data_def)
  with rehash_correct [OF geom rh_zero, of _ "hm_buckets m"]
  obtain bs where bs: "rehash (c - 1) (hm_buckets m) (replicate (unat c) (zero_bucket (hm_elsize m))) = Some bs"
    "rh_ok (unat c) bs" "cont bs = cont (hm_buckets m)" by auto
  have "hm_data ceq (?m' bs)"
    using assms(2,6) bs unat_growat [OF assms(5)] by (simp add: hm_data_def h48_def word_le_nat_alt)
  with shape bs s show ?thesis
    by (intro exI [of _ "?m' bs"]) (simp add: resize_def same_client_def)
qed

section \<open>Insertion\<close>

lemma uniq_add:
  assumes "equivp ceq" "uniq ceq M" "\<And>y. y \<in># M \<Longrightarrow> \<not> same ceq x y"
  shows "uniq ceq (add_mset x M)"
  unfolding uniq_def
proof (intro allI impI)
  fix a b assume ab: "{#a, b#} \<subseteq># add_mset x M"
  have mem: "y = x \<or> y \<in># M" if "y \<in># {#a, b#}" for y
    using mset_subset_eqD [OF ab that] by auto
  show "\<not> same ceq a b"
  proof (cases "a = x \<or> b = x")
    case False
    have "count {#a, b#} c \<le> count M c" for c
      using mset_subset_eq_count [OF ab, of c] False by (cases "c = x") auto
    then have "{#a, b#} \<subseteq># M" by (rule mset_subset_eqI)
    with assms(2) show ?thesis unfolding uniq_def by blast
  next
    case True
    then show ?thesis
    proof
      assume "a = x"
      with ab assms(3) show ?thesis by simp
    next
      assume "b = x"
      with ab have "a \<in># M" by (metis add_mset_commute mset_subset_eq_add_mset_cancel single_subset_iff)
      then have "\<not> same ceq x a" by (rule assms(3))
      moreover have "same ceq a a" using assms(1) by (simp add: same_def equivp_reflp)
      ultimately show ?thesis using same_trans [OF assms(1), of a x a] \<open>b = x\<close> by blast
    qed
  qed
qed

lemma uniq_diff: "uniq ceq M \<Longrightarrow> N \<subseteq># M \<Longrightarrow> uniq ceq N"
  unfolding uniq_def using subset_mset.order_trans by blast

text \<open>The effect of \<open>hashmap_set\<close> on the items, by its return value.\<close>

definition set_effect :: "(bytes \<Rightarrow> bytes \<Rightarrow> bool) \<Rightarrow> hashmap \<Rightarrow> bytes \<Rightarrow> hashmap \<Rightarrow> bytes option \<Rightarrow> bool" where
  "set_effect ceq m it m' old \<longleftrightarrow>
     (case old of
        None \<Rightarrow> (\<forall>x \<in># hm_items m. \<not> key_eq ceq m it x) \<and> hm_items m' = add_mset it (hm_items m)
      | Some x \<Rightarrow> x \<in># hm_items m \<and> key_eq ceq m it x \<and> hm_items m' = add_mset it (hm_items m - {#x#}))"

lemma key_in_cont:
  assumes "hm_data ceq m" "y \<in># cont (hm_buckets m)" "same ceq (h48 m it, it) y"
  shows "snd y \<in># hm_items m \<and> key_eq ceq m it (snd y)"
  using assms by (auto simp: hm_items_def same_def key_eq_def hm_data_def)

lemma set_loop_insert:
  assumes "hm_shape m p" "hm_data ceq m" "\<forall>x \<in># hm_items m. \<not> key_eq ceq m it x"
  defines "e \<equiv> \<lparr>b_hash = h48 m it, b_dib = 1, b_item = it\<rparr>"
  shows "\<exists>bs. set_loop (hm_compare m) (hm_mask m) (hm_buckets m) e (ucast (h48 m it) AND hm_mask m) = Some (bs, None)
    \<and> rh_ok (unat (hm_nbuckets m)) bs \<and> cont bs = add_mset (h48 m it, it) (cont (hm_buckets m))
    \<and> uniq ceq (cont bs)"
proof -
  let ?n = "unat (hm_nbuckets m)" and ?bs = "hm_buckets m" and ?j = "ucast (h48 m it) AND hm_mask m :: size_t"
  have geom: "geom (hm_mask m) ?n" using shape_geom [OF assms(1)] .
  have rh: "rh_ok ?n ?bs" and cmp: "cmp_decides (hm_compare m) ceq" and eq: "equivp ceq" and u: "uniq ceq (cont ?bs)"
    using assms(2) by (auto simp: hm_data_def)
  obtain z where z: "z < ?n" "\<not> occ (?bs ! z)" using inv_free [OF assms(1,2)] .
  have j: "unat ?j = home ?n e" "unat ?j < ?n"
    using geom_home [OF geom] geom_bounds [OF geom] by (auto simp: home_def e_def)
  obtain s where s: "(unat ?j + s) mod ?n = z" using cyclic_reach [OF j(2) z(1)] by blast
  have ent: "ent e = (h48 m it, it)" by (simp add: ent_def e_def)
  have uniq: "uniq ceq (add_mset (ent e) (cont ?bs))"
    using key_in_cont [OF assms(2)] assms(3) by (intro uniq_add [OF eq u]) (auto simp: ent)
  have "walker ?n ?bs e (unat ?j)"
    using rh geom_bounds [OF geom] j by (intro walker_start) (auto simp: dibn_def e_def)
  from place_loop_correct [OF geom rh this j(2) z s] cmp uniq show ?thesis
    unfolding ent by auto
qed

lemma set_loop_replaces:
  assumes "hm_shape m p" "hm_data ceq m" "x \<in># hm_items m" "key_eq ceq m it x"
  defines "e \<equiv> \<lparr>b_hash = h48 m it, b_dib = 1, b_item = it\<rparr>"
  shows "\<exists>bs. set_loop (hm_compare m) (hm_mask m) (hm_buckets m) e (ucast (h48 m it) AND hm_mask m) = Some (bs, Some x)
    \<and> rh_ok (unat (hm_nbuckets m)) bs \<and> (h48 m it, x) \<in># cont (hm_buckets m)
    \<and> cont bs = add_mset (h48 m it, it) (cont (hm_buckets m) - {#(h48 m it, x)#})"
proof -
  let ?n = "unat (hm_nbuckets m)" and ?bs = "hm_buckets m" and ?j = "ucast (h48 m it) AND hm_mask m :: size_t"
  have geom: "geom (hm_mask m) ?n" using shape_geom [OF assms(1)] .
  have rh: "rh_ok ?n ?bs" and cmp: "cmp_decides (hm_compare m) ceq"
    using assms(2) by (auto simp: hm_data_def)
  have len: "length ?bs = ?n" using rh by (rule rh_length)
  obtain z where z: "z < ?n" "\<not> occ (?bs ! z)" using inv_free [OF assms(1,2)] .
  obtain k where k: "k < ?n" "occ (?bs ! k)" "b_item (?bs ! k) = x"
    using assms(3) by (auto simp: items_bucket len)
  have hk: "b_hash (?bs ! k) = h48 m it" using data_entry [OF assms(2)] k assms(4) len by (simp add: key_eq_def)
  have ek: "ent (?bs ! k) = (h48 m it, x)" using hk k by (simp add: ent_def)
  have match: "(b_hash e = b_hash (?bs ! i) \<and> hm_compare m (Edata, b_item e) (Slot i, b_item (?bs ! i)) = 0) \<longleftrightarrow> i = k"
    if "i < ?n" "occ (?bs ! i)" for i
    using data_unique [OF assms(2), of i k "(h48 m it, it)"] that k hk assms(4) cmp len
    by (auto simp: same_def ent_def e_def cmp_decides_def key_eq_def)
  have "set_loop (hm_compare m) (hm_mask m) ?bs e ?j = Some (?bs[k := (?bs ! k)\<lparr>b_item := it\<rparr>], Some x)"
    using set_loop_replace [where e = e and t = 0 and r = "dibn (?bs ! k) - 1" and j = ?j and cmp = "hm_compare m",
        OF geom rh z k(1,2) _ match] k hk geom_home [OF geom]
    by (simp add: e_def dibn_def home_def occ_def unat_gt_0)
  moreover have "rh_ok ?n (?bs[k := (?bs ! k)\<lparr>b_item := it\<rparr>])"
    using rh k by (auto simp: rh_ok_def at_dist_def nth_list_update)
  moreover have "cont (?bs[k := (?bs ! k)\<lparr>b_item := it\<rparr>]) = add_mset (h48 m it, it) (cont ?bs - {#(h48 m it, x)#})"
    using k len ek hk by (simp add: cont_update) (simp add: ent_def)
  ultimately show ?thesis using ent_in_cont [of k ?bs] k len ek by auto
qed

lemma set_core:
  fixes it :: bytes
  assumes "hm_shape m p" "hm_data ceq m" "hm_count m < hm_growat m"
  defines "e \<equiv> \<lparr>b_hash = h48 m it, b_dib = 1, b_item = it\<rparr>"
  shows "\<exists>bs old. set_loop (hm_compare m) (hm_mask m) (hm_buckets m) e (ucast (h48 m it) AND hm_mask m) = Some (bs, old)
    \<and> (let m' = m\<lparr>hm_buckets := bs, hm_count := (if old = None then hm_count m + 1 else hm_count m)\<rparr>
       in hm_data ceq m' \<and> set_effect ceq m it m' old)"
proof (cases "\<exists>x \<in># hm_items m. key_eq ceq m it x")
  case False
  then obtain bs where bs: "set_loop (hm_compare m) (hm_mask m) (hm_buckets m) e (ucast (h48 m it) AND hm_mask m) = Some (bs, None)"
    "rh_ok (unat (hm_nbuckets m)) bs" "cont bs = add_mset (h48 m it, it) (cont (hm_buckets m))" "uniq ceq (cont bs)"
    using set_loop_insert [OF assms(1,2), of it] by (auto simp: e_def)
  have "unat (hm_count m + 1) = unat (hm_count m) + 1"
    using assms(3) by (rule unat_succ)
  then have "unat (hm_count m + 1) \<le> unat (hm_growat m)" using assms(3) by (simp add: word_less_nat_alt)
  with bs assms(2) False \<open>unat (hm_count m + 1) = _\<close>
  show ?thesis
    by (intro exI [of _ bs] exI [of _ None])
      (auto simp: hm_data_def h48_def set_effect_def hm_items_def word_le_nat_alt)
next
  case True
  then obtain x where x: "x \<in># hm_items m" "key_eq ceq m it x" by blast
  obtain bs where bs: "set_loop (hm_compare m) (hm_mask m) (hm_buckets m) e (ucast (h48 m it) AND hm_mask m) = Some (bs, Some x)"
    "rh_ok (unat (hm_nbuckets m)) bs" "(h48 m it, x) \<in># cont (hm_buckets m)"
    "cont bs = add_mset (h48 m it, it) (cont (hm_buckets m) - {#(h48 m it, x)#})"
    using set_loop_replaces [OF assms(1,2) x] by (auto simp: e_def)
  have eq: "equivp ceq" and u: "uniq ceq (cont (hm_buckets m))" using assms(2) by (auto simp: hm_data_def)
  have "\<not> same ceq (h48 m it, it) y" if "y \<in># cont (hm_buckets m) - {#(h48 m it, x)#}" for y
  proof
    assume "same ceq (h48 m it, it) y"
    moreover have "same ceq (h48 m it, it) (h48 m it, x)" using x(2) by (simp add: same_def key_eq_def)
    ultimately have "same ceq (h48 m it, x) y" using same_trans [OF eq] by blast
    moreover have "{#(h48 m it, x), y#} \<subseteq># cont (hm_buckets m)"
      using that bs(3) by (simp add: insert_subset_eq_iff)
    ultimately show False using u unfolding uniq_def by blast
  qed
  then have "uniq ceq (cont bs)"
    unfolding bs(4) by (intro uniq_add [OF eq] uniq_diff [OF u]) auto
  with bs assms(2) x show ?thesis
    by (intro exI [of _ bs] exI [of _ "Some x"])
      (auto simp: hm_data_def h48_def set_effect_def hm_items_def image_mset_Diff size_Suc_Diff1 dest: in_diffD)
qed

lemma set_grow:
  assumes "hm_shape m p" "hm_data ceq m" "hm_count m = hm_growat m \<Longrightarrow> p < 15"
  shows "\<exists>m1 p1. (if hm_count m = hm_growat m then resize (True, True) (m\<lparr>hm_oom := False\<rparr>) (hm_nbuckets m * 2)
                 else Inr (True, m\<lparr>hm_oom := False\<rparr>)) = Inr (True, m1)
    \<and> hm_shape m1 p1 \<and> hm_data ceq m1 \<and> hm_count m1 < hm_growat m1 \<and> hm_items m1 = hm_items m
    \<and> same_client m m1 \<and> \<not> hm_oom m1 \<and> p1 = (if hm_count m = hm_growat m then Suc p else p)"
proof (cases "hm_count m = hm_growat m")
  case False
  then have "hm_count m < hm_growat m" using assms(2) by (auto simp: hm_data_def order_less_le)
  with False assms(1,2) show ?thesis
    by (auto simp: hm_shape_def hm_data_def h48_def hm_items_def same_client_def intro!: exI [of _ p])
next
  case True
  let ?m = "m\<lparr>hm_oom := False\<rparr>"
  have p: "p < 15" "4 \<le> p" "unat (hm_nbuckets m) = 2 ^ p" using assms(1,3) True by (auto simp: hm_shape_def)
  have "(2 :: nat) ^ p < 2 ^ 15" using p(1) by (intro power_strict_increasing) auto
  then have c: "unat (hm_nbuckets m * 2) = 2 ^ Suc p" using p(3) by (simp add: unat_word_ariths mult.commute)
  have "hm_shape ?m p" "hm_data ceq ?m" using assms(1,2) by (auto simp: hm_shape_def hm_data_def h48_def)
  moreover have cnt: "unat (hm_count ?m) = 3 * 2 ^ (p - 2)" using True assms(1) by (simp add: hm_shape_def)
  moreover have lt: "(2 :: nat) ^ (p - 2) < 2 ^ (Suc p - 2)" using p by (intro power_strict_increasing) auto
  moreover have "unat (hm_cap m) \<le> unat (hm_nbuckets m * 2)"
    using assms(1) c p(3) power_increasing [of _ "Suc p" "2 :: nat"] by (auto simp: hm_shape_def)
  ultimately obtain m1 where m1: "resize (True, True) ?m (hm_nbuckets m * 2) = Inr (True, m1)" "hm_shape m1 (Suc p)"
      "hm_data ceq m1" "cont (hm_buckets m1) = cont (hm_buckets ?m)" "same_client ?m m1" "hm_count m1 = hm_count ?m"
      "hm_oom m1 = hm_oom ?m"
    using resize_spec [of ?m p ceq "hm_nbuckets m * 2" "Suc p"] c p by auto
  have "hm_count m1 < hm_growat m1" using m1 cnt lt by (simp add: word_less_nat_alt hm_shape_def)
  with m1 True show ?thesis
    by (intro exI [of _ m1] exI [of _ "Suc p"]) (simp add: hm_items_def same_client_def)
qed

text \<open>The table doubles exactly when the count has reached \<open>growat\<close>.\<close>

lemma hashmap_set_shape:
  assumes m: "hm_shape m p" "hm_data ceq m" and "hm_count m = hm_growat m \<Longrightarrow> p < 15"
  shows "\<exists>m' old. hashmap_set (True, True) m (Some it) = Inr (m', old)
    \<and> hm_shape m' (if hm_count m = hm_growat m then Suc p else p) \<and> hm_data ceq m' \<and> set_effect ceq m it m' old
    \<and> same_client m m' \<and> \<not> hm_oom m'"
proof -
  let ?p = "if hm_count m = hm_growat m then Suc p else p"
  obtain m1 where m1: "(if hm_count m = hm_growat m then resize (True, True) (m\<lparr>hm_oom := False\<rparr>) (hm_nbuckets m * 2)
                 else Inr (True, m\<lparr>hm_oom := False\<rparr>)) = Inr (True, m1)"
      "hm_shape m1 ?p" "hm_data ceq m1" "hm_count m1 < hm_growat m1" "hm_items m1 = hm_items m"
      "same_client m m1" "\<not> hm_oom m1"
    using set_grow [OF assms] by blast
  let ?e = "\<lparr>b_hash = h48 m1 it, b_dib = 1, b_item = it\<rparr>"
  let ?m' = "\<lambda>bs old. m1\<lparr>hm_buckets := bs, hm_count := (if old = None then hm_count m1 + 1 else hm_count m1)\<rparr>"
  obtain bs old where bs: "set_loop (hm_compare m1) (hm_mask m1) (hm_buckets m1) ?e (ucast (h48 m1 it) AND hm_mask m1) = Some (bs, old)"
      "hm_data ceq (?m' bs old)" "set_effect ceq m1 it (?m' bs old) old"
    using set_core [OF m1(2,3,4), of it] by (auto simp: Let_def)
  have "hashmap_set (True, True) m (Some it) = Inr (?m' bs old, old)"
    using m1(1) bs(1) by (cases old) (simp_all add: hashmap_set_def Let_def ucast_get_hash)
  moreover have "hm_shape (?m' bs old) ?p" using m1(2) by (simp add: hm_shape_def)
  moreover have "key_eq ceq m1 = key_eq ceq m"
    using same_client_h48 [OF m1(6)] by (simp add: fun_eq_iff key_eq_def)
  then have "set_effect ceq m it (?m' bs old) old"
    using bs(3) m1(5) by (cases old) (simp_all add: set_effect_def)
  moreover have "same_client m (?m' bs old)" "\<not> hm_oom (?m' bs old)"
    using m1(6,7) by (simp_all add: same_client_def)
  ultimately show ?thesis using bs(2) by blast
qed

lemma hashmap_set_spec:
  assumes "hm_inv ceq m" "hm_count m = hm_growat m \<Longrightarrow> unat (hm_nbuckets m) < 2 ^ 15"
  shows "\<exists>m' old. hashmap_set (True, True) m (Some it) = Inr (m', old) \<and> hm_inv ceq m' \<and> set_effect ceq m it m' old
    \<and> same_client m m' \<and> \<not> hm_oom m'"
proof -
  obtain p where m: "hm_shape m p" "hm_data ceq m" using assms(1) by (auto simp: hm_inv_def)
  have "p < 15" if "hm_count m = hm_growat m"
  proof -
    have "(2 :: nat) ^ p < 2 ^ 15" using assms(2) [OF that] m(1) by (simp only: hm_shape_def)
    then show ?thesis by (simp only: power_strict_increasing_iff)
  qed
  from hashmap_set_shape [OF m this] show ?thesis unfolding hm_inv_def by blast
qed

text \<open>When the table must grow and an allocation fails, the map only records it.\<close>

lemma hashmap_set_oom:
  assumes "unat (hm_nbuckets m) = 2 ^ p" "4 \<le> p" "p \<le> 29" "hm_count m = hm_growat m" "\<not> (fst ok \<and> snd ok)"
  shows "hashmap_set ok m (Some it) = Inr (m\<lparr>hm_oom := True\<rparr>, None)"
proof -
  have "(2 :: nat) ^ p \<le> 2 ^ 29" using assms(3) by (intro power_increasing) auto
  then have "unat (hm_nbuckets m * 2) = 2 ^ Suc p" using assms(1) by (simp add: unat_word_ariths mult.commute)
  then have "round_cap (hm_nbuckets m * 2) = Inr (hm_nbuckets m * 2)"
    using assms(2,3) by (intro round_cap_pow2 [of _ "Suc p"]) auto
  with assms(4,5) show ?thesis
    by (cases ok) (auto simp: hashmap_set_def resize_def hashmap_new_def hashmap_new_with_allocator_def)
qed

section \<open>Deletion\<close>

lemma shift_loop_mark:
  assumes "geom msk n" "unat i < n" "length bs = n"
  shows "shift_loop msk (bs[unat i := (bs ! unat i)\<lparr>b_dib := 0\<rparr>]) i = shift_loop msk bs i"
proof -
  have "unat ((i + 1) AND msk) \<noteq> unat i"
    using geom_step [OF assms(1,2)] nxt_neq [OF assms(2)] geom_bounds [OF assms(1)] by simp
  with assms(2,3) show ?thesis
    by (subst (1 2) shift_loop.simps) (simp add: Let_def)
qed

lemma delete_core:
  assumes "hm_shape m p" "hm_data ceq m" "unat i < unat (hm_nbuckets m)" "occ (bucket_at m i)"
  shows "\<exists>bs. shift_loop (hm_mask m) ((hm_buckets m)[unat i := (bucket_at m i)\<lparr>b_dib := 0\<rparr>]) i = Some bs
    \<and> (let m' = m\<lparr>hm_buckets := bs, hm_count := hm_count m - 1\<rparr>
       in hm_shape m' p \<and> hm_data ceq m' \<and> add_mset (b_item (bucket_at m i)) (hm_items m') = hm_items m)"
proof -
  let ?n = "unat (hm_nbuckets m)" and ?bs = "hm_buckets m" and ?b = "bucket_at m i"
  have geom: "geom (hm_mask m) ?n" using shape_geom [OF assms(1)] .
  have rh: "rh_ok ?n ?bs" using assms(2) by (simp add: hm_data_def)
  have len: "length ?bs = ?n" using rh by (rule rh_length)
  obtain z where z: "z < ?n" "\<not> occ (?bs ! z)" using inv_free [OF assms(1,2)] .
  obtain s where s: "(nxt ?n (unat i) + s) mod ?n = z" using cyclic_reach [OF _ z(1)] z(1) by (metis nxt_lt gr_zeroI not_less_zero)
  then have s': "(unat i + Suc s) mod ?n = z" by (simp only: cyclic_shift)
  obtain bs where bs: "shift_loop (hm_mask m) ?bs i = Some bs" "rh_ok ?n bs" "add_mset (ent ?b) (cont bs) = cont ?bs"
    using shift_loop_correct [OF geom rh assms(3) _ z s'] assms(4) by (auto simp: bucket_at_def)
  have "size (cont ?bs) = size (cont bs) + 1" using bs(3) by (metis size_add_mset Suc_eq_plus1)
  then have cnt: "unat (hm_count m) = size (cont bs) + 1" using assms(2) by (simp add: hm_data_def)
  then have "hm_count m \<noteq> 0" by auto
  then have cnt': "unat (hm_count m - 1) = size (cont bs)" using cnt by (simp add: unat_minus_one)
  have sub: "cont bs \<subseteq># cont ?bs" using bs(3) by (metis add_mset_add_single mset_subset_eq_add_left)
  have "hm_data ceq (m\<lparr>hm_buckets := bs, hm_count := hm_count m - 1\<rparr>)"
    using assms(2) bs(2) cnt' cnt uniq_diff [OF _ sub] mset_subset_eqD [OF sub]
    by (auto simp: hm_data_def h48_def word_le_nat_alt)
  moreover have "add_mset (b_item ?b) (image_mset snd (cont bs)) = image_mset snd (cont ?bs)"
    using arg_cong [OF bs(3), of "image_mset snd"] by (simp add: ent_def)
  ultimately show ?thesis
    using assms(1) bs(1) shift_loop_mark [OF geom assms(3) len]
    by (auto simp: Let_def hm_shape_def hm_items_def bucket_at_def)
qed

definition delete_effect :: "(bytes \<Rightarrow> bytes \<Rightarrow> bool) \<Rightarrow> hashmap \<Rightarrow> bytes \<Rightarrow> hashmap \<Rightarrow> bytes option \<Rightarrow> bool" where
  "delete_effect ceq m k m' old \<longleftrightarrow>
     (case old of
        None \<Rightarrow> (\<forall>x \<in># hm_items m. \<not> key_eq ceq m k x) \<and> hm_items m' = hm_items m
      | Some x \<Rightarrow> x \<in># hm_items m \<and> key_eq ceq m k x \<and> hm_items m' = hm_items m - {#x#})"

text \<open>The shrink at the end of \<open>hashmap_delete\<close> keeps the items whether or not it gets its memory.\<close>

lemma delete_shrink:
  assumes "hm_shape m p" "hm_data ceq m" "hm_cap m < hm_nbuckets m" "hm_count m \<le> hm_shrinkat m"
  shows "\<exists>b m' p'. resize ok m (hm_nbuckets m div 2) = Inr (b, m') \<and> hm_shape m' p' \<and> hm_data ceq m'
    \<and> hm_items m' = hm_items m \<and> same_client m m' \<and> hm_oom m' = hm_oom m"
proof -
  obtain q where q: "4 \<le> q" "q \<le> p" "unat (hm_cap m) = 2 ^ q" and p: "p \<le> 15" "unat (hm_nbuckets m) = 2 ^ p"
    using assms(1) by (auto simp: hm_shape_def)
  have "(2 :: nat) ^ q < 2 ^ p" using assms(3) q p by (simp add: word_less_nat_alt)
  then have "q < p" by simp
  then obtain k where k: "p = Suc k" "q \<le> k" by (cases p) auto
  have c: "unat (hm_nbuckets m div 2) = 2 ^ k" using p k by (simp add: unat_div)
  show ?thesis
  proof (cases "ok = (True, True)")
    case False
    moreover have "round_cap (hm_nbuckets m div 2) = Inr (hm_nbuckets m div 2)"
      using c k p q by (intro round_cap_pow2 [of _ k]) auto
    ultimately have "resize ok m (hm_nbuckets m div 2) = Inr (False, m)"
      by (cases ok) (auto simp: resize_def hashmap_new_def hashmap_new_with_allocator_def)
    with assms show ?thesis by (intro exI [of _ False] exI [of _ m]) (auto simp: same_client_def)
  next
    case True
    have "unat (hm_count m) \<le> 2 ^ (p - 3)"
      using assms(1,4) by (auto simp: hm_shape_def word_le_nat_alt)
    also have "\<dots> \<le> 3 * 2 ^ (k - 2)" using k by simp
    finally have "unat (hm_count m) \<le> 3 * 2 ^ (k - 2)" .
    with resize_spec [OF assms(1,2) c] k p q True show ?thesis
      by (auto simp: c hm_items_def)
  qed
qed

text \<open>Only the shrinking changes the number of buckets.\<close>

lemma hashmap_delete_shape:
  assumes "hm_shape m p" "hm_data ceq m"
  shows "\<exists>m' old p'. hashmap_delete ok m (Some k) = Inr (m', old) \<and> hm_shape m' p' \<and> hm_data ceq m'
    \<and> delete_effect ceq m k m' old \<and> same_client m m' \<and> \<not> hm_oom m'
    \<and> (old = None \<or> \<not> (hm_cap m < hm_nbuckets m \<and> hm_count m - 1 \<le> hm_shrinkat m) \<longrightarrow> p' = p)"
proof -
  let ?m = "m\<lparr>hm_oom := False\<rparr>"
  have m: "hm_shape ?m p" "hm_data ceq ?m" using assms by (auto simp: hm_shape_def hm_data_def h48_def)
  have eqs: "hm_items ?m = hm_items m" "key_eq ceq ?m = key_eq ceq m"
    by (auto simp: hm_items_def key_eq_def h48_def fun_eq_iff)
  obtain r where r: "get_loop ?m k (get_hash ?m k) (get_hash ?m k AND hm_mask ?m) = Some r"
    "case r of None \<Rightarrow> \<forall>x \<in># hm_items ?m. \<not> key_eq ceq ?m k x
     | Some i \<Rightarrow> unat i < unat (hm_nbuckets ?m) \<and> occ (bucket_at ?m i) \<and> key_eq ceq ?m k (b_item (bucket_at ?m i))"
    using get_loop_spec [OF m] by blast
  show ?thesis
  proof (cases r)
    case None
    with r eqs m show ?thesis
      by (intro exI [of _ ?m] exI [of _ None] exI [of _ p]) (auto simp: hashmap_delete_def Let_def delete_effect_def same_client_def)
  next
    case (Some i)
    let ?x = "b_item (bucket_at ?m i)" and ?m2 = "\<lambda>bs. ?m\<lparr>hm_buckets := bs, hm_count := hm_count ?m - 1\<rparr>"
    have i: "unat i < unat (hm_nbuckets ?m)" "occ (bucket_at ?m i)" "key_eq ceq ?m k ?x" using r(2) Some by auto
    obtain bs where bs: "shift_loop (hm_mask ?m) ((hm_buckets ?m)[unat i := (bucket_at ?m i)\<lparr>b_dib := 0\<rparr>]) i = Some bs"
        "hm_shape (?m2 bs) p" "hm_data ceq (?m2 bs)" "add_mset ?x (hm_items (?m2 bs)) = hm_items ?m"
      using delete_core [OF m i(1,2)] by (auto simp: Let_def)
    have x: "?x \<in># hm_items m" "hm_items (?m2 bs) = hm_items m - {#?x#}"
      using bs(4) eqs(1) by (metis union_single_eq_member, metis add_mset_remove_trivial)
    show ?thesis
    proof (cases "hm_cap m < hm_nbuckets m \<and> hm_count m - 1 \<le> hm_shrinkat m")
      case False
      with r(1) Some bs x i(3) eqs(2) show ?thesis
        by (intro exI [of _ "?m2 bs"] exI [of _ "Some ?x"] exI [of _ p])
          (auto simp: hashmap_delete_def Let_def delete_effect_def same_client_def)
    next
      case True
      then obtain b m3 p' where m3: "resize ok (?m2 bs) (hm_nbuckets m div 2) = Inr (b, m3)" "hm_shape m3 p'"
          "hm_data ceq m3" "hm_items m3 = hm_items (?m2 bs)" "same_client (?m2 bs) m3" "hm_oom m3 = hm_oom (?m2 bs)"
        using delete_shrink [OF bs(2,3), of ok] by auto
      with r(1) Some bs(1) x i(3) eqs(2) True show ?thesis
        by (intro exI [of _ m3] exI [of _ "Some ?x"] exI [of _ p'])
          (auto simp: hashmap_delete_def Let_def delete_effect_def same_client_def)
    qed
  qed
qed

lemma hashmap_delete_spec:
  assumes "hm_inv ceq m"
  shows "\<exists>m' old. hashmap_delete ok m (Some k) = Inr (m', old) \<and> hm_inv ceq m' \<and> delete_effect ceq m k m' old
    \<and> same_client m m' \<and> \<not> hm_oom m'"
  using assms hashmap_delete_shape [of m _ ceq ok k] unfolding hm_inv_def by blast

section \<open>Clearing, scanning, iterating\<close>

lemma hashmap_clear_spec:
  assumes "hm_inv ceq m"
  shows "\<exists>m'. hashmap_clear ok m update_cap = Inr (m', free_elements m) \<and> hm_inv ceq m' \<and> hm_items m' = {#}
    \<and> hm_nbuckets m' = (if update_cap then hm_nbuckets m else hm_cap m)
    \<and> hm_cap m' = (if update_cap then hm_nbuckets m else hm_cap m)"
proof -
  obtain p q where p: "4 \<le> p" "p \<le> 15" "unat (hm_nbuckets m) = 2 ^ p" "4 \<le> q" "q \<le> p" "unat (hm_cap m) = 2 ^ q"
    using assms by (auto simp: hm_inv_def hm_shape_def)
  let ?n = "if update_cap then hm_nbuckets m else hm_cap m" and ?k = "if update_cap then p else q"
  have len: "length (hm_buckets m) = 2 ^ p" using assms p(3) by (simp add: hm_inv_def hm_data_def rh_ok_def)
  have k: "unat ?n = 2 ^ ?k" "4 \<le> ?k" "?k \<le> 15" using p by auto
  obtain s where s: "scaled (1 / 10) ?n = Inr s" "unat s \<le> 2 ^ (?k - 3)" using shrinkat_bound [OF k(1)] k by auto
  have g: "scaled (3 / 4) ?n = Inr (of_nat (3 * 2 ^ (?k - 2)))" using growat_exact [OF k(1)] k by simp
  let ?m' = "m\<lparr>hm_count := 0, hm_cap := ?n, hm_nbuckets := ?n, hm_mask := ?n - 1,
    hm_growat := of_nat (3 * 2 ^ (?k - 2)), hm_shrinkat := s,
    hm_buckets := replicate (unat ?n) (zero_bucket (hm_elsize m))\<rparr>"
  have "(2 :: nat) ^ q \<le> 2 ^ p" using p(5) by (intro power_increasing) auto
  then have "hashmap_clear ok m update_cap = Inr (?m', free_elements m)"
    using s(1) g len p by (cases update_cap) (auto simp: hashmap_clear_def Let_def free_elements_def)
  moreover have "hm_shape ?m' ?k" unfolding hm_shape_def using k s(2) unat_growat [OF k(3)] by auto
  moreover have "hm_data ceq ?m'" using assms rh_zero by (simp add: hm_inv_def hm_data_def)
  ultimately show ?thesis unfolding hm_inv_def by (intro exI [of _ ?m']) (auto simp: hm_items_def)
qed

lemma items_list: "hm_items m = mset (map b_item (filter (\<lambda>b. b_dib b \<noteq> 0) (hm_buckets m)))"
proof -
  have "occ = (\<lambda>b. b_dib b \<noteq> 0)" by (rule ext) (simp add: occ_def)
  then show ?thesis
    by (simp add: hm_items_def cont_def image_mset.compositionality comp_def ent_def)
qed

text \<open>A scan whose callback never stops visits the items in bucket order.\<close>

lemma scan_all:
  assumes "\<And>x s. fst (iter x s)"
  shows "scan_buckets iter bs s =
    (True, fold (\<lambda>x s. snd (iter x s)) (map b_item (filter (\<lambda>b. b_dib b \<noteq> 0) bs)) s)"
proof (induction bs arbitrary: s)
  case (Cons b bs)
  then show ?case using assms [of "b_item b" s] by (cases "iter (b_item b) s") auto
qed simp

text \<open>Calling \<open>hashmap_iter\<close> until it returns false yields the remaining items in bucket order.\<close>

function iter_all :: "hashmap \<Rightarrow> nat \<Rightarrow> bytes list" where
  "iter_all m i = (case hashmap_iter m i of (j, Some x) \<Rightarrow> if i < j then x # iter_all m j else [x] | (_, None) \<Rightarrow> [])"
  by pat_completeness auto

lemma hashmap_iter_bounds: "hashmap_iter m i = (j, Some x) \<Longrightarrow> i < j \<and> j \<le> unat (hm_nbuckets m)"
proof (induction m i rule: hashmap_iter.induct)
  case (1 m i)
  show ?case
  proof (cases "i \<ge> unat (hm_nbuckets m) \<or> b_dib (hm_buckets m ! i) \<noteq> 0")
    case True
    with "1.prems" show ?thesis by (subst (asm) hashmap_iter.simps) (auto simp: Let_def split: if_splits)
  next
    case False
    with "1.prems" have "hashmap_iter m (Suc i) = (j, Some x)"
      by (subst (asm) hashmap_iter.simps) (simp add: Let_def)
    with "1.IH" False show ?thesis by fastforce
  qed
qed

termination iter_all
  by (relation "measure (\<lambda>(m, i). unat (hm_nbuckets m) - i)") (auto dest!: sym [of "(_, _)"] hashmap_iter_bounds)

declare iter_all.simps [simp del]

lemma iter_all_items:
  assumes "length (hm_buckets m) = unat (hm_nbuckets m)"
  shows "iter_all m i = map b_item (filter (\<lambda>b. b_dib b \<noteq> 0) (drop i (hm_buckets m)))"
proof (induction "unat (hm_nbuckets m) - i" arbitrary: i)
  case 0
  then show ?case using assms by (subst iter_all.simps, subst hashmap_iter.simps) simp
next
  case (Suc d)
  then have i: "i < length (hm_buckets m)" using assms by simp
  then have drop: "drop i (hm_buckets m) = hm_buckets m ! i # drop (Suc i) (hm_buckets m)"
    by (rule Cons_nth_drop_Suc [symmetric])
  have IH: "iter_all m (Suc i) = map b_item (filter (\<lambda>b. b_dib b \<noteq> 0) (drop (Suc i) (hm_buckets m)))"
    using Suc by (intro Suc.hyps(1)) simp
  show ?case
  proof (cases "b_dib (hm_buckets m ! i) = 0")
    case True
    then have "hashmap_iter m i = hashmap_iter m (Suc i)"
      using i assms by (subst hashmap_iter.simps) (simp add: Let_def)
    then have "iter_all m i = iter_all m (Suc i)"
      using hashmap_iter_bounds [of m "Suc i"] iter_all.simps [of m i] iter_all.simps [of m "Suc i"]
      by (cases "hashmap_iter m (Suc i)"; cases "snd (hashmap_iter m (Suc i))") auto
    with IH drop True show ?thesis by simp
  next
    case False
    then have "hashmap_iter m i = (Suc i, Some (b_item (hm_buckets m ! i)))"
      using i assms by (subst hashmap_iter.simps) (simp add: Let_def)
    with IH drop False show ?thesis by (subst iter_all.simps) simp
  qed
qed

end
