(* ===== verification/Hashmap_Map.thy ===== *)
theory Hashmap_Map
  imports Hashmap_Correct
begin

text \<open>
  The hash map as a finite map from keys to items: an interface of get, set and delete with the
  laws its clients rely on, what follows from the laws alone, and its interpretation on the
  operations of \<open>hashmap.c\<close>.
\<close>

unbundle bit_operations_syntax

lemma find_snoc: "find P (xs @ [x]) = (case find P xs of Some y \<Rightarrow> Some y | None \<Rightarrow> if P x then Some x else None)"
  by (induction xs) auto

section \<open>The interface\<close>

text \<open>
  A store of items in which \<open>lookup m k\<close> is the item with the key of \<open>k\<close>, if any; \<open>keq m\<close> is
  equality of keys, \<open>fill m\<close> the number of items and \<open>limit\<close> a number of items below which an
  insertion cannot fail.
\<close>

locale keyed_store =
  fixes inv :: "'m \<Rightarrow> bool"
    and keq :: "'m \<Rightarrow> 'k \<Rightarrow> 'k \<Rightarrow> bool"
    and lookup :: "'m \<Rightarrow> 'k \<Rightarrow> 'k option"
    and fill :: "'m \<Rightarrow> nat"
    and limit :: nat
    and get :: "'m \<Rightarrow> 'k \<Rightarrow> 'k option res"
    and put :: "'m \<Rightarrow> 'k \<Rightarrow> ('m \<times> 'k option) res"
    and del :: "'m \<Rightarrow> 'k \<Rightarrow> ('m \<times> 'k option) res"
  assumes keq_equivp: "inv m \<Longrightarrow> equivp (keq m)"
    and lookup_cong: "inv m \<Longrightarrow> keq m x y \<Longrightarrow> lookup m x = lookup m y"
    and get_law: "inv m \<Longrightarrow> get m k = Inr (lookup m k)"
    and put_law: "inv m \<Longrightarrow> fill m < limit \<Longrightarrow> \<exists>m'. put m x = Inr (m', lookup m x) \<and> inv m' \<and> keq m' = keq m
      \<and> lookup m' = (\<lambda>k. if keq m x k then Some x else lookup m k)
      \<and> fill m' = (if lookup m x = None then Suc (fill m) else fill m)"
    and del_law: "inv m \<Longrightarrow> \<exists>m'. del m x = Inr (m', lookup m x) \<and> inv m' \<and> keq m' = keq m
      \<and> lookup m' = (\<lambda>k. if keq m x k then None else lookup m k)
      \<and> fill m' = (if lookup m x = None then fill m else fill m - 1)"
begin

text \<open>Inserting a list of items one by one.\<close>

fun puts :: "'m \<Rightarrow> 'k list \<Rightarrow> 'm res" where
  "puts m [] = Inr m"
| "puts m (x # xs) = rbind (put m x) (\<lambda>(m', _). puts m' xs)"

lemma keq_refl: "inv m \<Longrightarrow> keq m x x"
  using keq_equivp by (simp add: equivp_reflp)

lemma get_put:
  assumes "inv m" "fill m < limit"
  shows "\<exists>m' old. put m x = Inr (m', old) \<and> get m' k = Inr (if keq m x k then Some x else lookup m k)"
  using put_law [OF assms, of x] get_law by auto

lemma del_put:
  assumes "inv m" "fill m < limit" "lookup m x = None"
  shows "\<exists>m1 m2. put m x = Inr (m1, None) \<and> del m1 x = Inr (m2, Some x) \<and> inv m2 \<and> lookup m2 = lookup m
    \<and> fill m2 = fill m"
proof -
  obtain m1 where m1: "put m x = Inr (m1, None)" "inv m1" "keq m1 = keq m" "fill m1 = Suc (fill m)"
      "lookup m1 = (\<lambda>k. if keq m x k then Some x else lookup m k)"
    using put_law [OF assms(1,2), of x] assms(3) by auto
  obtain m2 where m2: "del m1 x = Inr (m2, Some x)" "inv m2" "fill m2 = fill m"
      "lookup m2 = (\<lambda>k. if keq m x k then None else lookup m1 k)"
    using del_law [OF m1(2), of x] m1 keq_refl [OF assms(1), of x] by auto
  have "lookup m k = None" if "keq m x k" for k
    using lookup_cong [OF assms(1) that] assms(3) by simp
  then have "lookup m2 = lookup m" using m1 m2 by (auto simp: fun_eq_iff)
  with m1 m2 show ?thesis by auto
qed

lemma puts_law:
  assumes "inv m" "fill m + length xs \<le> limit"
  shows "\<exists>m'. puts m xs = Inr m' \<and> inv m' \<and> keq m' = keq m \<and> fill m' \<le> fill m + length xs
    \<and> lookup m' = (\<lambda>k. case find (\<lambda>x. keq m x k) (rev xs) of Some x \<Rightarrow> Some x | None \<Rightarrow> lookup m k)"
  using assms
proof (induction xs arbitrary: m)
  case (Cons x xs)
  obtain m1 where m1: "put m x = Inr (m1, lookup m x)" "inv m1" "keq m1 = keq m"
      "lookup m1 = (\<lambda>k. if keq m x k then Some x else lookup m k)" "fill m1 \<le> Suc (fill m)"
    using put_law [of m x] Cons.prems by auto
  obtain m2 where m2: "puts m1 xs = Inr m2" "inv m2" "keq m2 = keq m1" "fill m2 \<le> fill m1 + length xs"
      "lookup m2 = (\<lambda>k. case find (\<lambda>x. keq m1 x k) (rev xs) of Some x \<Rightarrow> Some x | None \<Rightarrow> lookup m1 k)"
    using Cons.IH [OF m1(2)] m1(5) Cons.prems(2) by auto
  have "lookup m2 = (\<lambda>k. case find (\<lambda>x. keq m x k) (rev (x # xs)) of Some x \<Rightarrow> Some x | None \<Rightarrow> lookup m k)"
    using m1(3,4) m2(5) by (simp add: fun_eq_iff find_snoc split: option.splits)
  with m1 m2 show ?case by auto
qed simp

end

section \<open>The map of a struct hashmap\<close>

definition item_list :: "hashmap \<Rightarrow> bytes list" where
  "item_list m = map b_item (filter (\<lambda>b. b_dib b \<noteq> 0) (hm_buckets m))"

definition hm_lookup :: "(bytes \<Rightarrow> bytes \<Rightarrow> bool) \<Rightarrow> hashmap \<Rightarrow> bytes \<Rightarrow> bytes option" where
  "hm_lookup ceq m k = find (key_eq ceq m k) (item_list m)"

lemma mset_item_list [simp]: "mset (item_list m) = hm_items m"
  by (simp add: items_list item_list_def)

lemma set_item_list [simp]: "set (item_list m) = set_mset (hm_items m)"
  by (simp flip: mset_item_list)

lemma key_equivp: "equivp ceq \<Longrightarrow> equivp (key_eq ceq m)"
  by (auto simp: key_eq_def intro!: equivpI reflpI sympI transpI elim: equivp_reflp equivp_symp equivp_transp)

lemma inv_equivp: "hm_inv ceq m \<Longrightarrow> equivp (key_eq ceq m)"
  by (simp add: hm_inv_def hm_data_def key_equivp)

lemma items_unique:
  assumes "hm_inv ceq m" "x \<in># hm_items m" "y \<in># hm_items m" "key_eq ceq m k x" "key_eq ceq m k y"
  shows "x = y"
proof -
  have data: "hm_data ceq m" using assms(1) by (simp add: hm_inv_def)
  obtain i j where i: "i < length (hm_buckets m)" "occ (hm_buckets m ! i)" "b_item (hm_buckets m ! i) = x"
    and j: "j < length (hm_buckets m)" "occ (hm_buckets m ! j)" "b_item (hm_buckets m ! j) = y"
    using assms(2,3) by (auto simp: items_bucket)
  have "same ceq (h48 m k, k) (ent (hm_buckets m ! i))" "same ceq (h48 m k, k) (ent (hm_buckets m ! j))"
    using data_entry [OF data] i j assms(4,5) by (simp_all add: same_def ent_def key_eq_def)
  then have "i = j" using data_unique [OF data i(1) j(1) i(2) j(2)] by blast
  with i j show ?thesis by simp
qed

lemma items_apart:
  assumes "hm_inv ceq m" "hm_items m = add_mset z M" "y \<in># M"
  shows "\<not> key_eq ceq m z y"
proof -
  obtain e C where e: "cont (hm_buckets m) = add_mset e C" "snd e = z" "image_mset snd C = M"
    using msed_map_invR [OF assms(2) [unfolded hm_items_def]] by blast
  obtain f where f: "f \<in># C" "snd f = y" using assms(3) unfolding e(3) [symmetric] by auto
  have "{#e, f#} \<subseteq># cont (hm_buckets m)" using e(1) f(1) by simp
  then have "\<not> same ceq e f" using assms(1) unfolding hm_inv_def hm_data_def uniq_def by blast
  moreover have "fst e = h48 m z" "fst f = h48 m y"
    using assms(1) e f by (auto simp: hm_inv_def hm_data_def)
  ultimately show ?thesis using e f by (simp add: same_def key_eq_def)
qed

lemma hm_lookup_Some:
  assumes "hm_inv ceq m"
  shows "hm_lookup ceq m k = Some x \<longleftrightarrow> x \<in># hm_items m \<and> key_eq ceq m k x"
proof
  assume "hm_lookup ceq m k = Some x"
  then show "x \<in># hm_items m \<and> key_eq ceq m k x"
    by (auto simp: hm_lookup_def find_Some_iff) (metis nth_mem set_item_list)
next
  assume x: "x \<in># hm_items m \<and> key_eq ceq m k x"
  then obtain y where y: "hm_lookup ceq m k = Some y"
    by (metis find_None_iff hm_lookup_def not_Some_eq set_item_list)
  then have "y \<in># hm_items m \<and> key_eq ceq m k y"
    by (auto simp: hm_lookup_def find_Some_iff) (metis nth_mem set_item_list)
  with x y items_unique [OF assms] show "hm_lookup ceq m k = Some x" by auto
qed

lemma hm_lookup_None: "hm_lookup ceq m k = None \<longleftrightarrow> (\<forall>x \<in># hm_items m. \<not> key_eq ceq m k x)"
  by (auto simp: hm_lookup_def find_None_iff)

lemma hm_lookup_eqI:
  assumes "hm_inv ceq m" "\<And>x. r = Some x \<longleftrightarrow> x \<in># hm_items m \<and> key_eq ceq m k x"
  shows "hm_lookup ceq m k = r"
  using hm_lookup_Some [OF assms(1)] assms(2) by (metis not_Some_eq)

lemma same_client_key: "same_client m m' \<Longrightarrow> key_eq ceq m' = key_eq ceq m"
  by (simp add: fun_eq_iff key_eq_def same_client_h48)

text \<open>A map with fewer items than this can always take one more.\<close>

definition hm_limit :: nat where
  "hm_limit = 24576"

lemma full_limit:
  assumes "hm_inv ceq m" "size (hm_items m) < hm_limit" "hm_count m = hm_growat m"
  shows "unat (hm_nbuckets m) < 2 ^ 15"
proof -
  obtain p where p: "hm_shape m p" "hm_data ceq m" using assms(1) by (auto simp: hm_inv_def)
  then have "3 * (2 :: nat) ^ (p - 2) < 3 * 2 ^ 13"
    using assms(2,3) by (simp add: hm_shape_def hm_data_def hm_items_def hm_limit_def)
  then have "(2 :: nat) ^ (p - 2) < 2 ^ 13" by simp
  then have "p - 2 < 13" by (simp only: power_strict_increasing_iff)
  then have "(2 :: nat) ^ p < 2 ^ 15" by (intro power_strict_increasing) auto
  with p(1) show ?thesis by (simp only: hm_shape_def)
qed

lemma set_lookup:
  assumes "hm_inv ceq m" "size (hm_items m) < hm_limit"
  shows "\<exists>m'. hashmap_set (True, True) m (Some x) = Inr (m', hm_lookup ceq m x) \<and> hm_inv ceq m'
    \<and> key_eq ceq m' = key_eq ceq m
    \<and> hm_lookup ceq m' = (\<lambda>k. if key_eq ceq m x k then Some x else hm_lookup ceq m k)
    \<and> size (hm_items m') = (if hm_lookup ceq m x = None then Suc (size (hm_items m)) else size (hm_items m))"
proof -
  obtain m' old where m': "hashmap_set (True, True) m (Some x) = Inr (m', old)" "hm_inv ceq m'"
      "set_effect ceq m x m' old" "same_client m m'"
    using hashmap_set_spec [OF assms(1)] full_limit [OF assms] by blast
  have old: "hm_lookup ceq m x = old"
    using m'(3) hm_lookup_Some [OF assms(1)] by (cases old) (auto simp: set_effect_def hm_lookup_None)
  have eq: "equivp (key_eq ceq m)" by (rule inv_equivp [OF assms(1)])
  have rest: "y \<in># hm_items m' \<longleftrightarrow> y = x \<or> y \<in># hm_items m \<and> \<not> key_eq ceq m x y" for y
  proof (cases old)
    case (Some z)
    then obtain M where M: "hm_items m = add_mset z M" "hm_items m' = add_mset x M" "key_eq ceq m x z"
      using m'(3) by (auto simp: set_effect_def dest: multi_member_split)
    have "\<not> key_eq ceq m x y" if "y \<in># M"
      using items_apart [OF assms(1) M(1) that] M(3) equivp_transp [OF eq] equivp_symp [OF eq] by blast
    with M show ?thesis by auto
  qed (use m'(3) in \<open>auto simp: set_effect_def\<close>)
  have "hm_lookup ceq m' = (\<lambda>k. if key_eq ceq m x k then Some x else hm_lookup ceq m k)"
  proof (intro ext hm_lookup_eqI [OF m'(2)])
    fix k y
    show "(if key_eq ceq m x k then Some x else hm_lookup ceq m k) = Some y \<longleftrightarrow>
        y \<in># hm_items m' \<and> key_eq ceq m' k y"
    proof (cases "key_eq ceq m x k")
      case True
      then have "key_eq ceq m k x" by (rule equivp_symp [OF eq])
      moreover have "key_eq ceq m x y" if "key_eq ceq m k y" using True that by (rule equivp_transp [OF eq])
      ultimately show ?thesis using True unfolding rest same_client_key [OF m'(4)] by auto
    next
      case False
      then have "\<not> key_eq ceq m k x" using equivp_symp [OF eq] by blast
      moreover have "\<not> key_eq ceq m x y" if "key_eq ceq m k y"
        using False equivp_transp [OF eq] equivp_symp [OF eq that] by blast
      ultimately show ?thesis
        using False hm_lookup_Some [OF assms(1), of k y] unfolding rest same_client_key [OF m'(4)] by auto
    qed
  qed
  moreover have "size (hm_items m') = (if old = None then Suc (size (hm_items m)) else size (hm_items m))"
    using m'(3) by (cases old) (auto simp: set_effect_def size_Suc_Diff1)
  ultimately show ?thesis using m' old same_client_key [OF m'(4)] by auto
qed

lemma delete_lookup:
  assumes "hm_inv ceq m"
  shows "\<exists>m'. hashmap_delete ok m (Some x) = Inr (m', hm_lookup ceq m x) \<and> hm_inv ceq m'
    \<and> key_eq ceq m' = key_eq ceq m
    \<and> hm_lookup ceq m' = (\<lambda>k. if key_eq ceq m x k then None else hm_lookup ceq m k)
    \<and> size (hm_items m') = (if hm_lookup ceq m x = None then size (hm_items m) else size (hm_items m) - 1)"
proof -
  obtain m' old where m': "hashmap_delete ok m (Some x) = Inr (m', old)" "hm_inv ceq m'"
      "delete_effect ceq m x m' old" "same_client m m'"
    using hashmap_delete_spec [OF assms] by blast
  have old: "hm_lookup ceq m x = old"
    using m'(3) hm_lookup_Some [OF assms] by (cases old) (auto simp: delete_effect_def hm_lookup_None)
  have eq: "equivp (key_eq ceq m)" by (rule inv_equivp [OF assms])
  have rest: "y \<in># hm_items m' \<longleftrightarrow> y \<in># hm_items m \<and> \<not> key_eq ceq m x y" for y
  proof (cases old)
    case (Some z)
    then obtain M where M: "hm_items m = add_mset z M" "hm_items m' = M" "key_eq ceq m x z"
      using m'(3) by (auto simp: delete_effect_def dest: multi_member_split)
    have "\<not> key_eq ceq m x y" if "y \<in># M"
      using items_apart [OF assms M(1) that] M(3) equivp_transp [OF eq] equivp_symp [OF eq] by blast
    with M show ?thesis by auto
  qed (use m'(3) in \<open>auto simp: delete_effect_def\<close>)
  have "hm_lookup ceq m' k = (if key_eq ceq m x k then None else hm_lookup ceq m k)" for k
  proof (intro hm_lookup_eqI [OF m'(2)])
    fix y
    have "key_eq ceq m x k = key_eq ceq m x y" if "key_eq ceq m k y"
      using equivp_transp [OF eq] equivp_symp [OF eq that] that by blast
    then show "(if key_eq ceq m x k then None else hm_lookup ceq m k) = Some y \<longleftrightarrow>
        y \<in># hm_items m' \<and> key_eq ceq m' k y"
      using hm_lookup_Some [OF assms, of k y] unfolding rest same_client_key [OF m'(4)] by auto
  qed
  moreover have "size (hm_items m') = (if old = None then size (hm_items m) else size (hm_items m) - 1)"
    using m'(3) by (cases old) (auto simp: delete_effect_def size_Diff_singleton)
  ultimately show ?thesis using m' old same_client_key [OF m'(4)] by auto
qed

lemma get_lookup: "hm_inv ceq m \<Longrightarrow> hashmap_get m (Some k) = Inr (hm_lookup ceq m k)"
  using hashmap_get_spec [of ceq m k] hm_lookup_Some [of ceq m k] hm_lookup_None [of ceq m k]
  by (metis (no_types, lifting) option.case_eq_if option.exhaust_sel)

lemma lookup_key_cong:
  assumes "hm_inv ceq m" "key_eq ceq m x y"
  shows "hm_lookup ceq m x = hm_lookup ceq m y"
proof -
  have "key_eq ceq m x = key_eq ceq m y"
    using inv_equivp [OF assms(1)] assms(2) by (simp add: equivp_def)
  then show ?thesis by (simp add: hm_lookup_def)
qed

interpretation hm: keyed_store "hm_inv ceq" "key_eq ceq" "hm_lookup ceq" "\<lambda>m. size (hm_items m)" hm_limit
  "\<lambda>m k. hashmap_get m (Some k)" "\<lambda>m x. hashmap_set (True, True) m (Some x)" "\<lambda>m k. hashmap_delete ok m (Some k)"
  for ceq ok
  by unfold_locales (simp_all add: inv_equivp lookup_key_cong get_lookup set_lookup delete_lookup)

section \<open>A fresh map\<close>

lemma hashmap_new_inv:
  assumes "cmp_decides cmp ceq" "equivp ceq" "unat cap \<le> 2 ^ 15"
  shows "\<exists>m. hashmap_new (True, True) elsize cap s0 s1 h cmp ef = Inr (Some m) \<and> hm_inv ceq m \<and> hm_items m = {#}
    \<and> hm_hash m = h \<and> hm_seed0 m = s0 \<and> hm_seed1 m = s1 \<and> hm_compare m = cmp \<and> hm_elsize m = elsize \<and> unat cap \<le> unat (hm_nbuckets m)"
proof -
  obtain p where p: "4 \<le> p" "p \<le> 15" "round_cap cap = Inr (of_nat (2 ^ p))" "unat cap \<le> 2 ^ p"
  proof (cases "unat cap < 16")
    case True
    then show thesis by (intro that [of 4]) (auto simp: round_cap_def)
  next
    case False
    then obtain p where p: "4 \<le> p" "p \<le> 30" "grow_cap (2 ^ 4) cap = Inr (of_nat (2 ^ p))" "unat cap \<le> 2 ^ p"
        "p = 4 \<or> 2 ^ (p - 1) < unat cap"
      using grow_cap_general [of 4 cap] assms(3) by auto
    have "p \<le> 15"
    proof (rule ccontr)
      assume "\<not> p \<le> 15"
      then have "(2 :: nat) ^ 15 \<le> 2 ^ (p - 1)" by (intro power_increasing) auto
      with p(5) \<open>\<not> p \<le> 15\<close> assms(3) show False by auto
    qed
    with p False show thesis by (intro that [of p]) (auto simp: round_cap_def)
  qed
  have "(2 :: nat) ^ p \<le> 2 ^ 15" using p(2) by (intro power_increasing) auto
  then have c: "unat (of_nat (2 ^ p) :: size_t) = 2 ^ p"
    using p(2) by (simp only: unsigned_of_nat) (simp add: take_bit_nat_eq_self)
  obtain s where s: "unat s \<le> 2 ^ (p - 3)" "hashmap_new (True, True) elsize (of_nat (2 ^ p)) s0 s1 h cmp ef =
      Inr (Some \<lparr>hm_oom = False, hm_elsize = elsize, hm_cap = of_nat (2 ^ p), hm_seed0 = s0, hm_seed1 = s1,
      hm_hash = h, hm_compare = cmp, hm_elfree = ef, hm_bucketsz = bucket_size elsize, hm_nbuckets = of_nat (2 ^ p),
      hm_count = 0, hm_mask = of_nat (2 ^ p) - 1, hm_growat = of_nat (3 * 2 ^ (p - 2)), hm_shrinkat = s,
      hm_buckets = replicate (unat (of_nat (2 ^ p) :: size_t)) (zero_bucket elsize)\<rparr>)" (is "_ = Inr (Some ?m)")
    using hashmap_new_pow2 [OF c p(1,2)] by blast
  have "round_cap (of_nat (2 ^ p)) = Inr (of_nat (2 ^ p))" using round_cap_pow2 [OF c p(1)] p(2) by simp
  then have "hashmap_new (True, True) elsize cap s0 s1 h cmp ef = Inr (Some ?m)"
    using s(2) p(3) by (simp add: hashmap_new_def hashmap_new_with_allocator_def)
  moreover have "hm_shape ?m p" unfolding hm_shape_def using p c s(1) unat_growat [OF p(2)] by auto
  moreover have "hm_data ceq ?m" unfolding hm_data_def using assms c rh_zero by simp
  ultimately show ?thesis using p(4) c unfolding hm_inv_def by (intro exI [of _ ?m]) (auto simp: hm_items_def)
qed

section \<open>Properties\<close>

text \<open>A map of 8-byte items with the identity as hash and equality of bytes as comparison; used in examples.\<close>

definition word_hash :: "bytes \<Rightarrow> u64 \<Rightarrow> u64 \<Rightarrow> u64" where
  "word_hash x s0 s1 = u8to64_le x"

definition bytes_compare :: "iptr \<Rightarrow> iptr \<Rightarrow> int" where
  "bytes_compare x y = (if snd x = snd y then 0 else 1)"

lemma bytes_compare_decides: "cmp_decides bytes_compare (=)"
  by (simp add: cmp_decides_def bytes_compare_def)

text \<open>Setting a list of items, one after the other.\<close>

fun hashmap_sets :: "hashmap \<Rightarrow> bytes list \<Rightarrow> hashmap res" where
  "hashmap_sets m [] = Inr m"
| "hashmap_sets m (x # xs) = rbind (hashmap_set (True, True) m (Some x)) (\<lambda>(m', _). hashmap_sets m' xs)"

lemma hashmap_sets_puts: "hashmap_sets m xs = hm.puts m xs"
  by (induction xs arbitrary: m) (simp_all add: rbind_def split: sum.splits)

lemma count_items: "hm_inv ceq m \<Longrightarrow> unat (hashmap_count m) = size (hm_items m)"
  by (simp add: hashmap_count_def hm_inv_def hm_data_def hm_items_def)

text \<open>C14: \<open>hashmap_new\<close> with any capacity up to \<open>2 ^ 15\<close> (0 included) gives a map that satisfies the
  invariant, is empty, and has at least the requested number of buckets.\<close>

theorem hashmap_new_correct:
  assumes "cmp_decides cmp ceq" "equivp ceq" "unat cap \<le> 2 ^ 15"
  shows "\<exists>m. hashmap_new (True, True) elsize cap s0 s1 h cmp ef = Inr (Some m) \<and> hm_inv ceq m
    \<and> hashmap_count m = 0 \<and> (\<forall>k. hashmap_get m (Some k) = Inr None) \<and> unat cap \<le> unat (hm_nbuckets m)"
proof -
  obtain m where m: "hashmap_new (True, True) elsize cap s0 s1 h cmp ef = Inr (Some m)" "hm_inv ceq m"
      "hm_items m = {#}" "unat cap \<le> unat (hm_nbuckets m)"
    using hashmap_new_inv [OF assms] by blast
  have "unat (hashmap_count m) = 0" using count_items [OF m(2)] m(3) by simp
  then have "hashmap_count m = 0" by (simp add: unat_eq_zero)
  moreover have "hashmap_get m (Some k) = Inr None" for k
    using get_lookup [OF m(2)] m(3) hm_lookup_None [of ceq m k] by simp
  ultimately show ?thesis using m by auto
qed

theorem hashmap_new_correct_witness:
  "\<exists>m. hashmap_new (True, True) 8 100 0 0 word_hash bytes_compare False = Inr (Some m) \<and> hm_inv (=) m
    \<and> 100 \<le> unat (hm_nbuckets m)"
  using hashmap_new_correct [OF bytes_compare_decides identity_equivp, of 100 8 0 0 word_hash False] by auto

text \<open>C1: \<open>hashmap_set\<close> always ends on a map with fewer than 24576 items: it returns the item that had
  the same key, or null, replaces or adds the item, changes no other key, and keeps the invariant. The
  count grows exactly when the key is new.\<close>

theorem hashmap_set_correct:
  assumes "hm_inv ceq m" "size (hm_items m) < hm_limit"
  shows "\<exists>m'. hashmap_set (True, True) m (Some x) = Inr (m', hm_lookup ceq m x) \<and> hm_inv ceq m'
    \<and> (\<forall>k. hashmap_get m' (Some k) = (if key_eq ceq m x k then Inr (Some x) else hashmap_get m (Some k)))
    \<and> unat (hashmap_count m') = (if hm_lookup ceq m x = None then Suc (unat (hashmap_count m)) else unat (hashmap_count m))"
  using hm.put_law [OF assms, of x] assms(1) by (auto simp: get_lookup count_items)

text \<open>A map with one item, used in examples.\<close>

lemma sample_map:
  obtains m m1 where "hashmap_new (True, True) 8 0 0 0 word_hash bytes_compare False = Inr (Some m)" "hm_inv (=) m"
    "hm_items m = {#}" "hashmap_set (True, True) m (Some (u64to8_le 5)) = Inr (m1, None)" "hm_inv (=) m1"
    "hm_lookup (=) m1 (u64to8_le 5) = Some (u64to8_le 5)" "size (hm_items m1) = 1"
proof -
  obtain m where m: "hashmap_new (True, True) 8 0 0 0 word_hash bytes_compare False = Inr (Some m)" "hm_inv (=) m" "hm_items m = {#}"
    using hashmap_new_inv [OF bytes_compare_decides identity_equivp, of 0 8 0 0 word_hash False] by auto
  have none: "hm_lookup (=) m k = None" for k using m(3) by (simp add: hm_lookup_None)
  obtain m1 where m1: "hashmap_set (True, True) m (Some (u64to8_le 5)) = Inr (m1, None)" "hm_inv (=) m1"
      "hm_lookup (=) m1 = (\<lambda>k. if key_eq (=) m (u64to8_le 5) k then Some (u64to8_le 5) else hm_lookup (=) m k)" "size (hm_items m1) = 1"
    using set_lookup [OF m(2), of "u64to8_le 5"] m(3) none by (auto simp: hm_limit_def)
  with m that show thesis by (simp add: key_eq_def)
qed

theorem hashmap_set_correct_witness:
  "\<exists>m m' m''. hashmap_new (True, True) 8 0 0 0 word_hash bytes_compare False = Inr (Some m)
    \<and> hashmap_set (True, True) m (Some (u64to8_le 5)) = Inr (m', None)
    \<and> hashmap_set (True, True) m' (Some (u64to8_le 5)) = Inr (m'', Some (u64to8_le 5))"
proof -
  obtain m m1 where m: "hashmap_new (True, True) 8 0 0 0 word_hash bytes_compare False = Inr (Some m)"
      "hashmap_set (True, True) m (Some (u64to8_le 5)) = Inr (m1, None)" "hm_inv (=) m1"
      "hm_lookup (=) m1 (u64to8_le 5) = Some (u64to8_le 5)" "size (hm_items m1) = 1"
    using sample_map by metis
  then have "\<exists>m''. hashmap_set (True, True) m1 (Some (u64to8_le 5)) = Inr (m'', Some (u64to8_le 5))"
    using hashmap_set_correct [OF m(3), of "u64to8_le 5"] by (auto simp: hm_limit_def)
  with m show ?thesis by blast
qed

text \<open>C2: \<open>hashmap_delete\<close> always ends, whether or not the allocations of its shrink step succeed: it
  returns the item with the key, or null, removes it and no other, and keeps the invariant.\<close>

theorem hashmap_delete_correct:
  assumes "hm_inv ceq m"
  shows "\<exists>m'. hashmap_delete ok m (Some x) = Inr (m', hm_lookup ceq m x) \<and> hm_inv ceq m'
    \<and> (\<forall>k. hashmap_get m' (Some k) = (if key_eq ceq m x k then Inr None else hashmap_get m (Some k)))
    \<and> unat (hashmap_count m') = (if hm_lookup ceq m x = None then unat (hashmap_count m) else unat (hashmap_count m) - 1)"
  using hm.del_law [OF assms, of ok x] assms by (auto simp: get_lookup count_items)

theorem hashmap_delete_correct_witness:
  "\<exists>m m' m''. hashmap_new (True, True) 8 0 0 0 word_hash bytes_compare False = Inr (Some m)
    \<and> hashmap_set (True, True) m (Some (u64to8_le 5)) = Inr (m', None)
    \<and> hashmap_delete (True, False) m' (Some (u64to8_le 5)) = Inr (m'', Some (u64to8_le 5)) \<and> hm_inv (=) m''"
proof -
  obtain m m1 where m: "hashmap_new (True, True) 8 0 0 0 word_hash bytes_compare False = Inr (Some m)"
      "hashmap_set (True, True) m (Some (u64to8_le 5)) = Inr (m1, None)" "hm_inv (=) m1"
      "hm_lookup (=) m1 (u64to8_le 5) = Some (u64to8_le 5)"
    using sample_map by metis
  then show ?thesis using hashmap_delete_correct [OF m(3), of "(True, False)" "u64to8_le 5"] by auto
qed

text \<open>C13: inserting a sequence of items into a map, as long as the total stays within 24576, makes it
  answer every key with the last inserted item of that key, and with its former item otherwise.\<close>

theorem hashmap_set_sequence:
  assumes "hm_inv ceq m" "size (hm_items m) + length xs \<le> hm_limit"
  shows "\<exists>m'. hashmap_sets m xs = Inr m' \<and> hm_inv ceq m'
    \<and> (\<forall>k. hashmap_get m' (Some k) =
          Inr (case find (\<lambda>x. key_eq ceq m x k) (rev xs) of Some x \<Rightarrow> Some x | None \<Rightarrow> hm_lookup ceq m k))"
  using hm.puts_law [OF assms] by (auto simp: get_lookup hashmap_sets_puts)

theorem hashmap_set_sequence_witness:
  "\<exists>m m'. hashmap_new (True, True) 8 0 0 0 word_hash bytes_compare False = Inr (Some m)
    \<and> hashmap_sets m (map (\<lambda>i. u64to8_le (of_nat i)) [0..<100]) = Inr m'
    \<and> hashmap_get m' (Some (u64to8_le 7)) = Inr (Some (u64to8_le 7))"
proof -
  let ?xs = "map (\<lambda>i. u64to8_le (of_nat i)) [0..<100]" and ?x = "u64to8_le 7"
  obtain m where m: "hashmap_new (True, True) 8 0 0 0 word_hash bytes_compare False = Inr (Some m)" "hm_inv (=) m" "hm_items m = {#}"
    using sample_map by metis
  obtain m' where m': "hashmap_sets m ?xs = Inr m'" "\<And>k. hashmap_get m' (Some k) =
      Inr (case find (\<lambda>x. key_eq (=) m x k) (rev ?xs) of Some x \<Rightarrow> Some x | None \<Rightarrow> hm_lookup (=) m k)"
    using hashmap_set_sequence [OF m(2), of ?xs] m(3) by (auto simp: hm_limit_def)
  have "?x \<in> set (rev ?xs)" by (auto simp: image_iff intro!: bexI [of _ 7])
  then obtain y where y: "find (\<lambda>x. key_eq (=) m x ?x) (rev ?xs) = Some y"
    by (metis (mono_tags, lifting) find_None_iff key_eq_def not_Some_eq)
  then have "y = ?x" by (auto simp: find_Some_iff key_eq_def)
  with m m' y show ?thesis by auto
qed

text \<open>Deleting a key that has just been added brings the map back to its former contents.\<close>

theorem hashmap_delete_set:
  assumes "hm_inv ceq m" "size (hm_items m) < hm_limit" "hashmap_get m (Some x) = Inr None"
  shows "\<exists>m1 m2. hashmap_set (True, True) m (Some x) = Inr (m1, None) \<and> hashmap_delete ok m1 (Some x) = Inr (m2, Some x)
    \<and> hm_inv ceq m2 \<and> (\<forall>k. hashmap_get m2 (Some k) = hashmap_get m (Some k)) \<and> hashmap_count m2 = hashmap_count m"
proof -
  have "hm_lookup ceq m x = None" using assms(1,3) by (simp add: get_lookup)
  then obtain m1 m2 where m: "hashmap_set (True, True) m (Some x) = Inr (m1, None)"
      "hashmap_delete ok m1 (Some x) = Inr (m2, Some x)" "hm_inv ceq m2" "hm_lookup ceq m2 = hm_lookup ceq m"
      "size (hm_items m2) = size (hm_items m)"
    using hm.del_put [OF assms(1,2)] by blast
  then have "hashmap_count m2 = hashmap_count m" using assms(1) by (simp add: word_unat_eq_iff count_items)
  with m assms(1) show ?thesis by (auto simp: get_lookup)
qed

theorem hashmap_delete_set_witness:
  "\<exists>m m1 m2. hashmap_new (True, True) 8 0 0 0 word_hash bytes_compare False = Inr (Some m)
    \<and> hashmap_set (True, True) m (Some (u64to8_le 5)) = Inr (m1, None)
    \<and> hashmap_delete (True, True) m1 (Some (u64to8_le 5)) = Inr (m2, Some (u64to8_le 5)) \<and> hashmap_count m2 = hashmap_count m"
proof -
  obtain m where m: "hashmap_new (True, True) 8 0 0 0 word_hash bytes_compare False = Inr (Some m)" "hm_inv (=) m" "hm_items m = {#}"
    using sample_map by metis
  then have "hashmap_get m (Some (u64to8_le 5)) = Inr None" using hm_lookup_None [of "(=)" m] by (simp add: get_lookup)
  with m show ?thesis using hashmap_delete_set [OF m(2), of "u64to8_le 5" "(True, True)"] by (auto simp: hm_limit_def)
qed

text \<open>C17: when the map must grow and an allocation fails, \<open>hashmap_set\<close> returns null, sets the
  out-of-memory flag and leaves everything else as it was.\<close>

theorem hashmap_set_out_of_memory:
  assumes "unat (hm_nbuckets m) = 2 ^ p" "4 \<le> p" "p \<le> 29" "hashmap_count m = hm_growat m" "ok \<noteq> (True, True)"
  shows "\<exists>m'. hashmap_set ok m (Some x) = Inr (m', None) \<and> hashmap_oom m' \<and> m' = m\<lparr>hm_oom := True\<rparr>"
  using hashmap_set_oom [OF assms(1,2,3), of ok x] assms(4,5)
  by (cases ok) (auto simp: hashmap_count_def hashmap_oom_def)

text \<open>A map that is full up to its load limit: the items 0 to 11 in the buckets 0 to 11 of 16.\<close>

definition full_map :: hashmap where
  "full_map = \<lparr>hm_oom = False, hm_elsize = 8, hm_cap = 16, hm_seed0 = 0, hm_seed1 = 0, hm_hash = word_hash,
     hm_compare = bytes_compare, hm_elfree = False, hm_bucketsz = 16, hm_nbuckets = 16, hm_count = 12, hm_mask = 15,
     hm_growat = 12, hm_shrinkat = 1,
     hm_buckets = map (\<lambda>i. \<lparr>b_hash = of_nat i, b_dib = 1, b_item = u64to8_le (of_nat i)\<rparr>) [0..<12] @
       replicate 4 (zero_bucket 8)\<rparr>"

theorem hashmap_set_out_of_memory_witness:
  "hashmap_set (True, False) full_map (Some (u64to8_le 99)) = Inr (full_map\<lparr>hm_oom := True\<rparr>, None)"
  using hashmap_set_out_of_memory [of full_map 4 "(True, False)" "u64to8_le 99"]
  by (auto simp: full_map_def hashmap_count_def)

text \<open>C16: \<open>hashmap_clear\<close> calls \<open>elfree\<close> on every item exactly once, in bucket order, when there is
  one, and leaves an empty map that satisfies the invariant, whether or not its allocation succeeds.\<close>

theorem hashmap_clear_correct:
  assumes "hm_inv ceq m"
  shows "\<exists>m'. hashmap_clear ok m update_cap = Inr (m', if hm_elfree m then item_list m else []) \<and> hm_inv ceq m'
    \<and> hashmap_count m' = 0 \<and> hm_nbuckets m' = (if update_cap then hm_nbuckets m else hm_cap m)"
proof -
  obtain m' where m': "hashmap_clear ok m update_cap = Inr (m', free_elements m)" "hm_inv ceq m'" "hm_items m' = {#}"
      "hm_nbuckets m' = (if update_cap then hm_nbuckets m else hm_cap m)"
    using hashmap_clear_spec [OF assms] by blast
  have "unat (hashmap_count m') = 0" using count_items [OF m'(2)] m'(3) by simp
  then have "hashmap_count m' = 0" by (simp add: unat_eq_zero)
  with m' show ?thesis by (auto simp: free_elements_def item_list_def)
qed

theorem hashmap_clear_correct_witness:
  "\<exists>m m1 m2. hashmap_new (True, True) 8 0 0 0 word_hash bytes_compare False = Inr (Some m)
    \<and> hashmap_set (True, True) m (Some (u64to8_le 5)) = Inr (m1, None)
    \<and> hashmap_clear False m1 True = Inr (m2, if hm_elfree m1 then item_list m1 else []) \<and> hashmap_count m2 = 0"
proof -
  obtain m m1 where m: "hashmap_new (True, True) 8 0 0 0 word_hash bytes_compare False = Inr (Some m)"
      "hashmap_set (True, True) m (Some (u64to8_le 5)) = Inr (m1, None)" "hm_inv (=) m1"
    using sample_map by metis
  then show ?thesis using hashmap_clear_correct [OF m(3), of False True] by blast
qed

text \<open>C15: calling \<open>hashmap_iter\<close> from cursor 0 until it returns false visits every item of the map
  exactly once, in the order in which \<open>hashmap_scan\<close> passes them to a callback that never stops.\<close>

theorem hashmap_iter_complete:
  assumes "hm_inv ceq m" "\<And>x s. fst (iter x s)"
  shows "mset (iter_all m 0) = hm_items m
    \<and> hashmap_scan m iter s = (True, fold (\<lambda>x s. snd (iter x s)) (iter_all m 0) s)"
proof -
  have "length (hm_buckets m) = unat (hm_nbuckets m)" using assms(1) by (simp add: hm_inv_def hm_data_def rh_ok_def)
  then have "iter_all m 0 = item_list m" by (simp add: iter_all_items item_list_def)
  with scan_all [of iter "hm_buckets m" s, OF assms(2)] show ?thesis by (simp add: hashmap_scan_def item_list_def items_list)
qed

theorem hashmap_iter_complete_witness:
  "\<exists>m m1. hashmap_new (True, True) 8 0 0 0 word_hash bytes_compare False = Inr (Some m)
    \<and> hashmap_set (True, True) m (Some (u64to8_le 5)) = Inr (m1, None)
    \<and> hashmap_scan m1 (\<lambda>x s. (True, Suc s)) 0 = (True, fold (\<lambda>x s. Suc s) (iter_all m1 0) 0)"
proof -
  obtain m m1 where m: "hashmap_new (True, True) 8 0 0 0 word_hash bytes_compare False = Inr (Some m)"
      "hashmap_set (True, True) m (Some (u64to8_le 5)) = Inr (m1, None)" "hm_inv (=) m1"
    using sample_map by metis
  then show ?thesis using hashmap_iter_complete [OF m(3), of "\<lambda>x s. (True, Suc s)" "0 :: nat"] by auto
qed

end
