(* ===== verification/Monitor.thy ===== *)
theory Monitor
  imports Intercept Hashmap_Map
begin

text \<open>
  \<open>monitor.c\<close>: the thread that samples loads and stores. In each period it counts the samples of each
  object in \<open>g_tier_manager_copy\<close>, then folds the counts into the metrics of \<open>g_tier_manager\<close>. A store is
  counted when its address is not yet in the hash map \<open>g_hashmap\<close>.

  The layout of \<open>union perf_mem_data_src\<close> and the constants \<open>PERF_MEM_...\<close> come from
  \<open>linux/perf_event.h\<close>, which is not part of the repository: they are the fields of the argument
  \<open>pm\<close>.
\<close>

unbundle bit_operations_syntax

section \<open>Data source of a sample\<close>

record perf_mem =
  pm_op :: "u64 \<Rightarrow> u64"
  pm_lvl :: "u64 \<Rightarrow> u64"
  pm_dtlb :: "u64 \<Rightarrow> u64"
  OP_NA :: u64
  OP_LOAD :: u64
  OP_STORE :: u64
  OP_PFETCH :: u64
  OP_EXEC :: u64
  LVL_NA :: u64
  LVL_HIT :: u64
  LVL_MISS :: u64
  LVL_L1 :: u64
  LVL_LFB :: u64
  LVL_L2 :: u64
  LVL_L3 :: u64
  LVL_LOC_RAM :: u64
  LVL_REM_RAM1 :: u64
  LVL_REM_RAM2 :: u64
  LVL_REM_CCE1 :: u64
  LVL_REM_CCE2 :: u64
  LVL_IO :: u64
  LVL_UNC :: u64
  LVLNUM_PMEM :: u64
  TLB_HIT :: u64
  TLB_MISS :: u64

definition has :: "u64 \<Rightarrow> u64 \<Rightarrow> bool" where
  "has x flag \<longleftrightarrow> x AND flag \<noteq> 0"

definition is_served_by_local_cache1 :: "perf_mem \<Rightarrow> u64 \<Rightarrow> bool" where
  "is_served_by_local_cache1 pm d \<longleftrightarrow>
     (if has (pm_lvl pm d) (LVL_HIT pm) then (if has (pm_lvl pm d) (LVL_L1 pm) then True else False) else False)"

definition is_served_by_local_cache2 :: "perf_mem \<Rightarrow> u64 \<Rightarrow> bool" where
  "is_served_by_local_cache2 pm d \<longleftrightarrow>
     (if has (pm_lvl pm d) (LVL_HIT pm) then (if has (pm_lvl pm d) (LVL_L2 pm) then True else False) else False)"

definition is_served_by_local_cache3 :: "perf_mem \<Rightarrow> u64 \<Rightarrow> bool" where
  "is_served_by_local_cache3 pm d \<longleftrightarrow>
     (if has (pm_lvl pm d) (LVL_HIT pm) then (if has (pm_lvl pm d) (LVL_L3 pm) then True else False) else False)"

definition is_served_by_local_lfb :: "perf_mem \<Rightarrow> u64 \<Rightarrow> bool" where
  "is_served_by_local_lfb pm d \<longleftrightarrow>
     (if has (pm_lvl pm d) (LVL_HIT pm) then (if has (pm_lvl pm d) (LVL_LFB pm) then True else False) else False)"

definition is_served_by_local_cache :: "perf_mem \<Rightarrow> u64 \<Rightarrow> bool" where
  "is_served_by_local_cache pm d \<longleftrightarrow>
     (if has (pm_lvl pm d) (LVL_HIT pm)
      then if has (pm_lvl pm d) (LVL_L1 pm) then True
           else if has (pm_lvl pm d) (LVL_LFB pm) then True
           else if has (pm_lvl pm d) (LVL_L2 pm) then True
           else if has (pm_lvl pm d) (LVL_L3 pm) then True
           else False
      else False)"

definition is_served_by_local_memory :: "perf_mem \<Rightarrow> u64 \<Rightarrow> bool" where
  "is_served_by_local_memory pm d \<longleftrightarrow>
     (if has (pm_lvl pm d) (LVL_HIT pm) then (if has (pm_lvl pm d) (LVL_LOC_RAM pm) then True else False) else False)"

definition is_served_by_local_pmem :: "perf_mem \<Rightarrow> u64 \<Rightarrow> bool" where
  "is_served_by_local_pmem pm d \<longleftrightarrow>
     (if has (pm_lvl pm d) (LVL_HIT pm) then (if has (pm_lvl pm d) (LVLNUM_PMEM pm) then True else False) else False)"

definition is_served_by_remote_cache_or_local_memory :: "perf_mem \<Rightarrow> u64 \<Rightarrow> bool" where
  "is_served_by_remote_cache_or_local_memory pm d \<longleftrightarrow>
     (if has (pm_lvl pm d) (LVL_HIT pm) \<and> has (pm_lvl pm d) (LVL_REM_CCE1 pm) then True else False)"

definition is_served_by_remote_memory :: "perf_mem \<Rightarrow> u64 \<Rightarrow> bool" where
  "is_served_by_remote_memory pm d \<longleftrightarrow>
     (if has (pm_lvl pm d) (LVL_HIT pm)
      then if has (pm_lvl pm d) (LVL_REM_RAM1 pm) then True
           else if has (pm_lvl pm d) (LVL_REM_RAM2 pm) then True else False
      else False)"

definition is_served_by_local_NA_miss :: "perf_mem \<Rightarrow> u64 \<Rightarrow> bool" where
  "is_served_by_local_NA_miss pm d \<longleftrightarrow>
     (if has (pm_lvl pm d) (LVL_NA pm) then True
      else if has (pm_lvl pm d) (LVL_MISS pm) \<and> has (pm_lvl pm d) (LVL_L3 pm) then True
      else False)"

text \<open>With none of the bits set, \<open>get_data_src_opcode\<close> ends without a \<open>return\<close> and its value is used.\<close>

definition get_data_src_opcode :: "perf_mem \<Rightarrow> u64 \<Rightarrow> int res" where
  "get_data_src_opcode pm d =
     (if has (pm_op pm d) (OP_NA pm) then Inr 0
      else if has (pm_op pm d) (OP_LOAD pm) then Inr 1
      else if has (pm_op pm d) (OP_STORE pm) then Inr 2
      else if has (pm_op pm d) (OP_PFETCH pm) then Inr 3
      else if has (pm_op pm d) (OP_EXEC pm) then Inr 4
      else Inl Uninit_read)"

definition get_data_src_dtlb :: "perf_mem \<Rightarrow> u64 \<Rightarrow> int" where
  "get_data_src_dtlb pm d =
     (if has (pm_dtlb pm d) (TLB_HIT pm) then 1 else if has (pm_dtlb pm d) (TLB_MISS pm) then 2 else - 1)"

text \<open>\<open>concat\<close>, for an allocation that succeeds.\<close>

definition concat_str :: "string \<Rightarrow> string \<Rightarrow> string" where
  "concat_str s1 s2 = s1 @ s2"

definition get_data_src_level :: "perf_mem \<Rightarrow> u64 \<Rightarrow> string" where
  "get_data_src_level pm d =
     (let l = has (pm_lvl pm d);
          res = concat_str '''' '''';
          res = (if l (LVL_NA pm) then concat_str res ''NA'' else res);
          res = (if l (LVL_L1 pm) then concat_str res ''L1''
                 else if l (LVL_LFB pm) then concat_str res ''LFB''
                 else if l (LVL_L2 pm) then concat_str res ''L2''
                 else if l (LVL_L3 pm) then concat_str res ''L3''
                 else if l (LVL_LOC_RAM pm) then concat_str res ''Local_RAM ''
                 else if l (LVL_REM_RAM1 pm) then concat_str res ''Remote_RAM_1_hop ''
                 else if l (LVL_REM_RAM2 pm) then concat_str res ''Remote_RAM_2_hops ''
                 else if l (LVL_REM_CCE1 pm) then concat_str res ''Remote_Cache_1_hop''
                 else if l (LVL_REM_CCE2 pm) then concat_str res ''Remote_Cache_2_hops''
                 else if l (LVL_IO pm) then concat_str res ''I/O_Memory''
                 else if l (LVL_UNC pm) then concat_str res ''Uncached_Memory''
                 else if l (LVLNUM_PMEM pm) then concat_str res ''Local PMEM''
                 else concat_str res ''Unknown'')
      in if l (LVL_HIT pm) then concat_str res ''_Hit''
         else if l (LVL_MISS pm) then concat_str res ''_Miss''
         else res)"

section \<open>The set of sampled store addresses\<close>

text \<open>\<open>address_compare\<close> compares the two pointers, and returns 1 when they are equal.\<close>

definition address_compare :: "iptr \<Rightarrow> iptr \<Rightarrow> int" where
  "address_compare a b = (if fst a = fst b then 1 else 0)"

definition address_hash :: "bytes \<Rightarrow> u64 \<Rightarrow> u64 \<Rightarrow> u64" where
  "address_hash item seed0 seed1 = hashmap_sip item seed0 seed1"

section \<open>State\<close>

record monitor = intercept +
  tm_copy :: tier_manager
  store_map :: "hashmap option"  \<comment> \<open>\<open>g_hashmap\<close>, \<open>None\<close> for null\<close>

section \<open>Metrics\<close>

definition clear_object :: "object \<Rightarrow> object" where
  "clear_object ob = ob\<lparr>o_metrics := (o_metrics ob)\<lparr>
       sum_latency_cost := \<lambda>j. if j < MEM_LEVELS then Fin 0 else sum_latency_cost (o_metrics ob) j,
       loads_count := \<lambda>j. if j < MEM_LEVELS then Fin 0 else loads_count (o_metrics ob) j,
       tlb_hit := \<lambda>j. if j < MEM_LEVELS then Fin 0 else tlb_hit (o_metrics ob) j,
       tlb_miss := \<lambda>j. if j < MEM_LEVELS then Fin 0 else tlb_miss (o_metrics ob) j,
       stores_count := Fin 0\<rparr>\<rparr>"

definition clear_metrics :: "tier_manager \<Rightarrow> tier_manager" where
  "clear_metrics t = t\<lparr>obj_vector := \<lambda>i. if i < MAX_OBJECTS then clear_object (obj_vector t i) else obj_vector t i\<rparr>"

text \<open>\<open>ALPHA\<close> is 0.33 in \<open>double\<close>; \<open>1-ALPHA\<close> is folded in \<open>double\<close>.\<close>

definition ALPHA :: fp where
  "ALPHA = d_of (33 / 100)"

definition one_minus_ALPHA :: fp where
  "one_minus_ALPHA = dsub (Fin 1) ALPHA"

definition smooth :: "fp \<Rightarrow> fp \<Rightarrow> fp" where
  "smooth curr_value old_value = dadd (dmul curr_value one_minus_ALPHA) (dmul old_value ALPHA)"

text \<open>
  The update of one object: \<open>old_value\<close> is read once per level, from \<open>sum_latency_cost\<close>, and used for
  all four metrics of that level.
\<close>

definition update_object_metrics :: "metrics \<Rightarrow> metrics \<Rightarrow> metrics" where
  "update_object_metrics c m = m\<lparr>
     sum_latency_cost := \<lambda>j. if j < MEM_LEVELS then smooth (sum_latency_cost c j) (sum_latency_cost m j) else sum_latency_cost m j,
     loads_count := \<lambda>j. if j < MEM_LEVELS then smooth (loads_count c j) (sum_latency_cost m j) else loads_count m j,
     tlb_hit := \<lambda>j. if j < MEM_LEVELS then smooth (tlb_hit c j) (sum_latency_cost m j) else tlb_hit m j,
     tlb_miss := \<lambda>j. if j < MEM_LEVELS then smooth (tlb_miss c j) (sum_latency_cost m j) else tlb_miss m j,
     stores_count := dadd (stores_count m) (stores_count c)\<rparr>"

function update_loop :: "tier_manager \<Rightarrow> nat \<Rightarrow> tier_manager \<Rightarrow> tier_manager res" where
  "update_loop c i t =
     (if int i < total_obj t
      then if i \<ge> MAX_OBJECTS then Inl Out_of_bounds
           else if obj_alloc t i = 1
           then update_loop c (i + 1) (t\<lparr>obj_vector := (obj_vector t)(i := (obj_vector t i)\<lparr>
                  o_metrics := update_object_metrics (o_metrics (obj_vector c i)) (o_metrics (obj_vector t i))\<rparr>)\<rparr>)
           else update_loop c (i + 1) t
      else Inr t)"
  by pat_completeness auto
termination by (relation "measure (\<lambda>(c, i, t). MAX_OBJECTS - i)") auto

declare update_loop.simps [simp del]

definition update_metrics :: "'z monitor_scheme \<Rightarrow> 'z monitor_scheme res" where
  "update_metrics s = rbind (update_loop (tm_copy s) 0 (tm s)) (\<lambda>t. Inr (s\<lparr>tm := t\<rparr>))"

text \<open>\<open>get_vector_index\<close>; \<open>None\<close> is the return value -1.\<close>

definition get_vector_index :: "tier_manager \<Rightarrow> u64 \<Rightarrow> nat option" where
  "get_vector_index t chave =
     find (\<lambda>i. o_start_addr (obj_vector t i) \<le> chave \<and> chave \<le> o_end_addr (obj_vector t i) \<and> obj_alloc t i = 1)
       [0..<MAX_OBJECTS]"

section \<open>Samples\<close>

record mem_sample =
  ms_id :: u64
  ms_addr :: u64
  ms_weight :: u64
  ms_data_src :: u64

text \<open>The metrics of object \<open>i\<close> in the copy.\<close>

definition upd_copy :: "nat \<Rightarrow> (metrics \<Rightarrow> metrics) \<Rightarrow> 'z monitor_scheme \<Rightarrow> 'z monitor_scheme" where
  "upd_copy i f s = s\<lparr>tm_copy := (tm_copy s)\<lparr>obj_vector :=
     (obj_vector (tm_copy s))(i := (obj_vector (tm_copy s) i)\<lparr>o_metrics := f (o_metrics (obj_vector (tm_copy s) i))\<rparr>)\<rparr>\<rparr>"

definition incr :: "(nat \<Rightarrow> fp) \<Rightarrow> nat \<Rightarrow> fp \<Rightarrow> nat \<Rightarrow> fp" where
  "incr v l x = v(l := dadd (v l) x)"

text \<open>The chain of tests that gives the level of a load; \<open>None\<close> is -1.\<close>

definition load_level :: "perf_mem \<Rightarrow> u64 \<Rightarrow> nat option" where
  "load_level pm d =
     (if is_served_by_local_NA_miss pm d then None
      else if is_served_by_local_cache1 pm d then Some 0
      else if is_served_by_local_lfb pm d then Some 1
      else if is_served_by_local_cache2 pm d then Some 2
      else if is_served_by_local_cache3 pm d then Some 3
      else if is_served_by_local_memory pm d then Some 4
      else if is_served_by_local_pmem pm d then Some 4
      else None)"

definition load_metrics :: "perf_mem \<Rightarrow> mem_sample \<Rightarrow> metrics \<Rightarrow> metrics" where
  "load_metrics pm e m =
     (case load_level pm (ms_data_src e) of None \<Rightarrow> m
      | Some l \<Rightarrow>
          let m = m\<lparr>loads_count := incr (loads_count m) l (Fin 1)\<rparr>;
              tlb_type = get_data_src_dtlb pm (ms_data_src e);
              w = d_ulong (ms_weight e)
          in if tlb_type = 1
             then m\<lparr>tlb_hit := incr (tlb_hit m) l (Fin 1), sum_latency_cost := incr (sum_latency_cost m) l w\<rparr>
             else if tlb_type = 2
             then m\<lparr>tlb_miss := incr (tlb_miss m) l (Fin 1), sum_latency_cost := incr (sum_latency_cost m) l w\<rparr>
             else m)"

text \<open>A store sample: the address is looked up, and counted and added when it is not there.\<close>

definition handle_store :: "bool \<times> bool \<Rightarrow> nat \<Rightarrow> u64 \<Rightarrow> 'z monitor_scheme \<Rightarrow> 'z monitor_scheme res" where
  "handle_store ok i addr s =
     (case store_map s of None \<Rightarrow> Inl Null_deref
      | Some h \<Rightarrow>
          rbind (hashmap_get h (Some (u64to8_le addr))) (\<lambda>result.
          case result of Some _ \<Rightarrow> Inr s
          | None \<Rightarrow>
              let s = upd_copy i (\<lambda>m. m\<lparr>stores_count := dadd (stores_count m) (Fin 1)\<rparr>) s
              in rbind (hashmap_set ok h (Some (u64to8_le addr))) (\<lambda>(h', _). Inr (s\<lparr>store_map := Some h'\<rparr>))))"

definition monitor_sample :: "perf_mem \<Rightarrow> bool \<times> bool \<Rightarrow> mem_sample \<Rightarrow> 'z monitor_scheme \<Rightarrow> 'z monitor_scheme res" where
  "monitor_sample pm ok e s =
     (case get_vector_index (tm s) (ms_addr e) of None \<Rightarrow> Inr s
      | Some i \<Rightarrow>
          rbind (get_data_src_opcode pm (ms_data_src e)) (\<lambda>mem_type_oper.
          if mem_type_oper = 1 then Inr (upd_copy i (load_metrics pm e) s)
          else if mem_type_oper = 2 then handle_store ok i (ms_addr e) s
          else Inr s))"

text \<open>One record of a ring buffer: a sample (with the outcome of the allocations it may cause) or another record.\<close>

datatype mem_event = Mem_sample mem_sample "bool \<times> bool" | Mem_other

definition monitor_event :: "perf_mem \<Rightarrow> mem_event \<Rightarrow> 'z monitor_scheme \<Rightarrow> 'z monitor_scheme res" where
  "monitor_event pm ev s = (case ev of Mem_sample e ok \<Rightarrow> monitor_sample pm ok e s | Mem_other \<Rightarrow> Inr s)"

fun monitor_map :: "perf_mem \<Rightarrow> mem_event list \<Rightarrow> 'z monitor_scheme \<Rightarrow> 'z monitor_scheme res" where
  "monitor_map pm [] s = Inr s"
| "monitor_map pm (ev # evs) s = rbind (monitor_event pm ev s) (monitor_map pm evs)"

fun monitor_maps :: "perf_mem \<Rightarrow> mem_event list option list \<Rightarrow> 'z monitor_scheme \<Rightarrow> 'z monitor_scheme res" where
  "monitor_maps pm [] s = Inr s"
| "monitor_maps pm (None # ms) s = monitor_maps pm ms s"
| "monitor_maps pm (Some evs # ms) s = rbind (monitor_map pm evs s) (monitor_maps pm ms)"

text \<open>One turn of the loop of \<open>thread_monitor\<close>: clear, read all maps, update.\<close>

definition monitor_period :: "perf_mem \<Rightarrow> mem_event list option list \<Rightarrow> 'z monitor_scheme \<Rightarrow> 'z monitor_scheme res" where
  "monitor_period pm ms s =
     rbind (monitor_maps pm ms (s\<lparr>tm_copy := clear_metrics (tm_copy s)\<rparr>)) update_metrics"

fun monitor_periods :: "perf_mem \<Rightarrow> mem_event list option list list \<Rightarrow> 'z monitor_scheme \<Rightarrow> 'z monitor_scheme res" where
  "monitor_periods pm [] s = Inr s"
| "monitor_periods pm (p # ps) s = rbind (monitor_period pm p s) (monitor_periods pm ps)"

text \<open>
  \<open>thread_monitor\<close>: the outcome of the allocations of \<open>hashmap_new\<close>, the set-up of the events, and if that
  succeeds the periods until \<open>g_running_monitor\<close> is 0 and the final \<open>hashmap_free\<close>, which leaves
  \<open>g_hashmap\<close> dangling. The result has what is still held after the labels.
\<close>

definition thread_monitor ::
  "perf_env \<Rightarrow> perf_mem \<Rightarrow> bool \<times> bool \<Rightarrow> int \<Rightarrow> mem_event list option list list \<Rightarrow> 'z monitor_scheme \<Rightarrow> ('z monitor_scheme \<times> perf) res" where
  "thread_monitor perf pm ok sample_freq periods s =
     rbind (hashmap_new ok 8 0 0 0 address_hash address_compare False) (\<lambda>h.
     let s = s\<lparr>store_map := h\<rparr>
     in rbind (monitor_setup perf sample_freq) (\<lambda>(l, p).
        rbind (if l = Ready then rbind (monitor_periods pm periods s) (\<lambda>s. Inr (s\<lparr>store_map := None\<rparr>)) else Inr s) (\<lambda>s.
        Inr (s, perf_cleanup l p))))"

end
