(* ===== verification/Actuator.thy ===== *)
theory Actuator
  imports Monitor
begin

text \<open>
  \<open>actuator.c\<close>: the thread that ranks the objects by hotness and requests their migration between DRAM
  and persistent memory.

  What the thread asks the system is the argument \<open>env\<close>: the clock, the DRAM consumption that \<open>numastat\<close>
  prints (in MB; \<open>None\<close> when \<open>popen\<close> fails; \<open>numa_reads\<close> counts the readings), the page size, the status
  values that \<open>numa_move_pages\<close> writes, and whether the arrays for a number of pages can be allocated. \<open>qs\<close> is \<open>qsort\<close>: the order it gives to equal elements is unspecified.
  \<open>sort_objects\<close> reads its variable \<open>obj_index\<close> before it has a value: the value is the argument \<open>junk\<close>.
\<close>

unbundle bit_operations_syntax

section \<open>Data\<close>

record key_value =
  kv_key :: int
  kv_value :: fp
  kv_llcm :: fp
  kv_stores :: fp
  kv_tlbm :: fp

definition zero_key_value :: key_value where
  "zero_key_value = \<lparr>kv_key = 0, kv_value = Fin 0, kv_llcm = Fin 0, kv_stores = Fin 0, kv_tlbm = Fin 0\<rparr>"

record act_env =
  clk :: "nat \<Rightarrow> fp option"
  numastat :: "nat \<Rightarrow> fp option"
  pagesize :: u64
  move_pages :: "int \<Rightarrow> u64 list \<Rightarrow> int list"
  malloc_ok :: "u64 \<Rightarrow> bool"

record actuator = monitor +
  kv_list :: "key_value list"
  promotion_flag :: int
  has_demotion :: int
  active_obj :: nat
  curr_max_llcm :: fp
  curr_max_tlbm :: fp
  curr_max_stores :: fp
  status_pages :: "nat \<Rightarrow> fp"
  num_nodes :: nat
  act_write_fd :: int
  act_read_fd :: int
  hotness_threshold :: fp
  start_free_DRAM :: fp
  numa_reads :: nat

text \<open>\<open>GB\<close> is the \<open>double\<close> 1000000000.0.\<close>

abbreviation (input) GB :: fp where "GB \<equiv> Fin 1000000000"

section \<open>Helpers\<close>

definition get_free_dram_space :: "act_env \<Rightarrow> 'z actuator_scheme \<Rightarrow> (fp \<times> 'z actuator_scheme) res" where
  "get_free_dram_space env s =
     (case numastat env (numa_reads s) of None \<Rightarrow> Inl (Exit 1)
      | Some consumption \<Rightarrow>
          let s = s\<lparr>numa_reads := numa_reads s + 1\<rparr>;
              consumption = ddiv consumption (Fin 1000);
              free = dsub (start_free_DRAM s) consumption
          in rbind (get_my_timestamp (clk env) s) (\<lambda>(_, s). Inr (to_float free, s)))"

definition comp :: "key_value \<Rightarrow> key_value \<Rightarrow> int" where
  "comp a b = (let f = kv_value a; s = kv_value b in if fp_lt f s then 1 else if fp_lt s f then - 1 else 0)"

text \<open>\<open>double\<close> values: the larger of a running maximum and a new value, as the code updates it.\<close>

definition raise_max :: "fp \<Rightarrow> fp \<Rightarrow> fp" where
  "raise_max v m = (if fp_lt m v then v else m)"

section \<open>Ranking\<close>

text \<open>The body of the first loop of \<open>sort_objects\<close>, for object \<open>i\<close>.\<close>

definition rank_object :: "nat \<Rightarrow> 'z actuator_scheme \<Rightarrow> key_value \<times> 'z actuator_scheme" where
  "rank_object i s =
     (let m = o_metrics (obj_vector (tm s) i);
          llcm = loads_count m 4; tlbm = tlb_miss m 4; stores = stores_count m;
          s = s\<lparr>curr_max_llcm := raise_max llcm (curr_max_llcm s),
                curr_max_tlbm := raise_max tlbm (curr_max_tlbm s),
                curr_max_stores := raise_max stores (curr_max_stores s)\<rparr>;
          v = dadd (dadd (ddiv llcm (curr_max_llcm s)) (ddiv tlbm (curr_max_tlbm s))) (ddiv stores (curr_max_stores s))
      in (\<lparr>kv_key = int i, kv_value = v, kv_llcm = llcm, kv_stores = stores, kv_tlbm = tlbm\<rparr>, s))"

text \<open>The first loop; the result is \<open>count\<close> and the state.\<close>

function rank_loop :: "int \<Rightarrow> nat \<Rightarrow> nat \<Rightarrow> 'z actuator_scheme \<Rightarrow> (nat \<times> 'z actuator_scheme) res" where
  "rank_loop junk i cnt s =
     (if int i < total_obj (tm s)
      then if junk < 0 \<or> junk \<ge> int MAX_OBJECTS \<or> i \<ge> MAX_OBJECTS then Inl Out_of_bounds
           else if obj_alloc (tm s) (nat junk) = 1
           then let (aux, s) = rank_object i s
                in if cnt \<ge> MAX_OBJECTS then Inl Out_of_bounds
                   else rank_loop junk (i + 1) (cnt + 1) (s\<lparr>kv_list := (kv_list s)[cnt := aux]\<rparr>)
           else rank_loop junk (i + 1) cnt s
      else Inr (cnt, s))"
  by pat_completeness auto
termination by (relation "measure (\<lambda>(junk, i, cnt, s). MAX_OBJECTS - i)") auto

declare rank_loop.simps [simp del]

definition sort_objects ::
  "act_env \<Rightarrow> ((key_value \<Rightarrow> key_value \<Rightarrow> int) \<Rightarrow> key_value list \<Rightarrow> key_value list) \<Rightarrow> int \<Rightarrow>
   'z actuator_scheme \<Rightarrow> 'z actuator_scheme res" where
  "sort_objects env qs junk s =
     rbind (rank_loop junk 0 0 s) (\<lambda>(cnt, s).
     let s = s\<lparr>active_obj := cnt, kv_list := qs comp (kv_list s), promotion_flag := 0\<rparr>
     in rbind (get_my_timestamp (clk env) s) (\<lambda>(_, s).
        Inr (if \<exists>i \<in> set [0..<active_obj s]. fp_lt (hotness_threshold s) (kv_value (kv_list s ! i))
             then s\<lparr>promotion_flag := 1\<rparr> else s)))"

section \<open>Migration requests\<close>

definition act_bind_order :: "u64 \<Rightarrow> u64 \<Rightarrow> int \<Rightarrow> int \<Rightarrow> bind_type \<Rightarrow> 'z actuator_scheme \<Rightarrow> 'z actuator_scheme" where
  "act_bind_order start_addr sz target_node obj_index type s =
     (let data = \<lparr>d_start_addr = start_addr, d_size = sz,
                  d_nodemask_target_node = push_bit (nat target_node) 1,
                  d_obj_index = obj_index, d_type = type, d_flag = 2\<rparr>
      in if act_write_fd s = - 1 then s else s\<lparr>migration_pipe := migration_pipe s @ [data]\<rparr>)"

text \<open>\<open>CHUNK_SIZE/GB\<close> as a \<open>float\<close>, and the gigabytes of an object on a node as a \<open>float\<close>.\<close>

definition chunk_gb :: fp where
  "chunk_gb = to_float (ddiv (d_ulong CHUNK_SIZE) GB)"

definition alloc_size_gb :: "object \<Rightarrow> nat \<Rightarrow> fp" where
  "alloc_size_gb ob node = to_float (dmul (ddiv (d_ulong (o_size ob)) GB) (o_page_status ob node))"

definition upd_object :: "nat \<Rightarrow> (object \<Rightarrow> object) \<Rightarrow> 'z actuator_scheme \<Rightarrow> 'z actuator_scheme" where
  "upd_object i f s = s\<lparr>tm := (tm s)\<lparr>obj_vector := (obj_vector (tm s))(i := f (obj_vector (tm s) i))\<rparr>\<rparr>"

text \<open>The loop of \<open>policy_promotion\<close> over the list from \<open>i\<close> on.\<close>

function promotion_loop :: "act_env \<Rightarrow> fp \<Rightarrow> nat \<Rightarrow> fp \<Rightarrow> 'z actuator_scheme \<Rightarrow> 'z actuator_scheme res" where
  "promotion_loop env free i max_gb s =
     (if i < active_obj s
      then if i \<ge> MAX_OBJECTS then Inl Out_of_bounds
      else let kv = kv_list s ! i; obj_index = kv_key kv
           in if obj_index < 0 \<or> obj_index \<ge> int MAX_OBJECTS then Inl Out_of_bounds
              else let k = nat obj_index; ob = obj_vector (tm s) k; gb = alloc_size_gb ob 2
                   in if fp_lt (Fin 0) gb \<and> fp_lt gb free \<and> o_last_decision ob \<noteq> NODE_0_DRAM
                         \<and> fp_lt (hotness_threshold s) (kv_value kv) \<and> obj_alloc (tm s) k = 1
                      then rbind (get_my_timestamp (clk env) s) (\<lambda>(_, s).
                           let s = act_bind_order (o_start_addr ob) (o_size ob) NODE_0_DRAM obj_index PROMOTION s;
                               s = upd_object k (\<lambda>ob. ob\<lparr>o_last_decision := NODE_0_DRAM\<rparr>) s
                           in rbind (get_my_timestamp (clk env) s) (\<lambda>(now, s).
                              let s = upd_object k (\<lambda>ob. ob\<lparr>o_birth_date := now\<rparr>) s; max_gb = fsub max_gb gb
                              in if fp_lt max_gb (Fin 0) then Inr s
                                 else promotion_loop env free (i + 1) max_gb s))
                      else promotion_loop env free (i + 1) max_gb s
      else Inr s)"
  by pat_completeness auto
termination by (relation "measure (\<lambda>(env, free, i, max_gb, s). MAX_OBJECTS - i)") auto

declare promotion_loop.simps [simp del]

definition policy_promotion :: "act_env \<Rightarrow> 'z actuator_scheme \<Rightarrow> 'z actuator_scheme res" where
  "policy_promotion env s =
     rbind (get_free_dram_space env s) (\<lambda>(free, s). promotion_loop env free 0 chunk_gb s)"

text \<open>
  The loop of \<open>policy_demotion\<close>, from the coldest object up: \<open>n\<close> entries are left, the next is the last of
  them. \<open>min_size_gb\<close> is the \<open>float\<close> 0.1.
\<close>

definition min_size_gb :: fp where
  "min_size_gb = to_float (d_of (1 / 10))"

fun demotion_loop :: "act_env \<Rightarrow> nat \<Rightarrow> fp \<Rightarrow> 'z actuator_scheme \<Rightarrow> 'z actuator_scheme res" where
  "demotion_loop env 0 max_gb s = Inr s"
| "demotion_loop env (Suc i) max_gb s =
     (if i \<ge> MAX_OBJECTS then Inl Out_of_bounds
      else let kv = kv_list s ! i; obj_index = kv_key kv
           in if obj_index < 0 \<or> obj_index \<ge> int MAX_OBJECTS then Inl Out_of_bounds
              else let k = nat obj_index; ob = obj_vector (tm s) k; gb = alloc_size_gb ob 0
                   in if fp_lt min_size_gb gb
                      then rbind (get_my_timestamp (clk env) s) (\<lambda>(now, s).
                           let passed_time = dsub now (o_birth_date ob)
                           in if fp_lt (Fin 5) passed_time \<and> fp_lt (kv_value kv) (hotness_threshold s)
                                 \<and> o_last_decision ob \<noteq> NODE_0_PMEM \<and> obj_alloc (tm s) k = 1
                              then rbind (get_my_timestamp (clk env) s) (\<lambda>(_, s).
                                   let s = s\<lparr>has_demotion := 1\<rparr>;
                                       s = act_bind_order (o_start_addr ob) (o_size ob) NODE_0_PMEM obj_index DEMOTION s;
                                       s = upd_object k (\<lambda>ob. ob\<lparr>o_last_decision := NODE_0_PMEM\<rparr>) s;
                                       max_gb = fsub max_gb gb
                                   in if fp_lt max_gb (Fin 0) then Inr s else demotion_loop env i max_gb s)
                              else demotion_loop env i max_gb s)
                      else demotion_loop env i max_gb s)"

definition policy_demotion :: "act_env \<Rightarrow> 'z actuator_scheme \<Rightarrow> 'z actuator_scheme res" where
  "policy_demotion env s = demotion_loop env (active_obj s) chunk_gb (s\<lparr>has_demotion := 0\<rparr>)"

section \<open>Page status\<close>

text \<open>
  The loop that counts the status values: \<open>g_status_memory_pages\<close> is not cleared before. The last
  position counts the pages on no node.
\<close>

fun count_status :: "nat \<Rightarrow> int list \<Rightarrow> (nat \<Rightarrow> fp) \<Rightarrow> nat \<Rightarrow> fp" where
  "count_status nodes [] v = v"
| "count_status nodes (x # xs) v =
     count_status nodes xs
       (if 0 \<le> x \<and> x < int nodes then v(nat x := fadd (v (nat x)) (Fin 1)) else v(nodes := fadd (v nodes) (Fin 1)))"

definition query_status_memory_pages :: "act_env \<Rightarrow> int \<Rightarrow> u64 \<Rightarrow> u64 \<Rightarrow> 'z actuator_scheme \<Rightarrow> 'z actuator_scheme res" where
  "query_status_memory_pages env pid addr sz s =
     (if sz mod pagesize env \<noteq> 0
      then Inr (s\<lparr>status_pages := \<lambda>i. if i < num_nodes s + 1 then Fin (- 1) else status_pages s i\<rparr>)
      else let page_count = sz div pagesize env; n = unat page_count
           in if \<not> malloc_ok env page_count then Inl (Exit 1)
              else let pages_addr = map (\<lambda>i. addr + of_nat i * pagesize env) [0..<n];
                       status = take n (move_pages env pid pages_addr @ replicate n (- 1));
                       v = count_status (num_nodes s) status (status_pages s)
                   in Inr (s\<lparr>status_pages := \<lambda>i. if i < num_nodes s + 1 then fdiv (v i) (f_ulong page_count) else v i\<rparr>))"

text \<open>\<open>page_status\<close> has four elements.\<close>

function read_status_loop :: "act_env \<Rightarrow> nat \<Rightarrow> 'z actuator_scheme \<Rightarrow> 'z actuator_scheme res" where
  "read_status_loop env i s =
     (if int i < total_obj (tm s)
      then if i \<ge> MAX_OBJECTS then Inl Out_of_bounds
           else if obj_alloc (tm s) i = 1
           then let ob = obj_vector (tm s) i
                in rbind (query_status_memory_pages env (app_pid s) (o_start_addr ob) (o_size ob) s) (\<lambda>s.
                   if num_nodes s \<ge> 4 then Inl Out_of_bounds
                   else read_status_loop env (i + 1)
                     (upd_object i (\<lambda>ob. ob\<lparr>o_page_status := \<lambda>j. if j \<le> num_nodes s then status_pages s j else o_page_status ob j\<rparr>) s))
           else read_status_loop env (i + 1) s
      else Inr s)"
  by pat_completeness auto
termination by (relation "measure (\<lambda>(env, i, s). MAX_OBJECTS - i)") auto

declare read_status_loop.simps [simp del]

definition read_allocation_status :: "act_env \<Rightarrow> 'z actuator_scheme \<Rightarrow> 'z actuator_scheme res" where
  "read_allocation_status env s = read_status_loop env 0 s"

text \<open>\<open>check_migration_error\<close>, for the messages that can be read from \<open>migration_error.pipe\<close>.\<close>

fun check_migration_error :: "data_bind list \<Rightarrow> 'z actuator_scheme \<Rightarrow> 'z actuator_scheme res" where
  "check_migration_error [] s = Inr s"
| "check_migration_error (buf # bufs) s =
     (if d_obj_index buf < 0 \<or> d_obj_index buf \<ge> int MAX_OBJECTS then Inl Out_of_bounds
      else let k = nat (d_obj_index buf)
           in check_migration_error bufs
                (if obj_alloc (tm s) k = 1 \<and> d_type buf \<noteq> INITIAL_DATAPLACEMENT
                 then upd_object k (\<lambda>ob. ob\<lparr>o_last_decision := - 1\<rparr>) s else s))"

section \<open>The thread\<close>

definition actuator_open_pipes :: "int \<Rightarrow> int \<Rightarrow> 'z actuator_scheme \<Rightarrow> 'z actuator_scheme" where
  "actuator_open_pipes w r s = s\<lparr>act_write_fd := guard w, act_read_fd := guard r\<rparr>"

text \<open>\<open>avail\<close> and \<open>max_node\<close> are the results of \<open>numa_available\<close> and \<open>numa_max_node\<close>.\<close>

definition set_number_of_nodes_availables :: "int \<Rightarrow> int \<Rightarrow> 'z actuator_scheme \<Rightarrow> 'z actuator_scheme res" where
  "set_number_of_nodes_availables avail max_node s =
     (if avail < 0 then Inl (Exit (- 1))
      else if max_node + 1 < 2 then Inl (Exit (- 1))
      else Inr (s\<lparr>num_nodes := nat (max_node + 1)\<rparr>))"

text \<open>The contents of the memory that \<open>malloc\<close> returns are indeterminate: \<open>mem\<close>; \<open>None\<close> when it fails.\<close>

definition allocate_vector_status :: "int \<Rightarrow> int \<Rightarrow> (nat \<Rightarrow> fp) option \<Rightarrow> 'z actuator_scheme \<Rightarrow> 'z actuator_scheme res" where
  "allocate_vector_status avail max_node mem s =
     rbind (set_number_of_nodes_availables avail max_node s) (\<lambda>s.
     case mem of None \<Rightarrow> Inl (Exit (- 1)) | Some v \<Rightarrow> Inr (s\<lparr>status_pages := v\<rparr>))"

text \<open>\<open>(2 * CHUNK_SIZE)/GB\<close>.\<close>

definition two_chunks_gb :: fp where
  "two_chunks_gb = ddiv (d_ulong (2 * CHUNK_SIZE)) GB"

text \<open>One turn of the main loop of \<open>thread_actuator\<close>; \<open>cnt\<close> is its variable \<open>count\<close>.\<close>

definition actuator_turn ::
  "act_env \<Rightarrow> ((key_value \<Rightarrow> key_value \<Rightarrow> int) \<Rightarrow> key_value list \<Rightarrow> key_value list) \<Rightarrow> int \<Rightarrow> int \<Rightarrow>
   'z actuator_scheme \<Rightarrow> (int \<times> 'z actuator_scheme) res" where
  "actuator_turn env qs junk cnt s =
     rbind (sort_objects env qs junk s) (\<lambda>s.
     rbind (get_free_dram_space env s) (\<lambda>(free, s).
     rbind (if fp_lt free two_chunks_gb
            then if has_demotion s = 0
                 then rbind (read_allocation_status env s) (\<lambda>s.
                      rbind (policy_demotion env s) (\<lambda>s. Inr (0, s)))
                 else let cnt = cnt + 1
                      in Inr (cnt, if cnt \<ge> 2 then s\<lparr>has_demotion := 0\<rparr> else s)
            else Inr (cnt, s)) (\<lambda>(cnt, s).
     if promotion_flag s = 1
     then rbind (read_allocation_status env s) (\<lambda>s.
          rbind (policy_promotion env s) (\<lambda>s. Inr (cnt, s)))
     else Inr (cnt, s))))"

text \<open>The turns until \<open>g_running_actuator\<close> is 0, each with its own indeterminate value.\<close>

fun actuator_turns ::
  "act_env \<Rightarrow> ((key_value \<Rightarrow> key_value \<Rightarrow> int) \<Rightarrow> key_value list \<Rightarrow> key_value list) \<Rightarrow> int list \<Rightarrow> int \<Rightarrow>
   'z actuator_scheme \<Rightarrow> (int \<times> 'z actuator_scheme) res" where
  "actuator_turns env qs [] cnt s = Inr (cnt, s)"
| "actuator_turns env qs (junk # js) cnt s =
     rbind (actuator_turn env qs junk cnt s) (\<lambda>(cnt, s). actuator_turns env qs js cnt s)"

text \<open>The waiting loop before it; after \<open>n\<close> polls the flag is cleared.\<close>

fun wait_dram :: "act_env \<Rightarrow> nat \<Rightarrow> 'z actuator_scheme \<Rightarrow> 'z actuator_scheme res" where
  "wait_dram env 0 s = rbind (get_free_dram_space env s) (\<lambda>(free, s). Inr s)"
| "wait_dram env (Suc n) s =
     rbind (get_free_dram_space env s) (\<lambda>(free, s).
     if fp_lt two_chunks_gb free then wait_dram env n s else Inr s)"

definition thread_actuator ::
  "act_env \<Rightarrow> ((key_value \<Rightarrow> key_value \<Rightarrow> int) \<Rightarrow> key_value list \<Rightarrow> key_value list) \<Rightarrow> int \<times> int \<Rightarrow> int \<times> int \<Rightarrow>
   (nat \<Rightarrow> fp) option \<Rightarrow> int list \<Rightarrow> nat \<Rightarrow> int list \<Rightarrow> 'z actuator_scheme \<Rightarrow> (int \<times> 'z actuator_scheme) res" where
  "thread_actuator env qs fds numa mem pids polls junks s =
     rbind (allocate_vector_status (fst numa) (snd numa) mem (actuator_open_pipes (fst fds) (snd fds) s)) (\<lambda>s.
     rbind (wait_app_pid pids) (\<lambda>pid.
     rbind (wait_dram env polls (s\<lparr>app_pid := pid\<rparr>)) (\<lambda>s.
     rbind (get_my_timestamp (clk env) s) (\<lambda>(_, s).
     actuator_turns env qs junks 2 (s\<lparr>has_demotion := 0\<rparr>)))))"

end
