(* ===== verification/Monitor_Correct.thy ===== *)
theory Monitor_Correct
  imports Monitor
begin

text \<open>
  Correctness of the monitor: which samples are counted where, that store addresses are counted once
  per key of the hash map, that a period returns, keeps the allocation table and bounds the metrics.
\<close>

unbundle bit_operations_syntax

section \<open>Smoothing\<close>

lemma ALPHA_val: "ALPHA = Fin (5944751508129055 / 2 ^ 54)"
  unfolding ALPHA_def by code_simp

lemma one_minus_ALPHA_val: "one_minus_ALPHA = Fin (6034823500676464 / 2 ^ 53)"
  unfolding one_minus_ALPHA_def ALPHA_def by code_simp

text \<open>Smoothing two values of a range up to a power of two stays in the range, rounding included.\<close>

lemma smooth_in:
  assumes "fp_in 0 (2 ^ k) x" "fp_in 0 (2 ^ k) y" "k \<le> 900"
  shows "fp_in 0 (2 ^ k) (smooth x y)"
proof -
  let ?a = "2 ^ k * (6034823500676464 / 2 ^ 53) :: rat" and ?b = "2 ^ k * (5944751508129055 / 2 ^ 54) :: rat"
  let ?b' = "2 ^ k * (5944751508129056 / 2 ^ 54) :: rat"
  have pw: "pow2 (int k - 53) = 2 ^ k / 2 ^ 53" "pow2 (int k - 54) = 2 ^ k / 2 ^ 54"
    using pow2_add [of "int k - 53" 53] pow2_add [of "int k - 54" 54] pow2_nat [of 53] pow2_nat [of 54] pow2_nat [of k]
    by (simp_all add: field_simps)
  have a: "d_of ?a = Fin ?a" and b: "d_of ?b = Fin ?b"
    by (rule d_of_exact [where m = 6034823500676464 and q = "int k - 53"]; use assms(3) pw in simp)
      (rule d_of_exact [where m = 5944751508129055 and q = "int k - 54"]; use assms(3) pw in simp)
  have c: "d_of (2 ^ k) = Fin (2 ^ k)"
    by (rule d_of_exact [where m = 1 and q = "int k"]; use assms(3) in \<open>simp add: pow2_def\<close>)
  have "fp_in 0 ?a (dmul x one_minus_ALPHA)"
    using assms(1) a unfolding one_minus_ALPHA_val by (intro dbl.mul_in) simp_all
  moreover have "fp_in 0 ?b (dmul y ALPHA)"
    using assms(2) b unfolding ALPHA_val by (intro dbl.mul_in) simp_all
  then have "fp_in 0 ?b' (dmul y ALPHA)" by (rule fp_in_mono) simp_all
  moreover have "?a + ?b' = 2 ^ k" by (simp flip: distrib_left)
  ultimately show ?thesis
    using dbl.add_in [of 0 ?a "dmul x one_minus_ALPHA" 0 ?b' "dmul y ALPHA"] c by (simp add: smooth_def)
qed

section \<open>Updating the metrics\<close>

lemma update_loop_spec:
  assumes "total_obj t \<le> int MAX_OBJECTS"
  shows "update_loop c i t = Inr (t\<lparr>obj_vector := \<lambda>k. if i \<le> k \<and> int k < total_obj t \<and> obj_alloc t k = 1
     then (obj_vector t k)\<lparr>o_metrics := update_object_metrics (o_metrics (obj_vector c k)) (o_metrics (obj_vector t k))\<rparr>
     else obj_vector t k\<rparr>)"
  using assms
proof (induction "nat (total_obj t) - i" arbitrary: i t)
  case 0
  then have "\<not> int i < total_obj t" by simp
  moreover from this have "(\<lambda>k. if i \<le> k \<and> int k < total_obj t \<and> obj_alloc t k = 1
     then (obj_vector t k)\<lparr>o_metrics := update_object_metrics (o_metrics (obj_vector c k)) (o_metrics (obj_vector t k))\<rparr>
     else obj_vector t k) = obj_vector t" by (auto simp: fun_eq_iff)
  ultimately show ?case by (subst update_loop.simps) simp
next
  case (Suc d)
  then have i: "int i < total_obj t" by simp
  let ?v = "if obj_alloc t i = 1 then (obj_vector t)(i := (obj_vector t i)\<lparr>
     o_metrics := update_object_metrics (o_metrics (obj_vector c i)) (o_metrics (obj_vector t i))\<rparr>) else obj_vector t"
  let ?t = "t\<lparr>obj_vector := ?v\<rparr>"
  have "update_loop c i t = update_loop c (i + 1) ?t"
    using i Suc.prems by (subst update_loop.simps) simp
  also have "\<dots> = Inr (?t\<lparr>obj_vector := \<lambda>k. if i + 1 \<le> k \<and> int k < total_obj ?t \<and> obj_alloc ?t k = 1
     then (obj_vector ?t k)\<lparr>o_metrics := update_object_metrics (o_metrics (obj_vector c k)) (o_metrics (obj_vector ?t k))\<rparr>
     else obj_vector ?t k\<rparr>)"
    using Suc by (intro Suc.hyps(1)) simp_all
  also have "\<dots> = Inr (t\<lparr>obj_vector := \<lambda>k. if i \<le> k \<and> int k < total_obj t \<and> obj_alloc t k = 1
     then (obj_vector t k)\<lparr>o_metrics := update_object_metrics (o_metrics (obj_vector c k)) (o_metrics (obj_vector t k))\<rparr>
     else obj_vector t k\<rparr>)"
    using i by (auto simp: fun_eq_iff intro!: arg_cong [where f = "\<lambda>v. t\<lparr>obj_vector := v\<rparr>"])
  finally show ?case .
qed

text \<open>Only the metrics of an object differ.\<close>

definition metrics_only :: "tier_manager \<Rightarrow> tier_manager \<Rightarrow> bool" where
  "metrics_only t t' \<longleftrightarrow> obj_alloc t' = obj_alloc t \<and> total_obj t' = total_obj t
     \<and> (\<forall>i. o_start_addr (obj_vector t' i) = o_start_addr (obj_vector t i) \<and> o_end_addr (obj_vector t' i) = o_end_addr (obj_vector t i)
          \<and> o_size (obj_vector t' i) = o_size (obj_vector t i) \<and> o_obj_index (obj_vector t' i) = o_obj_index (obj_vector t i))"

lemma metrics_only_inv: "metrics_only (tm s) t \<Longrightarrow> rec_inv s \<Longrightarrow> rec_inv (s\<lparr>tm := t\<rparr>)"
  by (auto simp: metrics_only_def rec_inv_def slot_ok_def)

lemma metrics_only_live: "metrics_only (tm s) t \<Longrightarrow> live_slot (s\<lparr>tm := t\<rparr>) = live_slot s"
  by (simp add: metrics_only_def live_slot_def fun_eq_iff)

lemma update_metrics_spec:
  assumes "rec_inv s"
  shows "\<exists>t. update_metrics s = Inr (s\<lparr>tm := t\<rparr>) \<and> metrics_only (tm s) t
    \<and> (\<forall>i. o_metrics (obj_vector t i) = (if i < rec_index s \<and> obj_alloc (tm s) i = 1
         then update_object_metrics (o_metrics (obj_vector (tm_copy s) i)) (o_metrics (obj_vector (tm s) i))
         else o_metrics (obj_vector (tm s) i)))"
proof -
  have tot: "total_obj (tm s) = int (rec_index s)" "total_obj (tm s) \<le> int MAX_OBJECTS" using assms by (simp_all add: rec_inv_def)
  show ?thesis unfolding update_metrics_def update_loop_spec [OF tot(2)] using tot(1)
    by (auto simp: metrics_only_def)
qed

section \<open>Counting samples\<close>

definition all_events :: "mem_event list option list \<Rightarrow> mem_event list" where
  "all_events ms = concat (map (\<lambda>m. case m of None \<Rightarrow> [] | Some evs \<Rightarrow> evs) ms)"

lemma monitor_map_append: "monitor_map pm (xs @ ys) s = rbind (monitor_map pm xs s) (monitor_map pm ys)"
  by (induction xs arbitrary: s) (auto simp: rbind_def split: sum.splits)

lemma monitor_maps_all: "monitor_maps pm ms s = monitor_map pm (all_events ms) s"
  by (induction pm ms s rule: monitor_maps.induct)
    (auto simp: all_events_def monitor_map_append rbind_def split: sum.splits)

text \<open>The samples that count as a load of object \<open>i\<close> at level \<open>l\<close>, and as a store of object \<open>i\<close>.\<close>

fun is_load :: "perf_mem \<Rightarrow> tier_manager \<Rightarrow> nat \<Rightarrow> nat \<Rightarrow> mem_event \<Rightarrow> bool" where
  "is_load pm t i l (Mem_sample e ok) \<longleftrightarrow> get_vector_index t (ms_addr e) = Some i
     \<and> get_data_src_opcode pm (ms_data_src e) = Inr 1 \<and> load_level pm (ms_data_src e) = Some l"
| "is_load pm t i l Mem_other \<longleftrightarrow> False"

definition load_samples :: "perf_mem \<Rightarrow> tier_manager \<Rightarrow> nat \<Rightarrow> nat \<Rightarrow> mem_event list \<Rightarrow> nat" where
  "load_samples pm t i l evs = length (filter (is_load pm t i l) evs)"

text \<open>
  Fresh stores: the store samples of object \<open>i\<close> whose address has no key among those seen before, where
  \<open>keq\<close> is equality of keys.
\<close>

fun fresh_stores :: "perf_mem \<Rightarrow> tier_manager \<Rightarrow> (u64 \<Rightarrow> u64 \<Rightarrow> bool) \<Rightarrow> (u64 \<Rightarrow> bool) \<Rightarrow> nat \<Rightarrow> mem_event list \<Rightarrow> nat" where
  "fresh_stores pm t keq seen i [] = 0"
| "fresh_stores pm t keq seen i (Mem_other # evs) = fresh_stores pm t keq seen i evs"
| "fresh_stores pm t keq seen i (Mem_sample e ok # evs) =
     (case get_vector_index t (ms_addr e) of None \<Rightarrow> fresh_stores pm t keq seen i evs
      | Some j \<Rightarrow>
          if get_data_src_opcode pm (ms_data_src e) = Inr 2 \<and> \<not> seen (ms_addr e)
          then (if j = i then 1 else 0) + fresh_stores pm t keq (\<lambda>a. seen a \<or> keq (ms_addr e) a) i evs
          else fresh_stores pm t keq seen i evs)"

text \<open>
  The key of an address in the store map: \<open>address_compare\<close> never tells two items apart, so two
  addresses are the same key when the low 48 bits of their hashes agree.
\<close>

definition address_key :: "u64 \<Rightarrow> 48 word" where
  "address_key a = ucast (hashmap_sip (u64to8_le a) 0 0)"

definition any_eq :: "bytes \<Rightarrow> bytes \<Rightarrow> bool" where
  "any_eq x y \<longleftrightarrow> True"

lemma address_compare_decides: "cmp_decides address_compare any_eq"
  by (simp add: cmp_decides_def address_compare_def any_eq_def)

lemma any_eq_equivp: "equivp any_eq"
  by (auto simp: any_eq_def intro!: equivpI reflpI sympI transpI)

definition store_inv :: "hashmap \<Rightarrow> bool" where
  "store_inv h \<longleftrightarrow> hm_inv any_eq h \<and> key_eq any_eq h = (\<lambda>x y. (ucast (address_hash x 0 0) :: 48 word) = ucast (address_hash y 0 0))"

definition seen_in :: "hashmap \<Rightarrow> u64 \<Rightarrow> bool" where
  "seen_in h a \<longleftrightarrow> hm_lookup any_eq h (u64to8_le a) \<noteq> None"

lemma store_map_new:
  "\<exists>h. hashmap_new (True, True) 8 0 0 0 address_hash address_compare False = Inr (Some h) \<and> store_inv h
    \<and> size (hm_items h) = 0 \<and> seen_in h = (\<lambda>a. False)"
proof -
  obtain h where h: "hashmap_new (True, True) 8 0 0 0 address_hash address_compare False = Inr (Some h)" "hm_inv any_eq h"
      "hm_items h = {#}" "hm_hash h = address_hash" "hm_seed0 h = 0" "hm_seed1 h = 0"
    using hashmap_new_inv [OF address_compare_decides any_eq_equivp, of 0 8 0 0 address_hash False] by auto
  have "seen_in h = (\<lambda>a. False)"
    using h(3) hm_lookup_None [of any_eq h] by (auto simp: seen_in_def fun_eq_iff)
  with h show ?thesis by (auto simp: store_inv_def key_eq_def h48_def any_eq_def fun_eq_iff)
qed

text \<open>The effect of one store sample, from the laws of the store interface.\<close>

lemma store_set:
  assumes "store_inv h" "size (hm_items h) < hm_limit" "\<not> seen_in h a"
  shows "\<exists>h'. hashmap_set (True, True) h (Some (u64to8_le a)) = Inr (h', None) \<and> store_inv h'
    \<and> size (hm_items h') = Suc (size (hm_items h)) \<and> seen_in h' = (\<lambda>b. seen_in h b \<or> address_key a = address_key b)"
proof -
  have inv: "hm_inv any_eq h" using assms(1) by (simp add: store_inv_def)
  obtain h' where h': "hashmap_set (True, True) h (Some (u64to8_le a)) = Inr (h', None)" "hm_inv any_eq h'" "key_eq any_eq h' = key_eq any_eq h"
      "hm_lookup any_eq h' = (\<lambda>k. if key_eq any_eq h (u64to8_le a) k then Some (u64to8_le a) else hm_lookup any_eq h k)"
      "size (hm_items h') = Suc (size (hm_items h))"
    using hm.put_law [OF inv assms(2), of "u64to8_le a"] assms(3) by (auto simp: seen_in_def)
  have "seen_in h' = (\<lambda>b. seen_in h b \<or> address_key a = address_key b)"
    using h'(4) assms(1) by (auto simp: seen_in_def store_inv_def address_key_def address_hash_def fun_eq_iff)
  with h' assms(1) show ?thesis by (auto simp: store_inv_def)
qed

lemma store_get: "store_inv h \<Longrightarrow> hashmap_get h (Some (u64to8_le a)) = Inr (hm_lookup any_eq h (u64to8_le a))"
  by (simp add: store_inv_def get_lookup)

text \<open>The counters of the copy hold the numbers \<open>L\<close> of loads and \<open>S\<close> of stores.\<close>

definition counts :: "tier_manager \<Rightarrow> (nat \<Rightarrow> nat \<Rightarrow> nat) \<Rightarrow> (nat \<Rightarrow> nat) \<Rightarrow> bool" where
  "counts c L S \<longleftrightarrow> (\<forall>i < MAX_OBJECTS. (\<forall>l < MEM_LEVELS. loads_count (o_metrics (obj_vector c i)) l = Fin (of_nat (L i l)))
     \<and> stores_count (o_metrics (obj_vector c i)) = Fin (of_nat (S i)))"

definition counts_below :: "nat \<Rightarrow> (nat \<Rightarrow> nat \<Rightarrow> nat) \<Rightarrow> (nat \<Rightarrow> nat) \<Rightarrow> bool" where
  "counts_below n L S \<longleftrightarrow> (\<forall>i l. L i l + n < 2 ^ 53 \<and> S i + n < 2 ^ 53)"

lemma count_up: "Suc n < 2 ^ 53 \<Longrightarrow> dadd (Fin (of_nat n)) (Fin 1) = Fin (of_nat (Suc n))"
  using d_of_nat [of "Suc n"] by (simp add: add.commute)

text \<open>Samples whose operation is known and whose allocations, if any, succeed.\<close>

fun good_event :: "perf_mem \<Rightarrow> mem_event \<Rightarrow> bool" where
  "good_event pm (Mem_sample e ok) \<longleftrightarrow> ok = (True, True) \<and> (\<exists>n. get_data_src_opcode pm (ms_data_src e) = Inr n)"
| "good_event pm Mem_other \<longleftrightarrow> True"

lemma load_metrics_counts:
  "stores_count (load_metrics pm e m) = stores_count m"
  "loads_count (load_metrics pm e m) =
    (case load_level pm (ms_data_src e) of None \<Rightarrow> loads_count m | Some l \<Rightarrow> incr (loads_count m) l (Fin 1))"
  by (auto simp: load_metrics_def Let_def split: option.split)

lemma get_vector_index_lt: "get_vector_index t a = Some i \<Longrightarrow> i < MAX_OBJECTS"
  by (auto simp: get_vector_index_def find_Some_iff)

definition key_same :: "u64 \<Rightarrow> u64 \<Rightarrow> bool" where
  "key_same a b \<longleftrightarrow> address_key a = address_key b"

lemma monitor_load:
  assumes "counts (tm_copy s) L S" "counts_below (Suc n) L S" "get_vector_index (tm s) (ms_addr e) = Some j"
  shows "counts (tm_copy (upd_copy j (load_metrics pm e) s))
    (\<lambda>i l. if i = j \<and> load_level pm (ms_data_src e) = Some l then Suc (L i l) else L i l) S"
proof -
  have up: "dadd (Fin (of_nat (L i l))) (Fin 1) = Fin (of_nat (Suc (L i l)))" for i l
    using assms(2) by (intro count_up) (simp add: counts_below_def, meson add_lessD1 le_less_trans not_less_eq_eq)
  show ?thesis
    using assms(1) up by (auto simp: counts_def upd_copy_def load_metrics_counts incr_def split: option.split)
qed

lemma same_state: "store_map s = Some h \<Longrightarrow> s\<lparr>tm_copy := tm_copy s, store_map := Some h\<rparr> = s"
  by (drule sym) simp

lemma monitor_store:
  assumes "store_map s = Some h" "store_inv h" "size (hm_items h) < hm_limit" "counts (tm_copy s) L S"
    "counts_below (Suc n) L S"
  shows "\<exists>c h'. handle_store (True, True) j a s = Inr (s\<lparr>tm_copy := c, store_map := Some h'\<rparr>) \<and> store_inv h'
    \<and> size (hm_items h') \<le> Suc (size (hm_items h))
    \<and> seen_in h' = (if seen_in h a then seen_in h else (\<lambda>b. seen_in h b \<or> key_same a b))
    \<and> counts c L (\<lambda>i. if i = j \<and> \<not> seen_in h a then Suc (S i) else S i)"
proof (cases "seen_in h a")
  case True
  then have "handle_store (True, True) j a s = Inr (s\<lparr>tm_copy := tm_copy s, store_map := Some h\<rparr>)"
    using assms(1) store_get [OF assms(2), of a] unfolding same_state [OF assms(1)]
    by (auto simp: handle_store_def seen_in_def)
  with True assms show ?thesis by (intro exI [of _ "tm_copy s"] exI [of _ h]) simp
next
  case False
  obtain h' where h': "hashmap_set (True, True) h (Some (u64to8_le a)) = Inr (h', None)" "store_inv h'"
      "size (hm_items h') = Suc (size (hm_items h))" "seen_in h' = (\<lambda>b. seen_in h b \<or> key_same a b)"
    using store_set [OF assms(2,3) False] by (auto simp: key_same_def)
  let ?s = "upd_copy j (\<lambda>m. m\<lparr>stores_count := dadd (stores_count m) (Fin 1)\<rparr>) s"
  have "S j + Suc n < 2 ^ 53" using assms(5) by (simp add: counts_below_def)
  then have up: "dadd (Fin (of_nat (S j))) (Fin 1) = Fin (of_nat (Suc (S j)))" by (intro count_up) simp
  have "handle_store (True, True) j a s = Inr (s\<lparr>tm_copy := tm_copy ?s, store_map := Some h'\<rparr>)"
    using False h'(1) assms(1) store_get [OF assms(2), of a] by (simp add: handle_store_def seen_in_def upd_copy_def Let_def)
  moreover have "counts (tm_copy ?s) L (\<lambda>i. if i = j then Suc (S i) else S i)"
    using assms(4) up by (auto simp: counts_def upd_copy_def)
  ultimately show ?thesis using h' False by (intro exI [of _ "tm_copy ?s"] exI [of _ h']) simp
qed

text \<open>One record of the ring buffer: what it adds to the counters, and which keys are seen after it.\<close>

fun seen_after :: "perf_mem \<Rightarrow> tier_manager \<Rightarrow> (u64 \<Rightarrow> bool) \<Rightarrow> mem_event \<Rightarrow> u64 \<Rightarrow> bool" where
  "seen_after pm t seen Mem_other = seen"
| "seen_after pm t seen (Mem_sample e ok) =
     (if get_vector_index t (ms_addr e) \<noteq> None \<and> get_data_src_opcode pm (ms_data_src e) = Inr 2 \<and> \<not> seen (ms_addr e)
      then (\<lambda>b. seen b \<or> key_same (ms_addr e) b) else seen)"

lemma fresh_stores_Cons: "fresh_stores pm t key_same seen i (ev # evs) =
    fresh_stores pm t key_same seen i [ev] + fresh_stores pm t key_same (seen_after pm t seen ev) i evs"
  by (cases ev) (auto split: option.splits)

lemma monitor_event_counts:
  assumes "store_map s = Some h" "store_inv h" "size (hm_items h) < hm_limit" "counts (tm_copy s) L S"
    "counts_below (Suc n) L S" "good_event pm ev"
  shows "\<exists>c h'. monitor_event pm ev s = Inr (s\<lparr>tm_copy := c, store_map := Some h'\<rparr>) \<and> store_inv h'
    \<and> size (hm_items h') \<le> Suc (size (hm_items h)) \<and> seen_in h' = seen_after pm (tm s) (seen_in h) ev
    \<and> counts c (\<lambda>i l. if is_load pm (tm s) i l ev then Suc (L i l) else L i l)
        (\<lambda>i. S i + fresh_stores pm (tm s) key_same (seen_in h) i [ev])"
proof (cases ev)
  case Mem_other
  with assms show ?thesis
    by (intro exI [of _ "tm_copy s"] exI [of _ h]) (simp add: monitor_event_def same_state)
next
  case (Mem_sample e ok)
  obtain oper where oper: "get_data_src_opcode pm (ms_data_src e) = Inr oper" and ok: "ok = (True, True)"
    using assms(6) Mem_sample by auto
  consider "get_vector_index (tm s) (ms_addr e) = None \<or> oper \<notin> {1, 2}"
    | j where "get_vector_index (tm s) (ms_addr e) = Some j" "oper = 1"
    | j where "get_vector_index (tm s) (ms_addr e) = Some j" "oper = 2" by fastforce
  then show ?thesis
  proof cases
    case 1
    then have "monitor_event pm ev s = Inr (s\<lparr>tm_copy := tm_copy s, store_map := Some h\<rparr>)"
      using oper Mem_sample unfolding same_state [OF assms(1)]
      by (auto simp: monitor_event_def monitor_sample_def split: option.splits)
    moreover have "fresh_stores pm (tm s) key_same (seen_in h) i [ev] = 0" "\<not> is_load pm (tm s) i l ev" for i l
      using 1 oper Mem_sample by (auto split: option.splits)
    moreover have "seen_after pm (tm s) (seen_in h) ev = seen_in h" using 1 oper Mem_sample by auto
    ultimately show ?thesis using assms by (intro exI [of _ "tm_copy s"] exI [of _ h]) simp
  next
    case 2
    let ?c = "tm_copy (upd_copy j (load_metrics pm e) s)"
    have "monitor_event pm ev s = Inr (s\<lparr>tm_copy := ?c, store_map := Some h\<rparr>)"
      using 2 oper Mem_sample same_state [of "upd_copy j (load_metrics pm e) s" h] assms(1)
      by (simp add: monitor_event_def monitor_sample_def upd_copy_def)
    moreover have "(\<lambda>i l. if i = j \<and> load_level pm (ms_data_src e) = Some l then Suc (L i l) else L i l) =
        (\<lambda>i l. if is_load pm (tm s) i l ev then Suc (L i l) else L i l)"
      using 2 oper Mem_sample by (auto simp: fun_eq_iff)
    then have "counts ?c (\<lambda>i l. if is_load pm (tm s) i l ev then Suc (L i l) else L i l) S"
      using monitor_load [OF assms(4,5) 2(1), of pm] by simp
    moreover have "fresh_stores pm (tm s) key_same (seen_in h) i [ev] = 0" for i using 2 oper Mem_sample by simp
    moreover have "seen_after pm (tm s) (seen_in h) ev = seen_in h" using 2 oper Mem_sample by simp
    ultimately show ?thesis using assms by (intro exI [of _ ?c] exI [of _ h]) simp
  next
    case 3
    have run: "monitor_event pm ev s = handle_store (True, True) j (ms_addr e) s"
      using 3 oper Mem_sample ok by (simp add: monitor_event_def monitor_sample_def)
    have "\<not> is_load pm (tm s) i l ev" for i l using 3 oper Mem_sample by simp
    moreover have "(\<lambda>i. if i = j \<and> \<not> seen_in h (ms_addr e) then Suc (S i) else S i) =
        (\<lambda>i. S i + fresh_stores pm (tm s) key_same (seen_in h) i [ev])"
      using 3 oper Mem_sample by (auto simp: fun_eq_iff)
    moreover have "seen_after pm (tm s) (seen_in h) ev =
        (if seen_in h (ms_addr e) then seen_in h else (\<lambda>b. seen_in h b \<or> key_same (ms_addr e) b))"
      using 3 oper Mem_sample by simp
    ultimately show ?thesis using monitor_store [OF assms(1-5), of j "ms_addr e"] unfolding run by simp
  qed
qed

lemma monitor_map_counts:
  assumes "store_map s = Some h" "store_inv h" "size (hm_items h) + length evs \<le> hm_limit" "counts (tm_copy s) L S"
    "counts_below (length evs) L S" "list_all (good_event pm) evs"
  shows "\<exists>c h'. monitor_map pm evs s = Inr (s\<lparr>tm_copy := c, store_map := Some h'\<rparr>) \<and> store_inv h'
    \<and> size (hm_items h') \<le> size (hm_items h) + length evs
    \<and> counts c (\<lambda>i l. L i l + load_samples pm (tm s) i l evs)
        (\<lambda>i. S i + fresh_stores pm (tm s) key_same (seen_in h) i evs)"
  using assms
proof (induction evs arbitrary: s h L S)
  case Nil
  then show ?case by (intro exI [of _ "tm_copy s"] exI [of _ h]) (simp add: load_samples_def same_state)
next
  case (Cons ev evs)
  let ?L = "\<lambda>i l. if is_load pm (tm s) i l ev then Suc (L i l) else L i l"
  let ?S = "\<lambda>i. S i + fresh_stores pm (tm s) key_same (seen_in h) i [ev]"
  obtain c h1 where 1: "monitor_event pm ev s = Inr (s\<lparr>tm_copy := c, store_map := Some h1\<rparr>)" "store_inv h1"
      "size (hm_items h1) \<le> Suc (size (hm_items h))" "seen_in h1 = seen_after pm (tm s) (seen_in h) ev" "counts c ?L ?S"
    using monitor_event_counts [OF Cons.prems(1,2) _ Cons.prems(4), of "length evs" pm ev] Cons.prems(3,5,6) by auto
  have one: "fresh_stores pm (tm s) key_same (seen_in h) i [ev] \<le> 1" for i
    by (cases ev) (auto split: option.splits)
  have "?L i l + length evs < 2 ^ 53 \<and> ?S i + length evs < 2 ^ 53" for i l
  proof -
    have "L i l + Suc (length evs) < 2 ^ 53" "S i + Suc (length evs) < 2 ^ 53"
      using Cons.prems(5) by (simp_all add: counts_below_def)
    with one [of i] show ?thesis by (simp split: if_splits del: fresh_stores.simps)
  qed
  then have "counts_below (length evs) ?L ?S" by (simp only: counts_below_def) blast
  then obtain c' h' where 2: "monitor_map pm evs (s\<lparr>tm_copy := c, store_map := Some h1\<rparr>) =
        Inr (s\<lparr>tm_copy := c', store_map := Some h'\<rparr>)" "store_inv h'"
      "size (hm_items h') \<le> size (hm_items h1) + length evs"
      "counts c' (\<lambda>i l. ?L i l + load_samples pm (tm s) i l evs) (\<lambda>i. ?S i + fresh_stores pm (tm s) key_same (seen_in h1) i evs)"
    using Cons.IH [of "s\<lparr>tm_copy := c, store_map := Some h1\<rparr>" h1 ?L ?S] 1 Cons.prems(3,6) by auto
  have "(\<lambda>i l. ?L i l + load_samples pm (tm s) i l evs) = (\<lambda>i l. L i l + load_samples pm (tm s) i l (ev # evs))"
    by (auto simp: load_samples_def fun_eq_iff)
  moreover have "(\<lambda>i. ?S i + fresh_stores pm (tm s) key_same (seen_in h1) i evs) =
      (\<lambda>i. S i + fresh_stores pm (tm s) key_same (seen_in h) i (ev # evs))"
    by (auto simp: fun_eq_iff fresh_stores_Cons [of _ _ _ _ ev evs] 1(4) simp del: fresh_stores.simps)
  ultimately show ?case using 1 2 by (intro exI [of _ c'] exI [of _ h']) auto
qed

lemma counts_clear: "counts (clear_metrics c) (\<lambda>i l. 0) (\<lambda>i. 0)"
  by (simp add: counts_def clear_metrics_def clear_object_def)

text \<open>The addresses of the store samples that hit a live object.\<close>

fun store_addr :: "perf_mem \<Rightarrow> tier_manager \<Rightarrow> mem_event \<Rightarrow> u64 list" where
  "store_addr pm t Mem_other = []"
| "store_addr pm t (Mem_sample e ok) =
     (if get_vector_index t (ms_addr e) \<noteq> None \<and> get_data_src_opcode pm (ms_data_src e) = Inr 2 then [ms_addr e] else [])"

definition store_addrs :: "perf_mem \<Rightarrow> tier_manager \<Rightarrow> mem_event list \<Rightarrow> u64 set" where
  "store_addrs pm t evs = (\<Union>ev \<in> set evs. set (store_addr pm t ev))"

lemma finite_store_addrs [simp]: "finite (store_addrs pm t evs)"
  by (simp add: store_addrs_def)

lemma sum_one: "j < n \<Longrightarrow> (\<Sum>i < n. (if j = i then 1 else 0) + f i) = Suc (\<Sum>i < (n :: nat). f i :: nat)"
  by (simp add: sum.distrib)

lemma fresh_total:
  assumes "\<And>a b. seen a \<Longrightarrow> key_same a b \<Longrightarrow> seen b"
  shows "(\<Sum>i < MAX_OBJECTS. fresh_stores pm t key_same seen i evs) =
    card (address_key ` {a \<in> store_addrs pm t evs. \<not> seen a})"
  using assms
proof (induction evs arbitrary: seen)
  case Nil
  then show ?case by (simp add: store_addrs_def)
next
  case (Cons ev evs)
  show ?case
  proof (cases "\<exists>e ok j. ev = Mem_sample e ok \<and> get_vector_index t (ms_addr e) = Some j
      \<and> get_data_src_opcode pm (ms_data_src e) = Inr 2 \<and> \<not> seen (ms_addr e)")
    case False
    then have "fresh_stores pm t key_same seen i (ev # evs) = fresh_stores pm t key_same seen i evs" for i
      by (cases ev) (auto split: option.splits)
    moreover have "{a \<in> store_addrs pm t (ev # evs). \<not> seen a} = {a \<in> store_addrs pm t evs. \<not> seen a}"
      using False by (cases ev) (auto simp: store_addrs_def)
    ultimately show ?thesis using Cons by simp
  next
    case True
    then obtain e ok j where ev: "ev = Mem_sample e ok" "get_vector_index t (ms_addr e) = Some j"
        "get_data_src_opcode pm (ms_data_src e) = Inr 2" "\<not> seen (ms_addr e)" by blast
    let ?a = "ms_addr e" and ?seen = "\<lambda>a. seen a \<or> key_same (ms_addr e) a"
    let ?K = "address_key ` {a \<in> store_addrs pm t evs. \<not> ?seen a}"
    have "fresh_stores pm t key_same seen i (ev # evs) = (if j = i then 1 else 0) + fresh_stores pm t key_same ?seen i evs" for i
      using ev by simp
    then have "(\<Sum>i < MAX_OBJECTS. fresh_stores pm t key_same seen i (ev # evs)) =
        Suc (\<Sum>i < MAX_OBJECTS. fresh_stores pm t key_same ?seen i evs)"
      using sum_one [OF get_vector_index_lt [OF ev(2)]] by simp
    also have "(\<Sum>i < MAX_OBJECTS. fresh_stores pm t key_same ?seen i evs) = card ?K"
      using Cons.prems by (intro Cons.IH) (auto simp: key_same_def)
    also have "Suc (card ?K) = card (insert (address_key ?a) ?K)"
      by (subst card_insert_disjoint) (auto simp: key_same_def)
    also have "insert (address_key ?a) ?K = address_key ` {a \<in> store_addrs pm t (ev # evs). \<not> seen a}"
      using ev by (auto simp: store_addrs_def key_same_def)
    finally show ?thesis .
  qed
qed

lemma seen_key: "store_inv h \<Longrightarrow> seen_in h a \<Longrightarrow> key_same a b \<Longrightarrow> seen_in h b"
  using lookup_key_cong [of any_eq h "u64to8_le a" "u64to8_le b"]
  by (simp add: store_inv_def seen_in_def key_same_def address_key_def address_hash_def)

section \<open>Properties\<close>

text \<open>The values of the constants and fields in Linux, on a little-endian machine; used in examples.\<close>

definition linux_perf_mem :: perf_mem where
  "linux_perf_mem = \<lparr>pm_op = (\<lambda>d. d AND 31), pm_lvl = (\<lambda>d. drop_bit 5 d AND 16383), pm_dtlb = (\<lambda>d. drop_bit 26 d AND 127),
     OP_NA = 1, OP_LOAD = 2, OP_STORE = 4, OP_PFETCH = 8, OP_EXEC = 16,
     LVL_NA = 1, LVL_HIT = 2, LVL_MISS = 4, LVL_L1 = 8, LVL_LFB = 16, LVL_L2 = 32, LVL_L3 = 64, LVL_LOC_RAM = 128,
     LVL_REM_RAM1 = 256, LVL_REM_RAM2 = 512, LVL_REM_CCE1 = 1024, LVL_REM_CCE2 = 2048, LVL_IO = 4096, LVL_UNC = 8192,
     LVLNUM_PMEM = 14, TLB_HIT = 2, TLB_MISS = 4\<rparr>"

definition start_monitor :: monitor where
  "start_monitor = intercept.extend start_intercept \<lparr>tm_copy = zero_tier_manager, store_map = None\<rparr>"

lemma start_monitor_inv: "rec_inv start_monitor"
  using start_intercept_inv by (simp add: start_monitor_def rec_inv_def intercept.defs start_intercept_def recorder.defs)

text \<open>A load that hit the local memory, with a data TLB hit.\<close>

definition dram_load :: "u64 \<Rightarrow> mem_event" where
  "dram_load a = Mem_sample \<lparr>ms_id = 1, ms_addr = a, ms_weight = 300, ms_data_src = push_bit 26 2 OR push_bit 5 130 OR 2\<rparr> (True, True)"

definition store_event :: "u64 \<Rightarrow> mem_event" where
  "store_event a = Mem_sample \<lparr>ms_id = 1, ms_addr = a, ms_weight = 1, ms_data_src = 4\<rparr> (True, True)"

lemma good_samples: "good_event linux_perf_mem (dram_load a)" "good_event linux_perf_mem (store_event a)"
  by (simp_all add: dram_load_def store_event_def get_data_src_opcode_def linux_perf_mem_def has_def)





text \<open>C25: over a period the stores counted for all objects together are the distinct new keys: a key that
  the map has, or that occurs twice, is not counted again. Two addresses have the same key when the
  low 48 bits of their SipHash agree, whatever the addresses.\<close>

theorem stores_counted_once:
  assumes "store_map s = Some h" "store_inv h" "size (hm_items h) + length evs \<le> hm_limit"
    "list_all (good_event pm) evs" "tm_copy s = clear_metrics c"
  shows "\<exists>c' h' S. monitor_map pm evs s = Inr (s\<lparr>tm_copy := c', store_map := Some h'\<rparr>)
    \<and> (\<forall>i < MAX_OBJECTS. stores_count (o_metrics (obj_vector c' i)) = Fin (of_nat (S i)))
    \<and> (\<Sum>i < MAX_OBJECTS. S i) = card (address_key ` {a \<in> store_addrs pm (tm s) evs. \<not> seen_in h a})"
proof -
  have "counts_below (length evs) (\<lambda>i l. 0) (\<lambda>i. 0)" using assms(3) by (simp add: counts_below_def hm_limit_def)
  then obtain c' h' where run: "monitor_map pm evs s = Inr (s\<lparr>tm_copy := c', store_map := Some h'\<rparr>)"
      and cnt: "counts c' (\<lambda>i l. load_samples pm (tm s) i l evs) (\<lambda>i. fresh_stores pm (tm s) key_same (seen_in h) i evs)"
    using monitor_map_counts [of s h evs "\<lambda>i l. 0" "\<lambda>i. 0" pm] assms counts_clear by auto
  have "(\<Sum>i < MAX_OBJECTS. fresh_stores pm (tm s) key_same (seen_in h) i evs) =
      card (address_key ` {a \<in> store_addrs pm (tm s) evs. \<not> seen_in h a})"
    by (rule fresh_total) (rule seen_key [OF assms(2)])
  with run cnt show ?thesis by (intro exI conjI) (auto simp: counts_def)
qed

theorem stores_counted_once_witness:
  "\<exists>h c' h' S. hashmap_new (True, True) 8 0 0 0 address_hash address_compare False = Inr (Some h)
     \<and> monitor_map linux_perf_mem [store_event 8192, store_event 8192] (start_monitor\<lparr>store_map := Some h\<rparr>)
       = Inr (start_monitor\<lparr>store_map := Some h, tm_copy := c', store_map := Some h'\<rparr>)
     \<and> (\<Sum>i < MAX_OBJECTS. S i :: nat) =
         card (address_key ` {a \<in> store_addrs linux_perf_mem (tm start_monitor) [store_event 8192, store_event 8192]. \<not> seen_in h a})"
proof -
  obtain h where h: "hashmap_new (True, True) 8 0 0 0 address_hash address_compare False = Inr (Some h)" "store_inv h" "size (hm_items h) = 0"
    using store_map_new by blast
  have "tm_copy (start_monitor\<lparr>store_map := Some h\<rparr>) = clear_metrics zero_tier_manager"
    by (simp add: start_monitor_def intercept.defs clear_metrics_def clear_object_def zero_tier_manager_def zero_object_def
        zero_metrics_def cong: if_cong)
  then show ?thesis
    using stores_counted_once [of "start_monitor\<lparr>store_map := Some h\<rparr>" h "[store_event 8192, store_event 8192]" linux_perf_mem
        zero_tier_manager] h good_samples by (auto simp: hm_limit_def)
qed

text \<open>C27: smoothing keeps the metrics bounded: if the counters of the period and the latency sums of an
  object lie between 0 and a power of two up to \<open>2 ^ 900\<close>, so do all its smoothed metrics afterwards, with
  the rounding of every operation taken into account.\<close>

theorem update_metrics_bounded:
  assumes "k \<le> 900" "l < MEM_LEVELS" "fp_in 0 (2 ^ k) (sum_latency_cost m l)"
    "\<forall>v \<in> {sum_latency_cost c l, loads_count c l, tlb_hit c l, tlb_miss c l}. fp_in 0 (2 ^ k) v"
  shows "let m' = update_object_metrics c m in
    \<forall>v \<in> {sum_latency_cost m' l, loads_count m' l, tlb_hit m' l, tlb_miss m' l}. fp_in 0 (2 ^ k) v"
  using assms by (simp add: update_object_metrics_def smooth_in)

theorem update_metrics_bounded_witness:
  "fp_in 0 (2 ^ 40) (loads_count (update_object_metrics (zero_metrics\<lparr>loads_count := \<lambda>_. Fin 7\<rparr>) zero_metrics) 4)"
  using update_metrics_bounded [of 40 4 zero_metrics "zero_metrics\<lparr>loads_count := \<lambda>_. Fin 7\<rparr>"]
  by (simp add: zero_metrics_def Let_def)

text \<open>The smoothed counters have no history of their own: the new \<open>loads_count\<close>, \<open>tlb_hit\<close> and
  \<open>tlb_miss\<close> of an object do not depend on their old values, but on the old latency sum. An object with
  a latency sum of 1000 at the memory level and no access in the period gets a load count of 330.\<close>

theorem update_metrics_forgets_counts:
  "loads_count (update_object_metrics c (m\<lparr>loads_count := v1, tlb_hit := v2, tlb_miss := v3\<rparr>)) 4 =
     loads_count (update_object_metrics c m) 4
   \<and> tlb_hit (update_object_metrics c (m\<lparr>loads_count := v1, tlb_hit := v2, tlb_miss := v3\<rparr>)) 4 = tlb_hit (update_object_metrics c m) 4
   \<and> tlb_miss (update_object_metrics c (m\<lparr>loads_count := v1, tlb_hit := v2, tlb_miss := v3\<rparr>)) 4 = tlb_miss (update_object_metrics c m) 4
   \<and> loads_count (update_object_metrics zero_metrics (zero_metrics\<lparr>sum_latency_cost := \<lambda>_. Fin 1000\<rparr>)) 4 = Fin 330"
proof -
  have "smooth (Fin 0) (Fin 1000) = Fin 330" unfolding smooth_def one_minus_ALPHA_val ALPHA_val by code_simp
  then show ?thesis by (simp add: update_object_metrics_def zero_metrics_def)
qed


text \<open>The five cache tests agree with the combined one, and a load is counted at one of the levels 0 to 3
  exactly when it is not an L3 miss and was served by a cache.\<close>

theorem load_level_cache:
  "(is_served_by_local_cache pm d \<longleftrightarrow> is_served_by_local_cache1 pm d \<or> is_served_by_local_lfb pm d
      \<or> is_served_by_local_cache2 pm d \<or> is_served_by_local_cache3 pm d)
   \<and> ((\<exists>l < 4. load_level pm d = Some l) \<longleftrightarrow> \<not> is_served_by_local_NA_miss pm d \<and> is_served_by_local_cache pm d)
   \<and> load_level pm d \<in> {None, Some 0, Some 1, Some 2, Some 3, Some 4}"
proof (intro conjI)
  have *: "is_served_by_local_cache pm d \<longleftrightarrow> is_served_by_local_cache1 pm d \<or> is_served_by_local_lfb pm d
      \<or> is_served_by_local_cache2 pm d \<or> is_served_by_local_cache3 pm d"
    by (simp add: is_served_by_local_cache_def is_served_by_local_cache1_def is_served_by_local_lfb_def
      is_served_by_local_cache2_def is_served_by_local_cache3_def)
  then show "is_served_by_local_cache pm d \<longleftrightarrow> is_served_by_local_cache1 pm d \<or> is_served_by_local_lfb pm d
      \<or> is_served_by_local_cache2 pm d \<or> is_served_by_local_cache3 pm d" .
  show "(\<exists>l < 4. load_level pm d = Some l) \<longleftrightarrow> \<not> is_served_by_local_NA_miss pm d \<and> is_served_by_local_cache pm d"
    unfolding * load_level_def by simp
  show "load_level pm d \<in> {None, Some 0, Some 1, Some 2, Some 3, Some 4}"
    by (simp add: load_level_def)
qed

text \<open>\<open>PERF_MEM_LVLNUM_PMEM\<close> is a number, not a bit mask: where it has the bit \<open>PERF_MEM_LVL_HIT\<close>, as on
  Linux, every hit passes for one of the local persistent memory, remote ones included.\<close>

theorem pmem_test_is_hit_test:
  assumes "LVLNUM_PMEM pm AND LVL_HIT pm = LVL_HIT pm"
  shows "is_served_by_local_pmem pm d \<longleftrightarrow> has (pm_lvl pm d) (LVL_HIT pm)"
proof -
  have "pm_lvl pm d AND LVL_HIT pm = (pm_lvl pm d AND LVLNUM_PMEM pm) AND LVL_HIT pm"
    unfolding and.assoc assms ..
  then have "has (pm_lvl pm d) (LVL_HIT pm) \<Longrightarrow> has (pm_lvl pm d) (LVLNUM_PMEM pm)"
    by (auto simp: has_def)
  then show ?thesis by (auto simp: is_served_by_local_pmem_def)
qed

theorem pmem_test_is_hit_test_witness:
  "is_served_by_local_pmem linux_perf_mem (push_bit 5 258 OR 2) \<and> \<not> is_served_by_local_memory linux_perf_mem (push_bit 5 258 OR 2)"
  using pmem_test_is_hit_test [of linux_perf_mem "push_bit 5 258 OR 2"]
  by (simp add: linux_perf_mem_def has_def is_served_by_local_memory_def)

end
