(* ===== verification/Actuator_Policy.thy ===== *)
theory Actuator_Policy
  imports Actuator Monitor_Correct
begin

text \<open>
  The two migration policies of the actuator: which requests \<open>policy_promotion\<close> and \<open>policy_demotion\<close> write,
  of which objects, and that the requests of one object alternate between promotion and demotion.
\<close>

unbundle bit_operations_syntax

section \<open>Runs of a policy\<close>

definition request :: "tier_manager \<Rightarrow> bind_type \<Rightarrow> nat \<Rightarrow> nat \<Rightarrow> data_bind" where
  "request t ty node k = \<lparr>d_start_addr = o_start_addr (obj_vector t k), d_size = o_size (obj_vector t k),
     d_nodemask_target_node = push_bit node 1, d_obj_index = int k, d_type = ty, d_flag = 2\<rparr>"

text \<open>
  A policy run from \<open>s\<close> to \<open>s'\<close> requests the migration of the distinct objects \<open>ks\<close> to \<open>node\<close>, records the
  decision in them and changes nothing else of the table but birth dates.
\<close>

definition decided_only :: "nat \<Rightarrow> nat set \<Rightarrow> tier_manager \<Rightarrow> tier_manager \<Rightarrow> bool" where
  "decided_only node K t t' \<longleftrightarrow> obj_alloc t' = obj_alloc t \<and> total_obj t' = total_obj t
     \<and> (\<forall>k. \<exists>birth. obj_vector t' k = (obj_vector t k)\<lparr>o_birth_date := birth,
           o_last_decision := (if k \<in> K then int node else o_last_decision (obj_vector t k))\<rparr>)"

definition same_policy_input :: "'z actuator_scheme \<Rightarrow> 'z actuator_scheme \<Rightarrow> bool" where
  "same_policy_input s s' \<longleftrightarrow> kv_list s' = kv_list s \<and> active_obj s' = active_obj s
     \<and> hotness_threshold s' = hotness_threshold s \<and> act_write_fd s' = act_write_fd s \<and> rec_index s' = rec_index s
     \<and> num_nodes s' = num_nodes s \<and> curr_max_llcm s' = curr_max_llcm s \<and> curr_max_tlbm s' = curr_max_tlbm s
     \<and> curr_max_stores s' = curr_max_stores s \<and> promotion_flag s' = promotion_flag s
     \<and> start_free_DRAM s' = start_free_DRAM s"

definition policy_run :: "(nat \<Rightarrow> bool) \<Rightarrow> bind_type \<Rightarrow> nat \<Rightarrow> nat list \<Rightarrow> 'z actuator_scheme \<Rightarrow> 'z actuator_scheme \<Rightarrow> bool" where
  "policy_run P ty node ks s s' \<longleftrightarrow>
     migration_pipe s' = migration_pipe s @ map (request (tm s) ty node) ks \<and> distinct ks
     \<and> (\<forall>k \<in> set ks. k < MAX_OBJECTS \<and> P k \<and> obj_alloc (tm s) k = 1 \<and> o_last_decision (obj_vector (tm s) k) \<noteq> int node)
     \<and> decided_only node (set ks) (tm s) (tm s') \<and> same_policy_input s s'"

lemma decided_only_refl: "decided_only node {} t t"
proof -
  have "\<exists>birth. ob = ob\<lparr>o_birth_date := birth, o_last_decision := o_last_decision ob\<rparr>" for ob :: object
    by (intro exI [of _ "o_birth_date ob"]) simp
  then show ?thesis by (simp add: decided_only_def)
qed

lemma policy_run_Nil:
  assumes "migration_pipe s' = migration_pipe s" "tm s' = tm s" "same_policy_input s s'"
  shows "policy_run P ty node [] s s'"
  using assms by (simp add: policy_run_def decided_only_refl)

lemma decided_only_trans:
  assumes "decided_only node K t t1" "decided_only node K' t1 t2"
  shows "decided_only node (K \<union> K') t t2"
  unfolding decided_only_def
proof (intro conjI allI)
  fix k
  obtain b where b: "obj_vector t1 k = (obj_vector t k)\<lparr>o_birth_date := b,
      o_last_decision := (if k \<in> K then int node else o_last_decision (obj_vector t k))\<rparr>"
    using assms(1) by (auto simp: decided_only_def)
  obtain b' where b': "obj_vector t2 k = (obj_vector t1 k)\<lparr>o_birth_date := b',
      o_last_decision := (if k \<in> K' then int node else o_last_decision (obj_vector t1 k))\<rparr>"
    using assms(2) by (auto simp: decided_only_def)
  show "\<exists>birth. obj_vector t2 k = (obj_vector t k)\<lparr>o_birth_date := birth,
      o_last_decision := (if k \<in> K \<union> K' then int node else o_last_decision (obj_vector t k))\<rparr>"
    unfolding b' b by (intro exI [of _ b']) simp
qed (use assms in \<open>simp_all add: decided_only_def\<close>)

lemma decided_only_same:
  assumes "decided_only node K t t'"
  shows "o_start_addr (obj_vector t' k) = o_start_addr (obj_vector t k)" "o_size (obj_vector t' k) = o_size (obj_vector t k)"
    "o_page_status (obj_vector t' k) = o_page_status (obj_vector t k)" "obj_alloc t' = obj_alloc t"
    "o_last_decision (obj_vector t' k) = (if k \<in> K then int node else o_last_decision (obj_vector t k))"
    "o_end_addr (obj_vector t' k) = o_end_addr (obj_vector t k)" "o_obj_index (obj_vector t' k) = o_obj_index (obj_vector t k)"
    "o_metrics (obj_vector t' k) = o_metrics (obj_vector t k)" "total_obj t' = total_obj t"
proof -
  obtain b where b: "obj_vector t' k = (obj_vector t k)\<lparr>o_birth_date := b,
      o_last_decision := (if k \<in> K then int node else o_last_decision (obj_vector t k))\<rparr>"
    using assms by (auto simp: decided_only_def)
  show "o_start_addr (obj_vector t' k) = o_start_addr (obj_vector t k)" "o_size (obj_vector t' k) = o_size (obj_vector t k)"
    "o_page_status (obj_vector t' k) = o_page_status (obj_vector t k)" "obj_alloc t' = obj_alloc t"
    "o_last_decision (obj_vector t' k) = (if k \<in> K then int node else o_last_decision (obj_vector t k))"
    "o_end_addr (obj_vector t' k) = o_end_addr (obj_vector t k)" "o_obj_index (obj_vector t' k) = o_obj_index (obj_vector t k)"
    "o_metrics (obj_vector t' k) = o_metrics (obj_vector t k)" "total_obj t' = total_obj t"
    using assms unfolding b by (simp_all add: decided_only_def)
qed

text \<open>One request followed by a run is a run.\<close>

lemma policy_run_Cons:
  assumes "policy_run P ty node [k] s s1" "policy_run P ty node ks s1 s'"
  shows "policy_run P ty node (k # ks) s s'"
proof -
  have d1: "decided_only node {k} (tm s) (tm s1)" and d2: "decided_only node (set ks) (tm s1) (tm s')"
    using assms by (simp_all add: policy_run_def)
  have "k \<notin> set ks" using assms(2) decided_only_same(5) [OF d1, of k] by (auto simp: policy_run_def)
  moreover have "request (tm s1) ty node = request (tm s) ty node"
    by (simp add: request_def decided_only_same [OF d1] fun_eq_iff)
  moreover have "o_last_decision (obj_vector (tm s) j) \<noteq> int node" if "j \<in> set ks" for j
    using assms that decided_only_same(5) [OF d1, of j] by (auto simp: policy_run_def split: if_splits)
  moreover have "decided_only node (set (k # ks)) (tm s) (tm s')" using decided_only_trans [OF d1 d2] by simp
  moreover have "same_policy_input s s'" using assms by (simp add: policy_run_def same_policy_input_def)
  ultimately show ?thesis using assms decided_only_same(4) [OF d1] by (simp add: policy_run_def)
qed

text \<open>A policy can run: its entries are within the arrays, and the pipe is open.\<close>

definition policy_ready :: "'z actuator_scheme \<Rightarrow> bool" where
  "policy_ready s \<longleftrightarrow> active_obj s \<le> MAX_OBJECTS \<and> act_write_fd s \<noteq> - 1
     \<and> (\<forall>i < active_obj s. 0 \<le> kv_key (kv_list s ! i) \<and> kv_key (kv_list s ! i) < int MAX_OBJECTS)"

lemma policy_ready_run: "policy_run P ty node ks s s' \<Longrightarrow> policy_ready s \<Longrightarrow> policy_ready s'"
  by (simp add: policy_run_def policy_ready_def same_policy_input_def)

section \<open>Promotion\<close>

text \<open>What promotion requires of an object, apart from being live and not in DRAM by decision.\<close>

definition promotable :: "fp \<Rightarrow> 'z actuator_scheme \<Rightarrow> nat \<Rightarrow> bool" where
  "promotable free s k \<longleftrightarrow> fp_lt (Fin 0) (alloc_size_gb (obj_vector (tm s) k) 2) \<and> fp_lt (alloc_size_gb (obj_vector (tm s) k) 2) free
     \<and> (\<exists>i < active_obj s. kv_key (kv_list s ! i) = int k \<and> fp_lt (hotness_threshold s) (kv_value (kv_list s ! i)))"

lemma promotable_run: "policy_run P ty node ks s s' \<Longrightarrow> promotable free s' = promotable free s"
  by (auto simp: fun_eq_iff promotable_def policy_run_def same_policy_input_def alloc_size_gb_def decided_only_same)

text \<open>The state after the requests of one object, with the clock readings \<open>c\<close>.\<close>

definition promoted :: "(nat \<Rightarrow> fp) \<Rightarrow> nat \<Rightarrow> 'z actuator_scheme \<Rightarrow> 'z actuator_scheme" where
  "promoted c k s =
     (let ob = obj_vector (tm s) k;
          s1 = upd_object k (\<lambda>ob. ob\<lparr>o_last_decision := 0\<rparr>)
                 (act_bind_order (o_start_addr ob) (o_size ob) 0 (int k) PROMOTION (s\<lparr>ticks := ticks s + 1\<rparr>))
      in upd_object k (\<lambda>ob. ob\<lparr>o_birth_date := c (ticks s1)\<rparr>) (s1\<lparr>ticks := ticks s1 + 1\<rparr>))"

lemma decided_only_upd:
  "decided_only node {k} t (t\<lparr>obj_vector := (obj_vector t)(k := (obj_vector t k)\<lparr>o_last_decision := int node, o_birth_date := b\<rparr>)\<rparr>)"
proof -
  have "\<exists>birth. ob = ob\<lparr>o_birth_date := birth, o_last_decision := o_last_decision ob\<rparr>" for ob :: object
    by (intro exI [of _ "o_birth_date ob"]) simp
  moreover have "\<exists>birth. ob\<lparr>o_last_decision := int node, o_birth_date := b\<rparr> = ob\<lparr>o_birth_date := birth, o_last_decision := int node\<rparr>"
    for ob :: object by (intro exI [of _ b]) simp
  ultimately show ?thesis by (simp add: decided_only_def)
qed

lemma promoted_run:
  assumes "act_write_fd s \<noteq> - 1" "k < MAX_OBJECTS" "P k" "obj_alloc (tm s) k = 1" "o_last_decision (obj_vector (tm s) k) \<noteq> 0"
  shows "policy_run P PROMOTION 0 [k] s (promoted c k s)"
  using assms decided_only_upd [of 0 k "tm s"]
  by (simp add: policy_run_def promoted_def upd_object_def act_bind_order_def Let_def request_def same_policy_input_def)

lemma promotion_loop_run:
  assumes "\<And>n. clk env n = Some (c n)" "policy_ready s"
  shows "\<exists>s' ks. promotion_loop env free i mx s = Inr s' \<and> policy_run (promotable free s) PROMOTION 0 ks s s'
    \<and> has_demotion s' = has_demotion s"
  using assms(2)
proof (induction "active_obj s - i" arbitrary: i mx s)
  case 0
  then show ?case
    by (subst promotion_loop.simps) (auto intro!: exI [of _ "[]"] policy_run_Nil simp: same_policy_input_def)
next
  case (Suc d)
  then have i: "i < active_obj s" by simp
  moreover have "active_obj s \<le> MAX_OBJECTS" using Suc.prems by (simp add: policy_ready_def)
  ultimately have i: "i < active_obj s" "i < MAX_OBJECTS" by simp_all
  let ?kv = "kv_list s ! i" and ?k = "nat (kv_key (kv_list s ! i))"
  let ?gb = "alloc_size_gb (obj_vector (tm s) ?k) 2"
  have key: "0 \<le> kv_key ?kv" "kv_key ?kv < int MAX_OBJECTS" using Suc.prems i by (auto simp: policy_ready_def)
  let ?c = "fp_lt (Fin 0) ?gb \<and> fp_lt ?gb free \<and> o_last_decision (obj_vector (tm s) ?k) \<noteq> 0
    \<and> fp_lt (hotness_threshold s) (kv_value ?kv) \<and> obj_alloc (tm s) ?k = 1"
  show ?case
  proof (cases ?c)
    case False
    then have "promotion_loop env free i mx s = promotion_loop env free (i + 1) mx s"
      using i key by (subst promotion_loop.simps) (auto simp: Let_def)
    then show ?thesis using Suc.hyps(1) [of s "i + 1" mx] Suc.hyps(2) Suc.prems by simp
  next
    case True
    let ?s = "promoted c ?k s"
    have p: "promotable free s ?k"
      unfolding promotable_def using True i key by (intro conjI exI [of _ i]) simp_all
    have run: "policy_run (promotable free s) PROMOTION 0 [?k] s ?s"
      using Suc.prems key True p by (intro promoted_run) (simp_all add: policy_ready_def)
    have step: "promotion_loop env free i mx s =
        (if fp_lt (fsub mx ?gb) (Fin 0) then Inr ?s else promotion_loop env free (i + 1) (fsub mx ?gb) ?s)"
      using i key True by (subst promotion_loop.simps) (simp add: Let_def get_my_timestamp_def assms(1) promoted_def)
    have flag: "has_demotion ?s = has_demotion s" by (simp add: promoted_def upd_object_def act_bind_order_def Let_def)
    show ?thesis
    proof (cases "fp_lt (fsub mx ?gb) (Fin 0)")
      case True
      with step run flag show ?thesis by auto
    next
      case False
      have "d = active_obj ?s - (i + 1)" using run Suc.hyps(2) by (simp add: policy_run_def same_policy_input_def)
      then obtain s' ks where "promotion_loop env free (i + 1) (fsub mx ?gb) ?s = Inr s'"
          "policy_run (promotable free ?s) PROMOTION 0 ks ?s s'" "has_demotion s' = has_demotion ?s"
        using Suc.hyps(1) [of ?s "i + 1" "fsub mx ?gb"] policy_ready_run [OF run Suc.prems] by blast
      with step False policy_run_Cons [OF run] promotable_run [OF run] flag show ?thesis by auto
    qed
  qed
qed

section \<open>Demotion\<close>

definition demotable :: "(nat \<Rightarrow> fp) \<Rightarrow> 'z actuator_scheme \<Rightarrow> nat \<Rightarrow> bool" where
  "demotable c s k \<longleftrightarrow> fp_lt min_size_gb (alloc_size_gb (obj_vector (tm s) k) 0)
     \<and> (\<exists>n. fp_lt (Fin 5) (dsub (c n) (o_birth_date (obj_vector (tm s) k))))
     \<and> (\<exists>i < active_obj s. kv_key (kv_list s ! i) = int k \<and> fp_lt (kv_value (kv_list s ! i)) (hotness_threshold s))"

definition demoted :: "nat \<Rightarrow> 'z actuator_scheme \<Rightarrow> 'z actuator_scheme" where
  "demoted k s =
     (let ob = obj_vector (tm s) k
      in upd_object k (\<lambda>ob. ob\<lparr>o_last_decision := 2\<rparr>)
           (act_bind_order (o_start_addr ob) (o_size ob) 2 (int k) DEMOTION (s\<lparr>ticks := ticks s + 2, has_demotion := 1\<rparr>)))"

lemma demoted_run:
  assumes "act_write_fd s \<noteq> - 1" "k < MAX_OBJECTS" "P k" "obj_alloc (tm s) k = 1" "o_last_decision (obj_vector (tm s) k) \<noteq> 2"
  shows "policy_run P DEMOTION 2 [k] s (demoted k s)"
  using assms decided_only_upd [of 2 k "tm s" "o_birth_date (obj_vector (tm s) k)"]
  by (simp add: policy_run_def demoted_def upd_object_def act_bind_order_def Let_def request_def same_policy_input_def)

lemma demotable_demoted: "demotable c (demoted k s) = demotable c s"
  by (simp add: fun_eq_iff demotable_def demoted_def upd_object_def act_bind_order_def Let_def alloc_size_gb_def)

lemma policy_run_tick: "policy_run P ty node ks (s\<lparr>ticks := n\<rparr>) s' = policy_run P ty node ks s s'"
  by (simp add: policy_run_def same_policy_input_def)

text \<open>The flag says whether there was a request.\<close>

definition flag_after :: "nat list \<Rightarrow> 'z actuator_scheme \<Rightarrow> 'z actuator_scheme \<Rightarrow> bool" where
  "flag_after ks s s' \<longleftrightarrow> has_demotion s' = (if ks = [] then has_demotion s else 1)"

lemma flag_after_tick: "flag_after ks (s\<lparr>ticks := n\<rparr>) s' = flag_after ks s s'"
  by (simp add: flag_after_def)

lemma demotion_loop_run:
  assumes "\<And>n. clk env n = Some (c n)" "policy_ready s" "i \<le> active_obj s"
  shows "\<exists>s' ks. demotion_loop env i mx s = Inr s' \<and> policy_run (demotable c s) DEMOTION 2 ks s s' \<and> flag_after ks s s'"
  using assms(2,3)
proof (induction i arbitrary: mx s)
  case 0
  then show ?case by (auto intro!: exI [of _ "[]"] policy_run_Nil simp: same_policy_input_def flag_after_def)
next
  case (Suc i)
  then have i: "i < active_obj s" "i < MAX_OBJECTS" by (simp_all add: policy_ready_def)
  let ?kv = "kv_list s ! i" and ?k = "nat (kv_key (kv_list s ! i))"
  let ?gb = "alloc_size_gb (obj_vector (tm s) ?k) 0"
  have key: "0 \<le> kv_key ?kv" "kv_key ?kv < int MAX_OBJECTS" using Suc.prems i by (auto simp: policy_ready_def)
  let ?c = "fp_lt (Fin 5) (dsub (c (ticks s)) (o_birth_date (obj_vector (tm s) ?k))) \<and> fp_lt (kv_value ?kv) (hotness_threshold s)
     \<and> o_last_decision (obj_vector (tm s) ?k) \<noteq> 2 \<and> obj_alloc (tm s) ?k = 1"
  show ?case
  proof (cases "fp_lt min_size_gb ?gb \<and> ?c")
    case False
    then obtain n where n: "demotion_loop env (Suc i) mx s = demotion_loop env i mx (s\<lparr>ticks := n\<rparr>)"
    proof (cases "fp_lt min_size_gb ?gb")
      case True
      with False have "\<not> ?c" by blast
      then have "demotion_loop env (Suc i) mx s = demotion_loop env i mx (s\<lparr>ticks := ticks s + 1\<rparr>)"
        using True i key by (auto simp: Let_def get_my_timestamp_def assms(1))
      then show thesis by (rule that)
    next
      case False
      with that [of "ticks s"] show thesis using i key by (simp add: Let_def)
    qed
    have "policy_ready (s\<lparr>ticks := n\<rparr>)" "i \<le> active_obj (s\<lparr>ticks := n\<rparr>)" using Suc.prems i by (simp_all add: policy_ready_def)
    moreover have "demotable c (s\<lparr>ticks := n\<rparr>) = demotable c s" by (simp add: fun_eq_iff demotable_def)
    ultimately show ?thesis using Suc.IH [of "s\<lparr>ticks := n\<rparr>" mx] unfolding n policy_run_tick flag_after_tick by simp
  next
    case True
    let ?s = "demoted ?k s"
    have p: "demotable c s ?k"
      unfolding demotable_def using True i key by (intro conjI exI [of _ i] exI [of _ "ticks s"]) simp_all
    have k: "?k < MAX_OBJECTS" using key by linarith
    have run: "policy_run (demotable c s) DEMOTION 2 [?k] s ?s"
      using Suc.prems k True p by (intro demoted_run) (simp_all add: policy_ready_def)
    have flag: "has_demotion ?s = 1" by (simp add: demoted_def upd_object_def act_bind_order_def Let_def)
    have step: "demotion_loop env (Suc i) mx s =
        (if fp_lt (fsub mx ?gb) (Fin 0) then Inr ?s else demotion_loop env i (fsub mx ?gb) ?s)"
      using i key True by (simp add: Let_def get_my_timestamp_def assms(1) demoted_def)
    show ?thesis
    proof (cases "fp_lt (fsub mx ?gb) (Fin 0)")
      case True
      with step run flag show ?thesis by (intro exI [of _ ?s] exI [of _ "[?k]"]) (simp add: flag_after_def)
    next
      case False
      have "active_obj ?s = active_obj s" using run by (simp add: policy_run_def same_policy_input_def)
      then obtain s' ks where "demotion_loop env i (fsub mx ?gb) ?s = Inr s'"
          "policy_run (demotable c ?s) DEMOTION 2 ks ?s s'" "flag_after ks ?s s'"
        using Suc.IH [of ?s "fsub mx ?gb"] i policy_ready_run [OF run Suc.prems(1)] by auto
      with step False policy_run_Cons [OF run] demotable_demoted [of c ?k s] flag show ?thesis
        by (intro exI [of _ s'] exI [of _ "?k # ks"]) (auto simp: flag_after_def split: if_splits)
    qed
  qed
qed

section \<open>Alternation\<close>

text \<open>The value of \<open>last_decision\<close> that belongs to a request, and the legal sequences of requests of one object.\<close>

definition decision_of :: "data_bind \<Rightarrow> int" where
  "decision_of d = (case d_type d of PROMOTION \<Rightarrow> 0 | DEMOTION \<Rightarrow> 2 | INITIAL_DATAPLACEMENT \<Rightarrow> - 1)"

fun alternate :: "int \<Rightarrow> data_bind list \<Rightarrow> int option" where
  "alternate x [] = Some x"
| "alternate x (d # ds) = (if decision_of d = x \<or> decision_of d = - 1 then None else alternate (decision_of d) ds)"

lemma alternate_append: "alternate x (ds @ es) = (case alternate x ds of None \<Rightarrow> None | Some y \<Rightarrow> alternate y es)"
  by (induction x ds rule: alternate.induct) auto

definition requests_of :: "nat \<Rightarrow> data_bind list \<Rightarrow> data_bind list" where
  "requests_of k ds = filter (\<lambda>d. d_obj_index d = int k) ds"

definition last_of :: "'z actuator_scheme \<Rightarrow> nat \<Rightarrow> int" where
  "last_of s k = o_last_decision (obj_vector (tm s) k)"

text \<open>From \<open>s\<close> to \<open>s'\<close> only requests have been added to the pipe, alternating for every object.\<close>

definition alternating :: "'z actuator_scheme \<Rightarrow> 'z actuator_scheme \<Rightarrow> bool" where
  "alternating s s' \<longleftrightarrow> (\<exists>ds. migration_pipe s' = migration_pipe s @ ds
     \<and> (\<forall>k. alternate (last_of s k) (requests_of k ds) = Some (last_of s' k)))"

lemma alternating_same: "migration_pipe s' = migration_pipe s \<Longrightarrow> last_of s' = last_of s \<Longrightarrow> alternating s s'"
  by (auto simp: alternating_def requests_of_def)

lemma alternating_trans:
  assumes "alternating s s1" "alternating s1 s2"
  shows "alternating s s2"
proof -
  obtain ds where ds: "migration_pipe s1 = migration_pipe s @ ds" "\<And>k. alternate (last_of s k) (requests_of k ds) = Some (last_of s1 k)"
    using assms(1) by (auto simp: alternating_def)
  obtain es where es: "migration_pipe s2 = migration_pipe s1 @ es" "\<And>k. alternate (last_of s1 k) (requests_of k es) = Some (last_of s2 k)"
    using assms(2) by (auto simp: alternating_def)
  show ?thesis unfolding alternating_def
    using ds es by (intro exI [of _ "ds @ es"]) (simp add: requests_of_def alternate_append)
qed

lemma requests_of_run: "distinct ks \<Longrightarrow> requests_of k (map (request t ty node) ks) = (if k \<in> set ks then [request t ty node k] else [])"
  by (induction ks) (auto simp: requests_of_def request_def)

lemma policy_run_alternating:
  assumes "policy_run P ty node ks s s'" "(ty, node) = (PROMOTION, 0) \<or> (ty, node) = (DEMOTION, 2)"
  shows "alternating s s'"
  unfolding alternating_def
proof (intro exI [of _ "map (request (tm s) ty node) ks"] conjI allI)
  show "migration_pipe s' = migration_pipe s @ map (request (tm s) ty node) ks" using assms(1) by (simp add: policy_run_def)
  fix k
  have "distinct ks" "k \<in> set ks \<Longrightarrow> last_of s k \<noteq> int node" "decided_only node (set ks) (tm s) (tm s')"
    using assms(1) by (auto simp: policy_run_def last_of_def)
  then show "alternate (last_of s k) (requests_of k (map (request (tm s) ty node) ks)) = Some (last_of s' k)"
    using assms(2) decided_only_same(5) [of node "set ks" "tm s" "tm s'" k]
    by (auto simp: requests_of_run last_of_def decision_of_def request_def)
qed

end
