(* ===== verification/Actuator_Rank.thy ===== *)
theory Actuator_Rank
  imports Actuator_Policy
begin

text \<open>
  The ranking of \<open>sort_objects\<close>: the contract of \<open>qsort\<close> as a locale, \<open>comp\<close> as an order, the closed form of
  the ranking loop, and the range and order of the hotness values.
\<close>

section \<open>Sorting\<close>

text \<open>\<open>qsort\<close>: a permutation, in the order of the comparison where that is total and transitive.\<close>

definition total_cmp :: "('a \<Rightarrow> 'a \<Rightarrow> int) \<Rightarrow> 'a set \<Rightarrow> bool" where
  "total_cmp cmp A \<longleftrightarrow> (\<forall>x \<in> A. \<forall>y \<in> A. cmp x y \<le> 0 \<or> cmp y x \<le> 0)
     \<and> (\<forall>x \<in> A. \<forall>y \<in> A. \<forall>z \<in> A. cmp x y \<le> 0 \<longrightarrow> cmp y z \<le> 0 \<longrightarrow> cmp x z \<le> 0)"

locale sorter =
  fixes qs :: "('a \<Rightarrow> 'a \<Rightarrow> int) \<Rightarrow> 'a list \<Rightarrow> 'a list"
  assumes qs_mset: "mset (qs cmp xs) = mset xs"
    and qs_sorted: "total_cmp cmp (set xs) \<Longrightarrow> sorted_wrt (\<lambda>x y. cmp x y \<le> 0) (qs cmp xs)"
begin

lemma qs_set: "set (qs cmp xs) = set xs"
  by (metis qs_mset set_mset_mset)

lemma qs_length: "length (qs cmp xs) = length xs"
  by (metis qs_mset size_mset)

lemma qs_nth: "total_cmp cmp (set xs) \<Longrightarrow> i < j \<Longrightarrow> j < length xs \<Longrightarrow> cmp (qs cmp xs ! i) (qs cmp xs ! j) \<le> 0"
  using qs_sorted [of cmp xs] by (simp add: sorted_wrt_iff_nth_less qs_length)

end

text \<open>A concrete sorting function with these laws.\<close>

fun insert_by :: "('a \<Rightarrow> 'a \<Rightarrow> int) \<Rightarrow> 'a \<Rightarrow> 'a list \<Rightarrow> 'a list" where
  "insert_by cmp x [] = [x]"
| "insert_by cmp x (y # ys) = (if cmp x y \<le> 0 then x # y # ys else y # insert_by cmp x ys)"

fun isort_by :: "('a \<Rightarrow> 'a \<Rightarrow> int) \<Rightarrow> 'a list \<Rightarrow> 'a list" where
  "isort_by cmp [] = []"
| "isort_by cmp (x # xs) = insert_by cmp x (isort_by cmp xs)"

lemma mset_insert_by: "mset (insert_by cmp x ys) = add_mset x (mset ys)"
  by (induction ys) auto

lemma mset_isort_by: "mset (isort_by cmp xs) = mset xs"
  by (induction xs) (simp_all add: mset_insert_by)

lemma total_cmp_subset: "total_cmp cmp A \<Longrightarrow> B \<subseteq> A \<Longrightarrow> total_cmp cmp B"
  unfolding total_cmp_def by blast

lemma total_cmp_or: "total_cmp cmp A \<Longrightarrow> x \<in> A \<Longrightarrow> y \<in> A \<Longrightarrow> cmp x y \<le> 0 \<or> cmp y x \<le> 0"
  unfolding total_cmp_def by blast

lemma total_cmp_trans: "total_cmp cmp A \<Longrightarrow> x \<in> A \<Longrightarrow> y \<in> A \<Longrightarrow> z \<in> A \<Longrightarrow> cmp x y \<le> 0 \<Longrightarrow> cmp y z \<le> 0 \<Longrightarrow> cmp x z \<le> 0"
  unfolding total_cmp_def by blast

lemma sorted_insert_by:
  assumes "total_cmp cmp (insert x (set ys))" "sorted_wrt (\<lambda>x y. cmp x y \<le> 0) ys"
  shows "sorted_wrt (\<lambda>x y. cmp x y \<le> 0) (insert_by cmp x ys)"
  using assms
proof (induction ys)
  case (Cons y ys)
  have tot: "total_cmp cmp (insert x (set ys))" using Cons.prems(1) by (rule total_cmp_subset) auto
  have ins: "set (insert_by cmp x ys) = insert x (set ys)" by (metis mset_insert_by set_mset_add_mset_insert set_mset_mset)
  have y: "sorted_wrt (\<lambda>x y. cmp x y \<le> 0) ys" "\<forall>z \<in> set ys. cmp y z \<le> 0" using Cons.prems(2) by simp_all
  show ?case
  proof (cases "cmp x y \<le> 0")
    case True
    have "cmp x z \<le> 0" if "z \<in> set ys" for z
      using total_cmp_trans [OF Cons.prems(1), of x y z] that y True by simp
    with True y show ?thesis by simp
  next
    case False
    then have "cmp y x \<le> 0" using total_cmp_or [OF Cons.prems(1), of x y] by simp
    with False y Cons.IH [OF tot] ins show ?thesis by simp
  qed
qed simp

lemma sorted_isort_by: "total_cmp cmp (set xs) \<Longrightarrow> sorted_wrt (\<lambda>x y. cmp x y \<le> 0) (isort_by cmp xs)"
proof (induction xs)
  case (Cons x xs)
  have "set (isort_by cmp xs) = set xs" by (metis mset_isort_by set_mset_mset)
  moreover have "total_cmp cmp (set xs)" using Cons.prems by (rule total_cmp_subset) auto
  ultimately show ?case using Cons by (simp add: sorted_insert_by)
qed simp

interpretation isort: sorter isort_by
  by unfold_locales (simp_all add: mset_isort_by sorted_isort_by)

text \<open>On finite hotness values \<open>comp\<close> is a total order, the hottest first.\<close>

definition finite_values :: "key_value list \<Rightarrow> bool" where
  "finite_values xs \<longleftrightarrow> (\<forall>x \<in> set xs. fp_in 0 3 (kv_value x))"

lemma comp_total: "finite_values xs \<Longrightarrow> total_cmp comp (set xs)"
proof -
  assume fin: "finite_values xs"
  have le: "comp x y \<le> 0 \<longleftrightarrow> v \<le> u" if "kv_value x = Fin u" "kv_value y = Fin v" for x y u v
    using that by (auto simp: comp_def Let_def)
  have val: "\<exists>u. kv_value x = Fin u" if "x \<in> set xs" for x using fin that by (auto simp: finite_values_def fp_in_iff)
  show ?thesis unfolding total_cmp_def
  proof (intro conjI ballI impI)
    fix x y assume "x \<in> set xs" "y \<in> set xs"
    then obtain u v where "kv_value x = Fin u" "kv_value y = Fin v" using val [of x] val [of y] by auto
    then show "comp x y \<le> 0 \<or> comp y x \<le> 0" using le [of x u y v] le [of y v x u] by linarith
  next
    fix x y z assume "x \<in> set xs" "y \<in> set xs" "z \<in> set xs" and xy: "comp x y \<le> 0" and yz: "comp y z \<le> 0"
    then obtain u v w where "kv_value x = Fin u" "kv_value y = Fin v" "kv_value z = Fin w"
      using val [of x] val [of y] val [of z] by auto
    then show "comp x z \<le> 0" using le [of x u y v] le [of y v z w] le [of x u z w] xy yz by linarith
  qed
qed

lemma comp_le: "comp x y \<le> 0 \<longleftrightarrow> \<not> fp_lt (kv_value x) (kv_value y)"
  by (simp add: comp_def Let_def)

section \<open>Ranking\<close>

text \<open>
  The closed form of the first loop of \<open>sort_objects\<close>: the counters of object \<open>i\<close> are divided by the
  largest values seen so far, in earlier rankings and in the objects up to \<open>i\<close>.
\<close>

fun run_max :: "(nat \<Rightarrow> fp) \<Rightarrow> fp \<Rightarrow> nat \<Rightarrow> fp" where
  "run_max f m 0 = m"
| "run_max f m (Suc i) = raise_max (f i) (run_max f m i)"

definition llcm_of :: "tier_manager \<Rightarrow> nat \<Rightarrow> fp" where
  "llcm_of t i = loads_count (o_metrics (obj_vector t i)) 4"

definition tlbm_of :: "tier_manager \<Rightarrow> nat \<Rightarrow> fp" where
  "tlbm_of t i = tlb_miss (o_metrics (obj_vector t i)) 4"

definition stores_of :: "tier_manager \<Rightarrow> nat \<Rightarrow> fp" where
  "stores_of t i = stores_count (o_metrics (obj_vector t i))"

definition hotness_of :: "'z actuator_scheme \<Rightarrow> nat \<Rightarrow> fp" where
  "hotness_of s i =
     dadd (dadd (ddiv (llcm_of (tm s) i) (run_max (llcm_of (tm s)) (curr_max_llcm s) (Suc i)))
                (ddiv (tlbm_of (tm s) i) (run_max (tlbm_of (tm s)) (curr_max_tlbm s) (Suc i))))
          (ddiv (stores_of (tm s) i) (run_max (stores_of (tm s)) (curr_max_stores s) (Suc i)))"

definition rank_entry :: "'z actuator_scheme \<Rightarrow> nat \<Rightarrow> key_value" where
  "rank_entry s i = \<lparr>kv_key = int i, kv_value = hotness_of s i, kv_llcm = llcm_of (tm s) i,
     kv_stores = stores_of (tm s) i, kv_tlbm = tlbm_of (tm s) i\<rparr>"

definition ranked :: "'z actuator_scheme \<Rightarrow> nat \<Rightarrow> 'z actuator_scheme" where
  "ranked s i = s\<lparr>curr_max_llcm := run_max (llcm_of (tm s)) (curr_max_llcm s) i,
     curr_max_tlbm := run_max (tlbm_of (tm s)) (curr_max_tlbm s) i,
     curr_max_stores := run_max (stores_of (tm s)) (curr_max_stores s) i,
     kv_list := map (rank_entry s) [0..<i] @ drop i (kv_list s)\<rparr>"

lemma ranked_0: "ranked s 0 = s"
  by (simp add: ranked_def)

lemma ranked_Suc:
  assumes "i < length (kv_list s)"
  shows "rank_object i (ranked s i) = (rank_entry s i, (ranked s (Suc i))\<lparr>kv_list := kv_list (ranked s i)\<rparr>)"
    and "(kv_list (ranked s i))[i := rank_entry s i] = kv_list (ranked s (Suc i))"
  using assms
  by (simp_all add: ranked_def rank_object_def Let_def rank_entry_def hotness_of_def llcm_of_def tlbm_of_def stores_of_def
      list_update_append Cons_nth_drop_Suc [symmetric])

lemma rank_loop_live:
  assumes "0 \<le> junk" "junk < int MAX_OBJECTS" "obj_alloc (tm s) (nat junk) = 1" "total_obj (tm s) = int n"
    "n \<le> MAX_OBJECTS" "length (kv_list s) = MAX_OBJECTS" "i \<le> n"
  shows "rank_loop junk i i (ranked s i) = Inr (n, ranked s n)"
  using assms(7)
proof (induction "n - i" arbitrary: i)
  case 0
  then show ?case using assms by (subst rank_loop.simps) (simp add: ranked_def)
next
  case (Suc d)
  then have i: "i < n" "i < length (kv_list s)" using assms by simp_all
  have tm: "tm (ranked s i) = tm s" by (simp add: ranked_def)
  have upd: "(ranked s (Suc i))\<lparr>kv_list := kv_list (ranked s (Suc i))\<rparr> = ranked s (Suc i)" by simp
  have "rank_loop junk i i (ranked s i) = rank_loop junk (i + 1) (i + 1) (ranked s (i + 1))"
    using assms i upd by (subst rank_loop.simps) (simp add: tm ranked_Suc)
  also have "\<dots> = Inr (n, ranked s n)" using Suc by (intro Suc.hyps(1)) simp_all
  finally show ?case .
qed

lemma rank_loop_dead:
  assumes "0 \<le> junk" "junk < int MAX_OBJECTS" "obj_alloc (tm s) (nat junk) \<noteq> 1" "total_obj (tm s) = int n" "n \<le> MAX_OBJECTS" "i \<le> n"
  shows "rank_loop junk i cnt s = Inr (cnt, s)"
  using assms(6)
proof (induction "n - i" arbitrary: i)
  case 0
  then show ?case using assms by (subst rank_loop.simps) simp
next
  case (Suc d)
  then show ?case using assms Suc.hyps(1) [of "Suc i"] by (subst rank_loop.simps) simp
qed

text \<open>Finite, nonnegative counters and positive maxima keep the hotness between 0 and 3.\<close>

fun fp_ge0 :: "fp \<Rightarrow> bool" where
  "fp_ge0 (Fin x) = (0 \<le> x)"
| "fp_ge0 _ = False"

fun fp_gt0 :: "fp \<Rightarrow> bool" where
  "fp_gt0 (Fin x) = (0 < x)"
| "fp_gt0 _ = False"

definition maxima_ok :: "'z actuator_scheme \<Rightarrow> bool" where
  "maxima_ok s \<longleftrightarrow> fp_gt0 (curr_max_llcm s) \<and> fp_gt0 (curr_max_tlbm s) \<and> fp_gt0 (curr_max_stores s)"

definition counters_ok :: "tier_manager \<Rightarrow> bool" where
  "counters_ok t \<longleftrightarrow> (\<forall>i. fp_ge0 (llcm_of t i) \<and> fp_ge0 (tlbm_of t i) \<and> fp_ge0 (stores_of t i))"

lemma raise_max_gt0: "fp_ge0 v \<Longrightarrow> fp_gt0 m \<Longrightarrow> fp_gt0 (raise_max v m)"
  by (cases v; cases m) (auto simp: raise_max_def)

lemma raise_max_ratio: "fp_ge0 v \<Longrightarrow> fp_gt0 m \<Longrightarrow> fp_in 0 1 (ddiv v (raise_max v m))"
  by (cases v; cases m) (auto simp: raise_max_def intro!: dbl.r_between dbl.r_zero)

lemma run_max_gt0: "(\<And>i. fp_ge0 (f i)) \<Longrightarrow> fp_gt0 m \<Longrightarrow> fp_gt0 (run_max f m i)"
  by (induction i) (simp_all add: raise_max_gt0)

lemma run_max_ratio: "(\<And>i. fp_ge0 (f i)) \<Longrightarrow> fp_gt0 m \<Longrightarrow> fp_in 0 1 (ddiv (f i) (run_max f m (Suc i)))"
  by (simp add: raise_max_ratio run_max_gt0)

lemma hotness_in:
  assumes "maxima_ok s" "counters_ok (tm s)"
  shows "fp_in 0 3 (hotness_of s i)"
proof -
  have r: "fp_in 0 1 (ddiv (llcm_of (tm s) i) (run_max (llcm_of (tm s)) (curr_max_llcm s) (Suc i)))"
    "fp_in 0 1 (ddiv (tlbm_of (tm s) i) (run_max (tlbm_of (tm s)) (curr_max_tlbm s) (Suc i)))"
    "fp_in 0 1 (ddiv (stores_of (tm s) i) (run_max (stores_of (tm s)) (curr_max_stores s) (Suc i)))"
    using assms by (auto simp: maxima_ok_def counters_ok_def simp del: run_max.simps intro!: run_max_ratio)
  have "fp_in (0 + 0) (1 + 1) (dadd (ddiv (llcm_of (tm s) i) (run_max (llcm_of (tm s)) (curr_max_llcm s) (Suc i)))
      (ddiv (tlbm_of (tm s) i) (run_max (tlbm_of (tm s)) (curr_max_tlbm s) (Suc i))))"
    using r by (intro dbl.add_in) simp_all
  then have "fp_in (0 + 0) ((1 + 1) + 1) (hotness_of s i)"
    unfolding hotness_of_def using r by (intro dbl.add_in) simp_all
  then show ?thesis by simp
qed

text \<open>
  The sorted array: all values in range, all keys indices, and zero values from position \<open>n\<close> on. The code
  sorts the whole array, of which only the first \<open>n\<close> entries are new; the others are left from earlier
  rankings.
\<close>

definition list_ok :: "nat \<Rightarrow> key_value list \<Rightarrow> bool" where
  "list_ok n xs \<longleftrightarrow> length xs = MAX_OBJECTS \<and> finite_values xs
     \<and> (\<forall>x \<in> set xs. 0 \<le> kv_key x \<and> kv_key x < int MAX_OBJECTS)
     \<and> (\<forall>x \<in> set (drop n xs). kv_value x = Fin 0)"

definition hottest_first :: "key_value list \<Rightarrow> bool" where
  "hottest_first xs \<longleftrightarrow> sorted_wrt (\<lambda>x y. \<not> fp_lt (kv_value x) (kv_value y)) xs"

lemma tail_zero_sorted:
  assumes "mset ys = mset xs" "finite_values ys" "hottest_first ys" "\<forall>x \<in> set (drop n xs). kv_value x = Fin 0"
  shows "\<forall>x \<in> set (drop n ys). kv_value x = Fin 0"
proof
  fix x assume "x \<in> set (drop n ys)"
  then obtain j where "j < length (drop n ys)" "drop n ys ! j = x" by (auto simp: in_set_conv_nth)
  then have j: "n + j < length ys" "ys ! (n + j) = x" by simp_all
  let ?P = "\<lambda>x. kv_value x \<noteq> Fin 0"
  show "kv_value x = Fin 0"
  proof (rule ccontr)
    assume x: "kv_value x \<noteq> Fin 0"
    have "?P y" if y: "y \<in> set (take (n + j + 1) ys)" for y
    proof -
      obtain i where i: "i \<le> n + j" "y = ys ! i" using y j by (auto simp: in_set_conv_nth less_Suc_eq_le)
      have "\<not> fp_lt (kv_value y) (kv_value x)" if "i < n + j"
        using assms(3) i j that by (auto simp: hottest_first_def sorted_wrt_iff_nth_less)
      moreover have "fp_in 0 3 (kv_value x)" using assms(2) j by (auto simp: finite_values_def)
      ultimately show ?thesis using x i j by (cases "i = n + j") (auto simp: fp_in_iff)
    qed
    then have "filter ?P (take (n + j + 1) ys) = take (n + j + 1) ys" by (simp add: filter_id_conv)
    then have "n + j + 1 \<le> length (filter ?P (take (n + j + 1) ys @ drop (n + j + 1) ys))"
      using j unfolding filter_append by simp
    also have "\<dots> = length (filter ?P xs)"
      using assms(1) by (metis append_take_drop_id mset_filter size_mset)
    also have "\<dots> = length (filter ?P (take n xs @ drop n xs))" by simp
    also have "\<dots> \<le> n" using assms(4) unfolding filter_append by (simp add: filter_False le_trans [OF length_filter_le])
    finally show False by simp
  qed
qed

lemma sorted_list_ok:
  assumes "sorter qs" "list_ok n xs"
  shows "list_ok n (qs comp xs) \<and> hottest_first (qs comp xs)"
proof -
  have set: "set (qs comp xs) = set xs" and len: "length (qs comp xs) = length xs" and ms: "mset (qs comp xs) = mset xs"
    using assms(1) by (simp_all add: sorter.qs_set sorter.qs_length sorter.qs_mset)
  have fin: "finite_values (qs comp xs)" using assms(2) set by (simp add: list_ok_def finite_values_def)
  have "total_cmp comp (set xs)" using assms(2) by (intro comp_total) (simp add: list_ok_def)
  then have "sorted_wrt (\<lambda>x y. comp x y \<le> 0) (qs comp xs)" by (rule sorter.qs_sorted [OF assms(1)])
  then have hot: "hottest_first (qs comp xs)" by (simp add: hottest_first_def comp_le)
  have "\<forall>x \<in> set (drop n (qs comp xs)). kv_value x = Fin 0"
    by (rule tail_zero_sorted [OF ms fin hot]) (use assms(2) in \<open>simp add: list_ok_def\<close>)
  then show ?thesis using assms(2) set len fin hot by (simp add: list_ok_def)
qed

lemma ranked_list_ok:
  assumes "list_ok n (kv_list s)" "maxima_ok s" "counters_ok (tm s)" "n \<le> MAX_OBJECTS"
  shows "list_ok n (kv_list (ranked s n))" "maxima_ok (ranked s n)"
proof -
  have "x \<in> set (kv_list s)" if "x \<in> set (drop n (kv_list s))" for x using that by (rule in_set_dropD)
  then show "list_ok n (kv_list (ranked s n))"
    using assms hotness_in [OF assms(2,3)] by (auto simp: list_ok_def ranked_def finite_values_def rank_entry_def)
  show "maxima_ok (ranked s n)"
    using assms by (auto simp: maxima_ok_def counters_ok_def ranked_def intro!: run_max_gt0)
qed

definition sorted_state :: "((key_value \<Rightarrow> key_value \<Rightarrow> int) \<Rightarrow> key_value list \<Rightarrow> key_value list) \<Rightarrow> nat \<Rightarrow> 'z actuator_scheme \<Rightarrow> 'z actuator_scheme" where
  "sorted_state qs n s = s\<lparr>ticks := ticks s + 1, active_obj := n, kv_list := qs comp (kv_list s),
     promotion_flag := (if \<exists>i < n. fp_lt (hotness_threshold s) (kv_value (qs comp (kv_list s) ! i)) then 1 else 0)\<rparr>"

lemma sort_objects_eq:
  assumes "rank_loop junk 0 0 s = Inr (n, s1)" "clk env (ticks s1) = Some now"
  shows "sort_objects env qs junk s = Inr (sorted_state qs n s1)"
  using assms by (simp add: sort_objects_def get_my_timestamp_def Let_def sorted_state_def)

lemma sort_objects_cases:
  assumes "rec_inv s" "length (kv_list s) = MAX_OBJECTS" "\<And>n. clk env n = Some (c n)" "0 \<le> junk" "junk < int MAX_OBJECTS"
  shows "sort_objects env qs junk s = Inr (if obj_alloc (tm s) (nat junk) = 1 then sorted_state qs (rec_index s) (ranked s (rec_index s))
           else sorted_state qs 0 s)"
proof -
  have n: "total_obj (tm s) = int (rec_index s)" "rec_index s \<le> MAX_OBJECTS" using assms(1) by (simp_all add: rec_inv_def)
  show ?thesis
    using rank_loop_live [OF assms(4,5) _ n assms(2), of 0] rank_loop_dead [OF assms(4,5) _ n, of 0 0]
    by (auto simp: ranked_0 assms(3) intro!: sort_objects_eq)
qed

end
