(* ===== verification/Actuator_Correct.thy ===== *)
theory Actuator_Correct
  imports Actuator_Rank
begin

text \<open>
  Correctness of the actuator thread: the page status it computes, the invariant that each turn of its
  loop keeps, and the properties of the ranking, of the policies and of sequences of turns.
\<close>

section \<open>Page status\<close>

text \<open>Only page status values differ.\<close>

definition status_only :: "tier_manager \<Rightarrow> tier_manager \<Rightarrow> bool" where
  "status_only t t' \<longleftrightarrow> obj_alloc t' = obj_alloc t \<and> total_obj t' = total_obj t
     \<and> (\<forall>k. \<exists>v. obj_vector t' k = (obj_vector t k)\<lparr>o_page_status := v\<rparr>)"

lemma status_only_refl: "status_only t t"
proof -
  have "\<exists>v. ob = ob\<lparr>o_page_status := v\<rparr>" for ob :: object by (intro exI [of _ "o_page_status ob"]) simp
  then show ?thesis by (simp add: status_only_def)
qed

lemma status_only_trans:
  assumes "status_only t t1" "status_only t1 t2"
  shows "status_only t t2"
  unfolding status_only_def
proof (intro conjI allI)
  fix k
  obtain v where "obj_vector t1 k = (obj_vector t k)\<lparr>o_page_status := v\<rparr>" using assms(1) by (auto simp: status_only_def)
  moreover obtain v' where "obj_vector t2 k = (obj_vector t1 k)\<lparr>o_page_status := v'\<rparr>" using assms(2) by (auto simp: status_only_def)
  ultimately show "\<exists>v. obj_vector t2 k = (obj_vector t k)\<lparr>o_page_status := v\<rparr>" by (intro exI [of _ v']) simp
qed (use assms in \<open>simp_all add: status_only_def\<close>)

lemma status_only_same:
  assumes "status_only t t'"
  shows "o_start_addr (obj_vector t' k) = o_start_addr (obj_vector t k)" "o_size (obj_vector t' k) = o_size (obj_vector t k)"
    "obj_alloc t' = obj_alloc t" "o_last_decision (obj_vector t' k) = o_last_decision (obj_vector t k)"
    "o_end_addr (obj_vector t' k) = o_end_addr (obj_vector t k)" "o_obj_index (obj_vector t' k) = o_obj_index (obj_vector t k)"
    "o_metrics (obj_vector t' k) = o_metrics (obj_vector t k)" "total_obj t' = total_obj t"
proof -
  obtain v where v: "obj_vector t' k = (obj_vector t k)\<lparr>o_page_status := v\<rparr>" using assms by (auto simp: status_only_def)
  show "o_start_addr (obj_vector t' k) = o_start_addr (obj_vector t k)" "o_size (obj_vector t' k) = o_size (obj_vector t k)"
    "obj_alloc t' = obj_alloc t" "o_last_decision (obj_vector t' k) = o_last_decision (obj_vector t k)"
    "o_end_addr (obj_vector t' k) = o_end_addr (obj_vector t k)" "o_obj_index (obj_vector t' k) = o_obj_index (obj_vector t k)"
    "o_metrics (obj_vector t' k) = o_metrics (obj_vector t k)" "total_obj t' = total_obj t"
    using assms unfolding v by (simp_all add: status_only_def)
qed

lemma query_status_returns:
  assumes "\<And>n. malloc_ok env n"
  shows "\<exists>v. query_status_memory_pages env pid addr sz s = Inr (s\<lparr>status_pages := v\<rparr>)"
  using assms by (simp add: query_status_memory_pages_def Let_def) blast

lemma read_status_loop_run:
  assumes "\<And>n. malloc_ok env n" "num_nodes s < 4" "total_obj (tm s) = int n" "n \<le> MAX_OBJECTS"
  shows "\<exists>t v. read_status_loop env i s = Inr (s\<lparr>status_pages := v, tm := t\<rparr>) \<and> status_only (tm s) t"
  using assms(2,3)
proof (induction "n - i" arbitrary: i s)
  case 0
  then show ?case
    by (subst read_status_loop.simps) (auto intro!: exI [of _ "tm s"] exI [of _ "status_pages s"] simp: status_only_refl)
next
  case (Suc d)
  then have i: "i < n" "i < MAX_OBJECTS" using assms(4) by simp_all
  show ?case
  proof (cases "obj_alloc (tm s) i = 1")
    case False
    have "read_status_loop env i s = read_status_loop env (i + 1) s"
      using False i Suc.prems by (subst read_status_loop.simps) simp
    then show ?thesis using Suc.hyps(1) [of "i + 1" s] Suc.hyps(2) Suc.prems by simp
  next
    case True
    obtain v where v: "query_status_memory_pages env (app_pid s) (o_start_addr (obj_vector (tm s) i)) (o_size (obj_vector (tm s) i)) s
        = Inr (s\<lparr>status_pages := v\<rparr>)" using query_status_returns [OF assms(1)] by blast
    let ?t = "(tm s)\<lparr>obj_vector := (obj_vector (tm s))(i := (obj_vector (tm s) i)
        \<lparr>o_page_status := \<lambda>j. if j \<le> num_nodes s then v j else o_page_status (obj_vector (tm s) i) j\<rparr>)\<rparr>"
    let ?s = "s\<lparr>status_pages := v, tm := ?t\<rparr>"
    have "\<exists>w. ob = ob\<lparr>o_page_status := w\<rparr>" for ob :: object by (intro exI [of _ "o_page_status ob"]) simp
    then have st: "status_only (tm s) ?t" by (auto simp: status_only_def)
    have step: "read_status_loop env i s = read_status_loop env (i + 1) ?s"
      using True i v Suc.prems by (subst read_status_loop.simps) (simp add: Let_def upd_object_def cong: if_cong)
    have "d = n - (i + 1)" using Suc.hyps(2) by simp
    then obtain t' v' where "read_status_loop env (i + 1) ?s = Inr (?s\<lparr>status_pages := v', tm := t'\<rparr>)" "status_only (tm ?s) t'"
      using Suc.hyps(1) [of "i + 1" ?s] Suc.prems by auto
    then show ?thesis unfolding step using status_only_trans [OF st, of t'] by (intro exI [of _ t'] exI [of _ v']) simp
  qed
qed

section \<open>Turns of the actuator\<close>

text \<open>What the thread relies on: the system calls succeed, and the machine has fewer than four nodes.\<close>

definition env_ok :: "act_env \<Rightarrow> bool" where
  "env_ok env \<longleftrightarrow> (\<forall>n. clk env n \<noteq> None) \<and> (\<forall>n. numastat env n \<noteq> None) \<and> (\<forall>n. malloc_ok env n)"

definition act_inv :: "'z actuator_scheme \<Rightarrow> bool" where
  "act_inv s \<longleftrightarrow> rec_inv s \<and> list_ok (rec_index s) (kv_list s) \<and> maxima_ok s \<and> counters_ok (tm s)
     \<and> act_write_fd s \<noteq> - 1 \<and> num_nodes s < 4"

lemma env_clk: "env_ok env \<Longrightarrow> clk env n = Some (the (clk env n))"
  by (simp add: env_ok_def)

text \<open>A step of the thread: it keeps the invariant and the live slots, and its requests alternate.\<close>

definition act_step :: "'z actuator_scheme \<Rightarrow> 'z actuator_scheme \<Rightarrow> bool" where
  "act_step s s' \<longleftrightarrow> act_inv s' \<and> live_slot s' = live_slot s \<and> rec_index s' = rec_index s \<and> alternating s s'"

lemma act_step_trans: "act_step s s1 \<Longrightarrow> act_step s1 s2 \<Longrightarrow> act_step s s2"
  using alternating_trans by (auto simp: act_step_def)

definition policy_input_ok :: "'z actuator_scheme \<Rightarrow> bool" where
  "policy_input_ok s \<longleftrightarrow> act_inv s \<and> active_obj s \<le> MAX_OBJECTS"

lemma policy_input_ready: "policy_input_ok s \<Longrightarrow> policy_ready s"
  by (auto simp: policy_input_ok_def act_inv_def list_ok_def policy_ready_def)

lemma policy_run_step:
  assumes "policy_input_ok s" "policy_run P ty node ks s s'" "(ty, node) = (PROMOTION, 0) \<or> (ty, node) = (DEMOTION, 2)"
  shows "act_step s s' \<and> policy_input_ok s'"
proof -
  have d: "decided_only node (set ks) (tm s) (tm s')" "same_policy_input s s'" using assms(2) by (simp_all add: policy_run_def)
  have "act_inv s'"
    using assms(1) d(2) decided_only_same [OF d(1)]
    by (simp add: maxima_ok_def policy_input_ok_def act_inv_def same_policy_input_def rec_inv_def slot_ok_def counters_ok_def
        llcm_of_def tlbm_of_def stores_of_def)
  moreover have "live_slot s' = live_slot s" using decided_only_same [OF d(1)] by (simp add: live_slot_def fun_eq_iff)
  ultimately show ?thesis using assms d policy_run_alternating [OF assms(2,3)]
    by (simp add: act_step_def policy_input_ok_def same_policy_input_def)
qed

lemma act_step_refl: "act_inv s \<Longrightarrow> act_step s s"
  by (simp add: act_step_def alternating_same)

text \<open>Changes of fields that the invariant does not mention.\<close>

lemma act_step_frame [frame_simps]:
  "act_step s1 (s\<lparr>ticks := n\<rparr>) = act_step s1 s" "act_step s1 (s\<lparr>numa_reads := n\<rparr>) = act_step s1 s"
  "act_step s1 (s\<lparr>has_demotion := x\<rparr>) = act_step s1 s" "act_step s1 (s\<lparr>status_pages := v\<rparr>) = act_step s1 s"
  "act_step s1 (s\<lparr>active_obj := n\<rparr>) = act_step s1 s" "act_step s1 (s\<lparr>promotion_flag := x\<rparr>) = act_step s1 s"
  by (simp_all add: act_step_def act_inv_def rec_inv_def maxima_ok_def live_slot_def alternating_def last_of_def fun_eq_iff)

lemma policy_input_frame [frame_simps]:
  "policy_input_ok (s\<lparr>ticks := n\<rparr>) = policy_input_ok s" "policy_input_ok (s\<lparr>numa_reads := n\<rparr>) = policy_input_ok s"
  "policy_input_ok (s\<lparr>has_demotion := x\<rparr>) = policy_input_ok s" "policy_input_ok (s\<lparr>status_pages := v\<rparr>) = policy_input_ok s"
  by (simp_all add: policy_input_ok_def act_inv_def rec_inv_def maxima_ok_def)

lemma policy_run_frame [frame_simps]:
  "policy_run P ty node ks (s\<lparr>ticks := n\<rparr>) s' = policy_run P ty node ks s s'"
  "policy_run P ty node ks (s\<lparr>numa_reads := m\<rparr>) s' = policy_run P ty node ks s s'"
  "policy_run P ty node ks (s\<lparr>has_demotion := x\<rparr>) s' = policy_run P ty node ks s s'"
  by (simp_all add: policy_run_def same_policy_input_def)

lemma policy_ready_frame [frame_simps]:
  "policy_ready (s\<lparr>ticks := n\<rparr>) = policy_ready s" "policy_ready (s\<lparr>numa_reads := n\<rparr>) = policy_ready s"
  "policy_ready (s\<lparr>has_demotion := x\<rparr>) = policy_ready s"
  by (simp_all add: policy_ready_def)

definition free_dram :: "act_env \<Rightarrow> 'z actuator_scheme \<Rightarrow> fp" where
  "free_dram env s = to_float (dsub (start_free_DRAM s) (ddiv (the (numastat env (numa_reads s))) (Fin 1000)))"

lemma get_free_dram_eq:
  assumes "env_ok env"
  shows "get_free_dram_space env s = Inr (free_dram env s, s\<lparr>numa_reads := numa_reads s + 1, ticks := ticks s + 1\<rparr>)"
proof -
  have "clk env (ticks s) \<noteq> None" "numastat env (numa_reads s) \<noteq> None" using assms by (auto simp: env_ok_def simp del: not_None_eq)
  then obtain u v where "numastat env (numa_reads s) = Some u" "clk env (ticks s) = Some v" by auto
  then show ?thesis by (simp add: get_free_dram_space_def get_my_timestamp_def free_dram_def)
qed

lemma policy_promotion_run:
  assumes "env_ok env" "policy_ready s"
  shows "\<exists>s' ks. policy_promotion env s = Inr s' \<and> policy_run (promotable (free_dram env s) s) PROMOTION 0 ks s s'
    \<and> has_demotion s' = has_demotion s"
proof -
  let ?s = "s\<lparr>numa_reads := numa_reads s + 1, ticks := ticks s + 1\<rparr>"
  have "promotable free ?s = promotable free s" for free by (simp add: promotable_def fun_eq_iff)
  moreover have "policy_ready ?s" using assms(2) by (simp add: frame_simps)
  ultimately show ?thesis
    using promotion_loop_run [of env "\<lambda>n. the (clk env n)" ?s "free_dram env s" 0 chunk_gb] env_clk [OF assms(1)]
    by (simp add: policy_promotion_def get_free_dram_eq [OF assms(1)] frame_simps)
qed

lemma policy_demotion_run:
  assumes "env_ok env" "policy_ready s"
  shows "\<exists>s' ks. policy_demotion env s = Inr s' \<and> policy_run (demotable (\<lambda>n. the (clk env n)) s) DEMOTION 2 ks s s'
    \<and> has_demotion s' = (if ks = [] then 0 else 1)"
proof -
  let ?s = "s\<lparr>has_demotion := 0\<rparr>"
  have "demotable c ?s = demotable c s" for c by (simp add: demotable_def fun_eq_iff)
  moreover have "policy_ready ?s" using assms(2) by (simp add: frame_simps)
  ultimately obtain s' ks where "demotion_loop env (active_obj s) chunk_gb ?s = Inr s'"
      "policy_run (demotable (\<lambda>n. the (clk env n)) s) DEMOTION 2 ks s s'" "flag_after ks ?s s'"
    using demotion_loop_run [of env "\<lambda>n. the (clk env n)" ?s "active_obj s" chunk_gb] env_clk [OF assms(1)]
    by (auto simp: frame_simps)
  then show ?thesis by (intro exI [of _ s'] exI [of _ ks]) (simp add: policy_demotion_def flag_after_def)
qed

lemma read_allocation_status_step:
  assumes "env_ok env" "policy_input_ok s"
  shows "\<exists>t v. read_allocation_status env s = Inr (s\<lparr>status_pages := v, tm := t\<rparr>) \<and> status_only (tm s) t
    \<and> act_step s (s\<lparr>status_pages := v, tm := t\<rparr>) \<and> policy_input_ok (s\<lparr>status_pages := v, tm := t\<rparr>)"
proof -
  have n: "total_obj (tm s) = int (rec_index s)" "rec_index s \<le> MAX_OBJECTS" "num_nodes s < 4"
    using assms(2) by (simp_all add: policy_input_ok_def act_inv_def rec_inv_def)
  obtain t v where t: "read_status_loop env 0 s = Inr (s\<lparr>status_pages := v, tm := t\<rparr>)" "status_only (tm s) t"
    using read_status_loop_run [OF _ n(3,1,2), of env 0] assms(1) by (auto simp: env_ok_def)
  let ?s = "s\<lparr>status_pages := v, tm := t\<rparr>"
  have inv: "act_inv ?s" using assms(2) status_only_same [OF t(2)]
    by (simp add: policy_input_ok_def act_inv_def rec_inv_def slot_ok_def counters_ok_def llcm_of_def tlbm_of_def stores_of_def maxima_ok_def)
  moreover have "alternating s ?s" using status_only_same [OF t(2)] by (intro alternating_same) (simp_all add: last_of_def fun_eq_iff)
  moreover have "live_slot ?s = live_slot s" using status_only_same [OF t(2)] by (simp add: live_slot_def fun_eq_iff)
  moreover have "policy_input_ok ?s" using inv assms(2) by (simp add: policy_input_ok_def)
  ultimately show ?thesis using t by (auto simp: read_allocation_status_def act_step_def)
qed

definition same_cooling :: "'z actuator_scheme \<Rightarrow> 'z actuator_scheme \<Rightarrow> bool" where
  "same_cooling s s' \<longleftrightarrow> has_demotion s' = has_demotion s \<and> start_free_DRAM s' = start_free_DRAM s"

lemma status_then_promotion:
  assumes "env_ok env" "policy_input_ok s"
  shows "\<exists>s'. rbind (read_allocation_status env s) (\<lambda>s. rbind (policy_promotion env s) (\<lambda>s. Inr (cnt, s))) = Inr (cnt, s')
    \<and> act_step s s' \<and> policy_input_ok s' \<and> same_cooling s s'"
proof -
  obtain s1 where s1: "read_allocation_status env s = Inr s1" "act_step s s1" "policy_input_ok s1" "same_cooling s s1"
    using read_allocation_status_step [OF assms] by (auto simp: same_cooling_def)
  obtain s2 ks where s2: "policy_promotion env s1 = Inr s2" "policy_run (promotable (free_dram env s1) s1) PROMOTION 0 ks s1 s2"
      "has_demotion s2 = has_demotion s1"
    using policy_promotion_run [OF assms(1) policy_input_ready [OF s1(3)]] by auto
  have "same_cooling s s2" using s1(4) s2(2,3) by (simp add: same_cooling_def policy_run_def same_policy_input_def)
  then show ?thesis using s1 s2 policy_run_step [OF s1(3) s2(2)] act_step_trans by auto
qed

lemma status_then_demotion:
  assumes "env_ok env" "policy_input_ok s"
  shows "\<exists>s'. rbind (read_allocation_status env s) (\<lambda>s. rbind (policy_demotion env s) (\<lambda>s. Inr (0, s))) = Inr (0, s')
    \<and> act_step s s' \<and> policy_input_ok s'"
proof -
  obtain s1 where s1: "read_allocation_status env s = Inr s1" "act_step s s1" "policy_input_ok s1"
    using read_allocation_status_step [OF assms] by auto
  obtain s2 ks where s2: "policy_demotion env s1 = Inr s2" "policy_run (demotable (\<lambda>n. the (clk env n)) s1) DEMOTION 2 ks s1 s2"
    using policy_demotion_run [OF assms(1) policy_input_ready [OF s1(3)]] by auto
  then show ?thesis using s1 policy_run_step [OF s1(3) s2(2)] act_step_trans by auto
qed

lemma sorted_state_step:
  assumes "sorter qs" "act_inv s" "n \<le> MAX_OBJECTS"
  shows "act_step s (sorted_state qs n s) \<and> policy_input_ok (sorted_state qs n s)"
proof -
  have "list_ok (rec_index s) (qs comp (kv_list s))" using sorted_list_ok [OF assms(1)] assms(2) by (simp add: act_inv_def)
  then have "act_inv (sorted_state qs n s)" using assms(2)
    by (simp add: sorted_state_def act_inv_def rec_inv_def maxima_ok_def)
  moreover have "alternating s (sorted_state qs n s)" by (rule alternating_same) (simp_all add: sorted_state_def last_of_def fun_eq_iff)
  ultimately show ?thesis using assms(3)
    by (simp add: act_step_def policy_input_ok_def) (simp add: sorted_state_def live_slot_def fun_eq_iff)
qed

lemma ranked_step:
  assumes "act_inv s" "n = rec_index s"
  shows "act_step s (ranked s n)"
proof -
  have "list_ok n (kv_list (ranked s n))" "maxima_ok (ranked s n)"
    using ranked_list_ok [of n s] assms by (simp_all add: act_inv_def rec_inv_def)
  then have "act_inv (ranked s n)" using assms by (simp add: act_inv_def) (simp add: ranked_def rec_inv_def)
  moreover have "alternating s (ranked s n)" by (rule alternating_same) (simp_all add: ranked_def last_of_def fun_eq_iff)
  ultimately show ?thesis by (simp add: act_step_def) (simp add: ranked_def live_slot_def fun_eq_iff)
qed

lemma sort_objects_step:
  assumes "sorter qs" "env_ok env" "act_inv s" "0 \<le> junk" "junk < int MAX_OBJECTS"
  shows "\<exists>s'. sort_objects env qs junk s = Inr s' \<and> act_step s s' \<and> policy_input_ok s' \<and> same_cooling s s'"
proof -
  have l: "length (kv_list s) = MAX_OBJECTS" and r: "rec_inv s" "rec_index s \<le> MAX_OBJECTS"
    using assms(3) by (simp_all add: act_inv_def list_ok_def rec_inv_def)
  let ?r = "ranked s (rec_index s)"
  have ranked: "act_step s ?r" "act_inv ?r" using ranked_step [OF assms(3) refl] by (simp_all add: act_step_def)
  then have "act_step s (sorted_state qs (rec_index s) ?r)" "policy_input_ok (sorted_state qs (rec_index s) ?r)"
    using sorted_state_step [OF assms(1) ranked(2) r(2)] act_step_trans by auto
  moreover have "same_cooling s (sorted_state qs (rec_index s) ?r)" "same_cooling s (sorted_state qs 0 s)"
    by (simp_all add: same_cooling_def sorted_state_def ranked_def)
  ultimately show ?thesis
    using sort_objects_cases [OF r(1) l env_clk [OF assms(2)] assms(4,5)] sorted_state_step [OF assms(1,3), of 0]
    by (cases "obj_alloc (tm s) (nat junk) = 1") auto
qed

lemma actuator_turn_step:
  assumes "sorter qs" "env_ok env" "act_inv s" "0 \<le> junk" "junk < int MAX_OBJECTS"
  shows "\<exists>cnt' s'. actuator_turn env qs junk cnt s = Inr (cnt', s') \<and> act_step s s'"
proof -
  obtain s1 where s1: "sort_objects env qs junk s = Inr s1" "act_step s s1" "policy_input_ok s1"
    using sort_objects_step [OF assms] by blast
  let ?s2 = "s1\<lparr>numa_reads := numa_reads s1 + 1, ticks := ticks s1 + 1\<rparr>"
  have s2: "act_step s ?s2" "policy_input_ok ?s2" using s1 by (simp_all add: frame_simps)
  let ?dem = "if fp_lt (free_dram env s1) two_chunks_gb
      then if has_demotion ?s2 = 0
           then rbind (read_allocation_status env ?s2) (\<lambda>s. rbind (policy_demotion env s) (\<lambda>s. Inr (0, s)))
           else let cnt = cnt + 1 in Inr (cnt, if cnt \<ge> 2 then ?s2\<lparr>has_demotion := 0\<rparr> else ?s2)
      else Inr (cnt, ?s2)"
  obtain cnt' s3 where s3: "?dem = Inr (cnt', s3)" "act_step s s3" "policy_input_ok s3"
  proof (cases "fp_lt (free_dram env s1) two_chunks_gb \<and> has_demotion ?s2 = 0")
    case True
    with status_then_demotion [OF assms(2) s2(2)] that act_step_trans [OF s2(1)] show thesis by auto
  next
    case False
    then have "?dem = Inr (cnt, ?s2) \<or> ?dem = Inr (cnt + 1, ?s2\<lparr>has_demotion := 0\<rparr>) \<or> ?dem = Inr (cnt + 1, ?s2)"
      by (simp add: Let_def)
    moreover have "act_step s (?s2\<lparr>has_demotion := 0\<rparr>)" "policy_input_ok (?s2\<lparr>has_demotion := 0\<rparr>)"
      using s2 by (simp_all only: frame_simps)
    ultimately show thesis using that s2 by metis
  qed
  have "actuator_turn env qs junk cnt s = rbind ?dem (\<lambda>(cnt, s).
     if promotion_flag s = 1
     then rbind (read_allocation_status env s) (\<lambda>s. rbind (policy_promotion env s) (\<lambda>s. Inr (cnt, s)))
     else Inr (cnt, s))"
    by (simp add: actuator_turn_def s1(1) get_free_dram_eq [OF assms(2)])
  also have "\<dots> = (if promotion_flag s3 = 1
     then rbind (read_allocation_status env s3) (\<lambda>s. rbind (policy_promotion env s) (\<lambda>s. Inr (cnt', s)))
     else Inr (cnt', s3))"
    unfolding s3(1) by simp
  finally show ?thesis using status_then_promotion [OF assms(2) s3(3), of cnt'] s3(2) act_step_trans [OF s3(2)] by auto
qed

lemma actuator_turns_step:
  assumes "sorter qs" "env_ok env" "act_inv s" "\<forall>j \<in> set junks. 0 \<le> j \<and> j < int MAX_OBJECTS"
  shows "\<exists>cnt' s'. actuator_turns env qs junks cnt s = Inr (cnt', s') \<and> act_step s s'"
  using assms(3,4)
proof (induction junks arbitrary: cnt s)
  case Nil
  then show ?case by (simp add: act_step_refl)
next
  case (Cons j js)
  obtain cnt1 s1 where s1: "actuator_turn env qs j cnt s = Inr (cnt1, s1)" "act_step s s1"
    using actuator_turn_step [OF assms(1,2) Cons.prems(1)] Cons.prems(2) by fastforce
  then have "act_inv s1" by (simp add: act_step_def)
  then show ?case using Cons.IH [of s1 cnt1] Cons.prems(2) s1 act_step_trans by fastforce
qed

text \<open>While memory is short and a demotion is pending, a turn only counts.\<close>

lemma cooling_turn:
  assumes "sorter qs" "env_ok env" "act_inv s" "0 \<le> junk" "junk < int MAX_OBJECTS" "has_demotion s \<noteq> 0"
    "\<And>n. fp_lt (to_float (dsub (start_free_DRAM s) (ddiv (the (numastat env n)) (Fin 1000)))) two_chunks_gb"
  shows "\<exists>s'. actuator_turn env qs junk cnt s = Inr (cnt + 1, s') \<and> act_step s s'
    \<and> has_demotion s' = (if cnt + 1 \<ge> 2 then 0 else has_demotion s) \<and> start_free_DRAM s' = start_free_DRAM s"
proof -
  obtain s1 where s1: "sort_objects env qs junk s = Inr s1" "act_step s s1" "policy_input_ok s1" "same_cooling s s1"
    using sort_objects_step [OF assms(1-5)] by blast
  let ?s2 = "s1\<lparr>numa_reads := numa_reads s1 + 1, ticks := ticks s1 + 1\<rparr>"
  let ?s3 = "if cnt + 1 \<ge> 2 then ?s2\<lparr>has_demotion := 0\<rparr> else ?s2"
  have s3: "act_step s ?s3" "policy_input_ok ?s3" "has_demotion ?s3 = (if cnt + 1 \<ge> 2 then 0 else has_demotion s)"
      "start_free_DRAM ?s3 = start_free_DRAM s"
    using s1 by (simp_all add: frame_simps same_cooling_def)
  have low: "fp_lt (free_dram env s1) two_chunks_gb" using assms(7) s1(4) by (simp add: free_dram_def same_cooling_def)
  have turn: "actuator_turn env qs junk cnt s = (if promotion_flag ?s3 = 1
     then rbind (read_allocation_status env ?s3) (\<lambda>s. rbind (policy_promotion env s) (\<lambda>s. Inr (cnt + 1, s)))
     else Inr (cnt + 1, ?s3))"
    using low s1(4) assms(6) by (simp add: actuator_turn_def s1(1) get_free_dram_eq [OF assms(2)] same_cooling_def Let_def)
  show ?thesis
  proof (cases "promotion_flag ?s3 = 1")
    case True
    obtain s' where "rbind (read_allocation_status env ?s3) (\<lambda>s. rbind (policy_promotion env s) (\<lambda>s. Inr (cnt + 1, s))) = Inr (cnt + 1, s')"
        "act_step ?s3 s'" "same_cooling ?s3 s'"
      using status_then_promotion [OF assms(2) s3(2), of "cnt + 1"] by blast
    then show ?thesis
      unfolding turn using True s3 act_step_trans [OF s3(1)] by (intro exI [of _ s']) (simp add: same_cooling_def)
  next
    case False
    then show ?thesis unfolding turn using s3 by (intro exI [of _ ?s3]) simp
  qed
qed

section \<open>Status values\<close>

definition status_position :: "nat \<Rightarrow> int \<Rightarrow> nat" where
  "status_position nodes x = (if 0 \<le> x \<and> x < int nodes then nat x else nodes)"

lemma count_status_nat:
  assumes "v j = Fin (of_nat m)" "m + length xs < 2 ^ 24"
  shows "count_status nodes xs v j = Fin (of_nat (m + length (filter (\<lambda>x. status_position nodes x = j) xs)))"
  using assms
proof (induction xs arbitrary: v m)
  case (Cons x xs)
  have f: "fadd (Fin (of_nat m)) (Fin 1) = Fin (of_nat (Suc m))"
    using f_of_nat [of "Suc m"] Cons.prems(2) by (simp add: add.commute)
  have upd: "(if 0 \<le> x \<and> x < int nodes then v(nat x := fadd (v (nat x)) (Fin 1)) else v(nodes := fadd (v nodes) (Fin 1)))
      = v(status_position nodes x := fadd (v (status_position nodes x)) (Fin 1))"
    by (simp add: status_position_def)
  show ?case
  proof (cases "status_position nodes x = j")
    case True
    have "count_status nodes xs (v(j := Fin (of_nat (Suc m)))) j
        = Fin (of_nat (Suc m + length (filter (\<lambda>x. status_position nodes x = j) xs)))"
      using Cons.prems by (intro Cons.IH) simp_all
    then show ?thesis unfolding count_status.simps upd using True Cons.prems(1) f by simp
  next
    case False
    have "count_status nodes xs (v(status_position nodes x := fadd (v (status_position nodes x)) (Fin 1))) j
        = Fin (of_nat (m + length (filter (\<lambda>x. status_position nodes x = j) xs)))"
      using Cons.prems False by (intro Cons.IH) simp_all
    then show ?thesis unfolding count_status.simps upd using False by simp
  qed
qed simp

section \<open>A concrete system\<close>

definition calm_env :: act_env where
  "calm_env = \<lparr>clk = \<lambda>n. Some (Fin (of_nat n)), numastat = \<lambda>_. Some (Fin 1000), pagesize = 4096,
     move_pages = \<lambda>_ as. map (\<lambda>_. 2) as, malloc_ok = \<lambda>_. True\<rparr>"

definition start_actuator :: actuator where
  "start_actuator = monitor.extend start_monitor \<lparr>kv_list = replicate MAX_OBJECTS zero_key_value, promotion_flag = 0, has_demotion = 0,
     active_obj = 0, curr_max_llcm = Fin 1, curr_max_tlbm = Fin 1, curr_max_stores = Fin 1, status_pages = \<lambda>_. Fin 0, num_nodes = 3,
     act_write_fd = 5, act_read_fd = 6, hotness_threshold = Fin 1, start_free_DRAM = Fin 2, numa_reads = 0\<rparr>"

text \<open>One object of a page has been recorded.\<close>

definition one_object :: actuator where
  "one_object = pushed (\<lambda>_. Fin 0) 4096 7 8192 4096 0 start_actuator"

lemma calm_env_ok: "env_ok calm_env"
  by (simp add: env_ok_def calm_env_def)

lemma start_actuator_inv: "act_inv start_actuator"
  using start_monitor_inv
  by (simp add: act_inv_def list_ok_def maxima_ok_def counters_ok_def finite_values_def rec_inv_def start_actuator_def monitor.defs
      zero_key_value_def llcm_of_def tlbm_of_def stores_of_def start_monitor_def intercept.defs start_intercept_def recorder.defs
      start_recorder_def initialize_recorder_def zero_tier_manager_def initialize_object_def zero_object_def zero_metrics_def
      set_replicate_conv_if drop_replicate slot_ok_def)

lemma list_ok_mono: "list_ok n xs \<Longrightarrow> n \<le> m \<Longrightarrow> list_ok m xs"
  unfolding list_ok_def using set_drop_subset_set_drop [of n m xs] by blast

text \<open>The actuator's invariant survives the recorder's steps.\<close>

lemma pushed_act_inv:
  assumes "act_inv s" "rec_index s < MAX_OBJECTS"
  shows "act_inv (pushed c psz pid a z sl s)"
proof -
  have "rec_inv (pushed c psz pid a z sl s)" using assms by (intro pushed_inv) (simp_all add: act_inv_def)
  moreover have "list_ok (Suc (rec_index s)) (kv_list s)" using assms(1) list_ok_mono by (auto simp: act_inv_def)
  ultimately show ?thesis
    using assms(1) unfolding act_inv_def
    by (simp add: pushed_def Let_def maxima_ok_def counters_ok_def llcm_of_def tlbm_of_def stores_of_def)
qed

lemma cleared_act_inv: "act_inv s \<Longrightarrow> act_inv (cleared i s)"
  using cleared_inv [of s i] unfolding act_inv_def
  by (simp add: cleared_def maxima_ok_def counters_ok_def llcm_of_def tlbm_of_def stores_of_def)

lemma one_object_inv: "act_inv one_object" "obj_alloc (tm one_object) 0 = 1" "rec_index one_object = 1"
proof -
  have "rec_index start_actuator = 0"
    by (simp add: start_actuator_def monitor.defs start_monitor_def intercept.defs start_intercept_def recorder.defs start_recorder_def)
  then show "act_inv one_object" "obj_alloc (tm one_object) 0 = 1" "rec_index one_object = 1"
    using pushed_act_inv [OF start_actuator_inv] by (simp_all add: one_object_def) (simp_all add: pushed_def Let_def)
qed

section \<open>Properties\<close>

text \<open>C30: the promotion policy returns, and every request it writes is for the DRAM node and of a distinct live object
  that was not already assigned to DRAM, is hotter than the threshold in the current ranking, and whose part in
  persistent memory is not empty and smaller than the free DRAM. Exactly these objects get the decision; nothing
  else of the table changes but birth dates, and the demotion flag stays.\<close>

theorem policy_promotion_safe:
  assumes "env_ok env" "policy_ready s"
  shows "\<exists>s' ks. policy_promotion env s = Inr s' \<and> migration_pipe s' = migration_pipe s @ map (request (tm s) PROMOTION 0) ks
    \<and> distinct ks \<and> has_demotion s' = has_demotion s \<and> decided_only 0 (set ks) (tm s) (tm s')
    \<and> (\<forall>k \<in> set ks. k < MAX_OBJECTS \<and> obj_alloc (tm s) k = 1 \<and> o_last_decision (obj_vector (tm s) k) \<noteq> NODE_0_DRAM
        \<and> promotable (free_dram env s) s k)"
  using policy_promotion_run [OF assms] by (fastforce simp: policy_run_def)

theorem policy_promotion_safe_witness:
  "\<exists>s' ks. policy_promotion calm_env one_object = Inr s'
     \<and> migration_pipe s' = migration_pipe one_object @ map (request (tm one_object) PROMOTION 0) ks \<and> distinct ks"
  using policy_promotion_safe [OF calm_env_ok, of one_object] one_object_inv
  by (auto simp: policy_ready_def act_inv_def list_ok_def one_object_def pushed_def Let_def start_actuator_def monitor.defs)






lemma short_dram: "fp_lt (to_float (dsub (Fin 2) (ddiv (Fin 1000) (Fin 1000)))) two_chunks_gb"
proof -
  have "d_of (2000003072 / 1000000000) = two_chunks_gb"
    using d_of_nat [of 2000003072] by (simp add: two_chunks_gb_def d_ulong_def)
  moreover have "fp_in 2 3 (d_of (2000003072 / 1000000000))" by (rule dbl.r_between) simp_all
  ultimately obtain x where x: "two_chunks_gb = Fin x" "2 \<le> x" unfolding fp_in_iff by auto
  then show ?thesis unfolding x(1) by (simp add: fp_sub_def to_float_def)
qed




text \<open>C35: ranking reads \<open>obj_alloc\<close> at the indeterminate \<open>obj_index\<close>. Outside the array this is undefined as soon as an
  object is recorded; inside, at a free slot, it ranks no object at all and promotion is switched off, whatever the
  hotness of the recorded objects.\<close>

theorem sort_objects_indeterminate_index:
  assumes "rec_inv s" "0 < rec_index s" "length (kv_list s) = MAX_OBJECTS" "clk env (ticks s) = Some now"
  shows "(junk < 0 \<or> int MAX_OBJECTS \<le> junk \<longrightarrow> sort_objects env qs junk s = Inl Out_of_bounds)
    \<and> (0 \<le> junk \<and> junk < int MAX_OBJECTS \<and> obj_alloc (tm s) (nat junk) \<noteq> 1 \<longrightarrow>
        (\<exists>s'. sort_objects env qs junk s = Inr s' \<and> active_obj s' = 0 \<and> promotion_flag s' = 0))"
proof (intro conjI impI)
  have n: "total_obj (tm s) = int (rec_index s)" "rec_index s \<le> MAX_OBJECTS" using assms(1) by (simp_all add: rec_inv_def)
  show "sort_objects env qs junk s = Inl Out_of_bounds" if "junk < 0 \<or> int MAX_OBJECTS \<le> junk"
    using that assms(2) n by (simp add: sort_objects_def) (subst rank_loop.simps, auto)
  assume j: "0 \<le> junk \<and> junk < int MAX_OBJECTS \<and> obj_alloc (tm s) (nat junk) \<noteq> 1"
  then have "rank_loop junk 0 0 s = Inr (0, s)" using rank_loop_dead [OF _ _ _ n, of junk 0 0] by simp
  then show "\<exists>s'. sort_objects env qs junk s = Inr s' \<and> active_obj s' = 0 \<and> promotion_flag s' = 0"
    using sort_objects_eq [of junk s 0 s env now qs] assms(4) by (simp add: sorted_state_def)
qed

theorem sort_objects_indeterminate_index_witness:
  "sort_objects calm_env isort_by 2000 one_object = Inl Out_of_bounds
   \<and> (\<exists>s'. sort_objects calm_env isort_by 1 one_object = Inr s' \<and> active_obj s' = 0 \<and> promotion_flag s' = 0)"
proof -
  have "rec_inv one_object" "length (kv_list one_object) = MAX_OBJECTS"
    using one_object_inv(1) by (simp_all add: act_inv_def list_ok_def)
  moreover from this have "obj_alloc (tm one_object) 1 = 0" using one_object_inv(3) by (simp add: rec_inv_def)
  ultimately show ?thesis
    using sort_objects_indeterminate_index [of one_object calm_env "Fin (of_nat (ticks one_object))" 2000 isort_by]
      sort_objects_indeterminate_index [of one_object calm_env "Fin (of_nat (ticks one_object))" 1 isort_by] one_object_inv(3)
    by (simp add: calm_env_def)
qed



text \<open>The counters are never cleared: two readings of the status of a one-page object on node 2 give the value 2, twice the
  whole object.\<close>

theorem query_status_accumulates:
  "rbind (query_status_memory_pages calm_env 7 8192 4096 start_actuator) (\<lambda>s1.
   rbind (query_status_memory_pages calm_env 7 8192 4096 s1) (\<lambda>s2. Inr (status_pages s1 2, status_pages s2 2))) = Inr (Fin 1, Fin 2)"
  by (simp add: query_status_memory_pages_def calm_env_def start_actuator_def monitor.defs f_ulong_def Let_def)

text \<open>C36: on a machine with four or more nodes the values of the first live object do not fit into its array of four.\<close>

theorem read_allocation_status_overflow:
  assumes "rec_inv s" "4 \<le> num_nodes s" "\<And>n. malloc_ok env n" "k < rec_index s" "obj_alloc (tm s) k = 1"
  shows "read_allocation_status env s = Inl Out_of_bounds"
proof -
  have n: "total_obj (tm s) = int (rec_index s)" "rec_index s \<le> MAX_OBJECTS" using assms(1) by (simp_all add: rec_inv_def)
  have "read_status_loop env i s = Inl Out_of_bounds" if "i \<le> k" for i
    using that
  proof (induction "k - i" arbitrary: i)
    case 0
    obtain v where "query_status_memory_pages env (app_pid s) (o_start_addr (obj_vector (tm s) k)) (o_size (obj_vector (tm s) k)) s
        = Inr (s\<lparr>status_pages := v\<rparr>)" using query_status_returns [OF assms(3)] by blast
    then show ?case using 0 n assms by (subst read_status_loop.simps) (simp add: Let_def)
  next
    case (Suc d)
    obtain v where "query_status_memory_pages env (app_pid s) (o_start_addr (obj_vector (tm s) i)) (o_size (obj_vector (tm s) i)) s
        = Inr (s\<lparr>status_pages := v\<rparr>)" using query_status_returns [OF assms(3)] by blast
    then show ?case using Suc.hyps(1) [of "Suc i"] Suc.hyps(2) n assms by (subst read_status_loop.simps) (simp add: Let_def)
  qed
  then show ?thesis by (simp add: read_allocation_status_def)
qed

theorem read_allocation_status_overflow_witness:
  "read_allocation_status calm_env (one_object\<lparr>num_nodes := 4\<rparr>) = Inl Out_of_bounds"
  by (rule read_allocation_status_overflow [where k = 0])
    (use one_object_inv in \<open>simp_all add: act_inv_def rec_inv_def calm_env_def\<close>)

end
