(* ===== verification/Actuator_Frame.thy ===== *)
theory Actuator_Frame
  imports Actuator_Correct
begin

text \<open>
  How one turn of the actuator thread is built from elementary changes of the state: the requests of the two
  policies, updates of the page status, and steps that leave the table, the pipe and the variables of the other
  threads alone. The locale \<open>actuator_relation\<close> proves once that a relation kept by these is kept by a turn.
\<close>

section \<open>Steps that change nothing shared\<close>

definition still :: "'z actuator_scheme \<Rightarrow> 'z actuator_scheme \<Rightarrow> bool" where
  "still s s' \<longleftrightarrow> tm s' = tm s \<and> rec_index s' = rec_index s \<and> migration_pipe s' = migration_pipe s
     \<and> rec_pipe_fd s' = rec_pipe_fd s \<and> same_ic s s' \<and> tm_copy s' = tm_copy s \<and> store_map s' = store_map s
     \<and> actuator.more s' = actuator.more s"

lemma still_refl [simp]: "still s s"
  by (simp add: still_def same_ic_def)

lemma still_trans: "still s s1 \<Longrightarrow> still s1 s2 \<Longrightarrow> still s s2"
  by (simp add: still_def same_ic_def)

lemma rank_loop_still: "rank_loop junk i cnt s = Inr (c, s') \<Longrightarrow> still s s'"
proof (induction "MAX_OBJECTS - i" arbitrary: i cnt s)
  case 0
  then show ?case by (subst (asm) rank_loop.simps) (auto split: if_splits)
next
  case (Suc d)
  have d: "d = MAX_OBJECTS - (i + 1)" using Suc.hyps(2) by simp
  obtain aux s1 where r: "rank_object i s = (aux, s1)" "still s s1"
    by (simp add: rank_object_def Let_def still_def same_ic_def)
  consider "still s s'" | cnt1 where "rank_loop junk (i + 1) cnt1 s = Inr (c, s')"
    | cnt1 l where "rank_loop junk (i + 1) cnt1 (s1\<lparr>kv_list := l\<rparr>) = Inr (c, s')"
    using Suc.prems r(1) by (subst (asm) rank_loop.simps) (auto split: if_splits)
  then show ?case
  proof cases
    case (3 cnt1 l)
    then have "still (s1\<lparr>kv_list := l\<rparr>) s'" by (rule Suc.hyps(1) [OF d])
    with r(2) show ?thesis by (simp add: still_def same_ic_def)
  qed (use Suc.hyps(1) [OF d] in auto)
qed

lemma sort_objects_still: "sort_objects env qs junk s = Inr s' \<Longrightarrow> still s s'"
  by (auto simp: sort_objects_def rbind_Inr_iff get_my_timestamp_def Let_def still_def same_ic_def
      split: option.splits if_splits dest!: rank_loop_still)

lemma get_free_dram_still: "get_free_dram_space env s = Inr (f, s') \<Longrightarrow> still s s'"
  by (auto simp: get_free_dram_space_def rbind_Inr_iff get_my_timestamp_def Let_def still_def same_ic_def split: option.splits)

lemma query_status_still: "query_status_memory_pages env pid addr sz s = Inr s' \<Longrightarrow> still s s'"
  by (auto simp: query_status_memory_pages_def Let_def still_def same_ic_def split: if_splits)

section \<open>One turn of a policy loop\<close>

lemma promotion_loop_step:
  assumes "promotion_loop env free i mx s = Inr s'"
  shows "s' = s \<or> promotion_loop env free (i + 1) mx s = Inr s' \<or> (\<exists>k mx'. obj_alloc (tm s) k = 1 \<and> k < MAX_OBJECTS
    \<and> fp_lt (Fin 0) (alloc_size_gb (obj_vector (tm s) k) 2)
    \<and> (s' = promoted (\<lambda>n. the (clk env n)) k s \<or> promotion_loop env free (i + 1) mx' (promoted (\<lambda>n. the (clk env n)) k s) = Inr s'))"
proof (cases "i < active_obj s")
  case False
  then show ?thesis using assms by (subst (asm) promotion_loop.simps) simp
next
  case True
  let ?kv = "kv_list s ! i" and ?k = "nat (kv_key (kv_list s ! i))" and ?c = "\<lambda>n. the (clk env n)"
  let ?gb = "alloc_size_gb (obj_vector (tm s) ?k) 2"
  let ?q = "fp_lt (Fin 0) ?gb \<and> fp_lt ?gb free \<and> o_last_decision (obj_vector (tm s) ?k) \<noteq> 0
    \<and> fp_lt (hotness_threshold s) (kv_value ?kv) \<and> obj_alloc (tm s) ?k = 1"
  have i: "i < MAX_OBJECTS" and key: "0 \<le> kv_key ?kv" "kv_key ?kv < int MAX_OBJECTS"
    using assms True by (subst (asm) promotion_loop.simps, simp add: Let_def split: if_splits)+
  show ?thesis
  proof (cases ?q)
    case False
    then have "promotion_loop env free i mx s = promotion_loop env free (i + 1) mx s"
      using True i key by (subst promotion_loop.simps) (auto simp: Let_def)
    with assms show ?thesis by simp
  next
    case q: True
    have eq: "promotion_loop env free i mx s = (case clk env (ticks s) of None \<Rightarrow> Inl (Exit 1) | Some _ \<Rightarrow>
        case clk env (Suc (ticks s)) of None \<Rightarrow> Inl (Exit 1) | Some _ \<Rightarrow>
        if fp_lt (fsub mx ?gb) (Fin 0) then Inr (promoted ?c ?k s) else promotion_loop env free (i + 1) (fsub mx ?gb) (promoted ?c ?k s))"
      using True i key q
      by (subst promotion_loop.simps)
        (cases "clk env (ticks s)"; cases "clk env (Suc (ticks s))";
         simp add: Let_def get_my_timestamp_def promoted_def act_bind_order_def upd_object_def)
    have "?k < MAX_OBJECTS" using key by linarith
    with assms q show ?thesis unfolding eq by (auto split: option.splits if_splits)
  qed
qed

lemma demotion_loop_step:
  assumes "demotion_loop env (Suc i) mx s = Inr s'"
  shows "(\<exists>n. demotion_loop env i mx (s\<lparr>ticks := n\<rparr>) = Inr s') \<or> (\<exists>k mx'. obj_alloc (tm s) k = 1 \<and> k < MAX_OBJECTS
    \<and> fp_lt min_size_gb (alloc_size_gb (obj_vector (tm s) k) 0)
    \<and> (s' = demoted k s \<or> demotion_loop env i mx' (demoted k s) = Inr s'))"
proof -
  let ?kv = "kv_list s ! i" and ?k = "nat (kv_key (kv_list s ! i))"
  let ?gb = "alloc_size_gb (obj_vector (tm s) ?k) 0"
  have i: "i < MAX_OBJECTS" and key: "0 \<le> kv_key ?kv" "kv_key ?kv < int MAX_OBJECTS"
    using assms by (simp_all add: Let_def split: if_splits)
  show ?thesis
  proof (cases "fp_lt min_size_gb ?gb")
    case False
    then have "demotion_loop env i mx (s\<lparr>ticks := ticks s\<rparr>) = Inr s'" using assms i key by (simp add: Let_def)
    then show ?thesis by (intro disjI1 exI)
  next
    case big: True
    obtain now where now: "clk env (ticks s) = Some now"
      using assms big i key by (cases "clk env (ticks s)") (simp_all add: Let_def get_my_timestamp_def)
    let ?q = "fp_lt (Fin 5) (dsub now (o_birth_date (obj_vector (tm s) ?k))) \<and> fp_lt (kv_value ?kv) (hotness_threshold s)
       \<and> o_last_decision (obj_vector (tm s) ?k) \<noteq> 2 \<and> obj_alloc (tm s) ?k = 1"
    show ?thesis
    proof (cases ?q)
      case False
      then have "demotion_loop env (Suc i) mx s = demotion_loop env i mx (s\<lparr>ticks := ticks s + 1\<rparr>)"
        using big i key now by (auto simp: Let_def get_my_timestamp_def)
      with assms show ?thesis by (intro disjI1 exI) (rule trans [OF sym])
    next
      case True
      then have eq: "demotion_loop env (Suc i) mx s = (case clk env (Suc (ticks s)) of None \<Rightarrow> Inl (Exit 1) | Some _ \<Rightarrow>
          if fp_lt (fsub mx ?gb) (Fin 0) then Inr (demoted ?k s) else demotion_loop env i (fsub mx ?gb) (demoted ?k s))"
        using big i key now
        by (cases "clk env (Suc (ticks s))") (simp_all add: Let_def get_my_timestamp_def demoted_def)
      have "?k < MAX_OBJECTS" using key by linarith
      with assms True big show ?thesis unfolding eq by (auto split: option.splits if_splits)
    qed
  qed
qed

section \<open>Relations kept by a turn\<close>

locale actuator_relation =
  fixes R :: "'z actuator_scheme \<Rightarrow> 'z actuator_scheme \<Rightarrow> bool"
  assumes R_trans: "R s s1 \<Longrightarrow> R s1 s2 \<Longrightarrow> R s s2"
    and R_still: "still s s' \<Longrightarrow> R s s'"
    and R_promoted: "obj_alloc (tm s) k = 1 \<Longrightarrow> k < MAX_OBJECTS \<Longrightarrow> fp_lt (Fin 0) (alloc_size_gb (obj_vector (tm s) k) 2) \<Longrightarrow> R s (promoted c k s)"
    and R_demoted: "obj_alloc (tm s) k = 1 \<Longrightarrow> k < MAX_OBJECTS \<Longrightarrow> fp_lt min_size_gb (alloc_size_gb (obj_vector (tm s) k) 0) \<Longrightarrow> R s (demoted k s)"
    and R_status: "int k < total_obj (tm s) \<Longrightarrow> R s (upd_object k (\<lambda>ob. ob\<lparr>o_page_status := f ob\<rparr>) s)"
begin

lemma R_refl: "R s s"
  by (rule R_still) simp

lemma R_tick: "R (s\<lparr>ticks := n\<rparr>) s' \<Longrightarrow> R s s'"
  by (rule R_trans [OF R_still]) (simp_all add: still_def same_ic_def)

lemma promotion_loop_R: "promotion_loop env free i mx s = Inr s' \<Longrightarrow> R s s'"
proof (induction "MAX_OBJECTS - i" arbitrary: i mx s)
  case 0
  then show ?case by (subst (asm) promotion_loop.simps) (auto simp: R_refl split: if_splits)
next
  case (Suc d)
  have d: "d = MAX_OBJECTS - (i + 1)" using Suc.hyps(2) by simp
  from promotion_loop_step [OF Suc.prems] consider "s' = s" | "promotion_loop env free (i + 1) mx s = Inr s'"
    | k mx' where "obj_alloc (tm s) k = 1" "k < MAX_OBJECTS" "fp_lt (Fin 0) (alloc_size_gb (obj_vector (tm s) k) 2)"
        "s' = promoted (\<lambda>n. the (clk env n)) k s \<or> promotion_loop env free (i + 1) mx' (promoted (\<lambda>n. the (clk env n)) k s) = Inr s'"
    by blast
  then show ?case
  proof cases
    case (3 k mx')
    from 3(4) show ?thesis
    proof
      assume "s' = promoted (\<lambda>n. the (clk env n)) k s"
      then show ?thesis using R_promoted [OF 3(1-3)] by simp
    next
      assume "promotion_loop env free (i + 1) mx' (promoted (\<lambda>n. the (clk env n)) k s) = Inr s'"
      then have "R (promoted (\<lambda>n. the (clk env n)) k s) s'" by (rule Suc.hyps(1) [OF d])
      with R_promoted [OF 3(1-3)] show ?thesis by (rule R_trans)
    qed
  qed (use Suc.hyps(1) [OF d] R_refl in auto)
qed

lemma demotion_loop_R: "demotion_loop env i mx s = Inr s' \<Longrightarrow> R s s'"
proof (induction i arbitrary: mx s)
  case 0
  then show ?case by (simp add: R_refl)
next
  case (Suc i)
  from demotion_loop_step [OF Suc.prems] consider n where "demotion_loop env i mx (s\<lparr>ticks := n\<rparr>) = Inr s'"
    | k mx' where "obj_alloc (tm s) k = 1" "k < MAX_OBJECTS" "fp_lt min_size_gb (alloc_size_gb (obj_vector (tm s) k) 0)"
        "s' = demoted k s \<or> demotion_loop env i mx' (demoted k s) = Inr s'"
    by blast
  then show ?case
  proof cases
    case (1 n)
    then show ?thesis using Suc.IH R_tick by blast
  next
    case (2 k mx')
    then show ?thesis using R_demoted [OF 2(1-3)] Suc.IH R_trans by metis
  qed
qed

lemma read_status_loop_R: "read_status_loop env i s = Inr s' \<Longrightarrow> R s s'"
proof (induction "MAX_OBJECTS - i" arbitrary: i s)
  case 0
  then show ?case by (subst (asm) read_status_loop.simps) (auto simp: R_refl split: if_splits)
next
  case (Suc d)
  have d: "d = MAX_OBJECTS - (i + 1)" using Suc.hyps(2) by simp
  show ?case
  proof (cases "int i < total_obj (tm s) \<and> obj_alloc (tm s) i = 1")
    case False
    then have "s' = s \<or> read_status_loop env (i + 1) s = Inr s'"
      using Suc.prems by (subst (asm) read_status_loop.simps) (simp split: if_splits)
    then show ?thesis using Suc.hyps(1) [OF d] R_refl by blast
  next
    case True
    let ?q = "query_status_memory_pages env (app_pid s) (o_start_addr (obj_vector (tm s) i)) (o_size (obj_vector (tm s) i)) s"
    obtain s1 where s1: "?q = Inr s1"
      using Suc.prems True by (cases ?q) (subst (asm) read_status_loop.simps, simp add: Let_def split: if_splits)+
    let ?s1 = "upd_object i (\<lambda>ob. ob\<lparr>o_page_status := \<lambda>j. if j \<le> num_nodes s1 then status_pages s1 j else o_page_status ob j\<rparr>) s1"
    have "read_status_loop env (i + 1) ?s1 = Inr s'"
      using Suc.prems True s1 by (subst (asm) read_status_loop.simps) (simp add: Let_def split: if_splits)
    then have "R ?s1 s'" by (rule Suc.hyps(1) [OF d])
    moreover have "R s s1" using s1 by (intro R_still query_status_still)
    moreover have "tm s1 = tm s" using query_status_still [OF s1] by (simp add: still_def)
    then have "R s1 ?s1" using True by (intro R_status) simp
    ultimately show ?thesis using R_trans by blast
  qed
qed

lemma policy_promotion_R: "policy_promotion env s = Inr s' \<Longrightarrow> R s s'"
  by (auto simp: policy_promotion_def rbind_Inr_iff intro: R_trans [OF R_still [OF get_free_dram_still]] promotion_loop_R)

lemma policy_demotion_R: "policy_demotion env s = Inr s' \<Longrightarrow> R s s'"
  unfolding policy_demotion_def
  by (drule demotion_loop_R) (rule R_trans [OF R_still], auto simp: still_def same_ic_def)

lemma status_R: "read_allocation_status env s = Inr s' \<Longrightarrow> R s s'"
  by (simp add: read_allocation_status_def read_status_loop_R)

lemma status_policy_R:
  "rbind (read_allocation_status env s) (\<lambda>s. rbind (policy_demotion env s) (\<lambda>s. Inr (c, s))) = Inr (c', s') \<Longrightarrow> R s s'"
  "rbind (read_allocation_status env s) (\<lambda>s. rbind (policy_promotion env s) (\<lambda>s. Inr (c, s))) = Inr (c', s') \<Longrightarrow> R s s'"
  by (auto simp: rbind_Inr_iff intro: R_trans [OF status_R policy_demotion_R] R_trans [OF status_R policy_promotion_R])

lemma actuator_turn_R:
  assumes "actuator_turn env qs junk cnt s = Inr (cnt', s')"
  shows "R s s'"
proof -
  obtain s1 where sort: "sort_objects env qs junk s = Inr s1"
    using assms by (cases "sort_objects env qs junk s") (simp_all add: actuator_turn_def)
  obtain x where "get_free_dram_space env s1 = Inr x"
    using assms by (cases "get_free_dram_space env s1") (simp_all add: actuator_turn_def sort)
  then obtain free s2 where "get_free_dram_space env s1 = Inr (free, s2)" by (cases x) simp
  note s1 = sort this
  have 12: "R s s2" using sort_objects_still [OF s1(1)] get_free_dram_still [OF s1(2)] by (rule R_still [OF still_trans])
  let ?dem = "if fp_lt free two_chunks_gb
            then if has_demotion s2 = 0
                 then rbind (read_allocation_status env s2) (\<lambda>s. rbind (policy_demotion env s) (\<lambda>s. Inr (0, s)))
                 else let cnt = cnt + 1 in Inr (cnt, if cnt \<ge> 2 then s2\<lparr>has_demotion := 0\<rparr> else s2)
            else Inr (cnt, s2)"
  let ?pro = "\<lambda>(cnt, s). if promotion_flag s = 1
        then rbind (read_allocation_status env s) (\<lambda>s. rbind (policy_promotion env s) (\<lambda>s. Inr (cnt, s)))
        else Inr (cnt, s)"
  have "rbind ?dem ?pro = Inr (cnt', s')" using assms by (simp only: actuator_turn_def s1 rbind_simps prod.case)
  then obtain x where x: "?dem = Inr x" "?pro x = Inr (cnt', s')" unfolding rbind_Inr_iff by blast
  obtain c3 s3 where "x = (c3, s3)" by (cases x)
  note s3 = x [unfolded this prod.case]
  have q: "still s2 (s2\<lparr>has_demotion := 0\<rparr>)" by (simp add: still_def same_ic_def)
  have "R s2 s3"
    using s3(1) R_still [OF q] by (auto simp: Let_def R_refl split: if_splits dest: status_policy_R)
  moreover have "R s3 s'"
    using s3(2) by (auto simp: R_refl split: if_splits dest: status_policy_R)
  ultimately show ?thesis using 12 R_trans by blast
qed



end

end
