(* ===== verification/Track_Mapping.thy ===== *)
theory Track_Mapping
  imports Actuator
begin

text \<open>
  \<open>track_mapping.c\<close>: a thread that writes, in each period, a line for every hot object with the shares of its
  pages per node. The compile-time constant \<open>METRIC\<close> is the argument \<open>metric\<close>, a number from 1 to 8.

  The answers of the system are the argument \<open>env\<close>: the page size, the status values that \<open>numa_move_pages\<close>
  writes (\<open>None\<close> when it fails), which arrays can be allocated, and the clock readings, numbered by the
  lines written.
\<close>

section \<open>Data\<close>

record track_env =
  t_pagesize :: u64
  t_move_pages :: "int \<Rightarrow> u64 list \<Rightarrow> int list option"
  t_malloc_ok :: "u64 \<Rightarrow> bool"
  t_clock :: "nat \<Rightarrow> int \<times> int"

text \<open>A line of \<open>track_mapping.txt\<close>.\<close>

record track_row =
  w_interval :: int
  w_time :: "int \<times> int"
  w_index :: int
  w_addr :: u64
  w_size :: fp
  w_metric :: fp
  w_status :: "fp list"

record track =
  t_nodes :: nat
  t_status :: "nat \<Rightarrow> fp"
  t_counter :: int
  t_rows :: "track_row list"

record track_key_value =
  tk_key :: int
  tk_value :: fp

section \<open>Metrics\<close>

definition sum_levels :: "(nat \<Rightarrow> fp) \<Rightarrow> fp" where
  "sum_levels f = foldl (\<lambda>acc i. dadd acc (f i)) (Fin 0) [0..<MEM_LEVELS]"

definition size_gb :: "tier_manager \<Rightarrow> nat \<Rightarrow> fp" where
  "size_gb t i = ddiv (d_ulong (o_size (obj_vector t i))) GB"

text \<open>In the metrics 4 and 8 the size is that of the object at the final value of the loop variable, \<open>MEM_LEVELS\<close>.\<close>

definition get_hotness_metric :: "nat \<Rightarrow> tier_manager \<Rightarrow> nat \<Rightarrow> fp" where
  "get_hotness_metric metric t i =
     (let m = o_metrics (obj_vector t i)
      in if metric = 1 then loads_count m 4
         else if metric = 2 then ddiv (loads_count m 4) (size_gb t i)
         else if metric = 3 then sum_levels (tlb_miss m)
         else if metric = 4 then ddiv (sum_levels (tlb_miss m)) (size_gb t MEM_LEVELS)
         else if metric = 5 then stores_count m
         else if metric = 6 then ddiv (stores_count m) (size_gb t i)
         else if metric = 7 then sum_levels (sum_latency_cost m)
         else ddiv (sum_levels (sum_latency_cost m)) (size_gb t MEM_LEVELS))"

definition track_comp :: "track_key_value \<Rightarrow> track_key_value \<Rightarrow> int" where
  "track_comp a b = (let f = tk_value a; s = tk_value b in if fp_lt f s then 1 else if fp_lt s f then - 1 else 0)"

definition track_sort_objects ::
  "((track_key_value \<Rightarrow> track_key_value \<Rightarrow> int) \<Rightarrow> track_key_value list \<Rightarrow> track_key_value list) \<Rightarrow> nat \<Rightarrow> tier_manager \<Rightarrow>
   track_key_value list" where
  "track_sort_objects qs metric t =
     qs track_comp (map (\<lambda>i. \<lparr>tk_key = int i, tk_value = get_hotness_metric metric t i\<rparr>) [0..<MAX_OBJECTS])"

section \<open>Page status\<close>

definition track_query :: "track_env \<Rightarrow> int \<Rightarrow> u64 \<Rightarrow> u64 \<Rightarrow> track \<Rightarrow> track res" where
  "track_query env pid addr sz k =
     (if sz mod t_pagesize env \<noteq> 0 then Inl (Panic ''assert'')
      else let page_count = sz div t_pagesize env; n = unat page_count
           in if \<not> t_malloc_ok env page_count then Inl (Exit 1)
              else case t_move_pages env pid (map (\<lambda>i. addr + of_nat i * t_pagesize env) [0..<n]) of
                   None \<Rightarrow> Inr (k\<lparr>t_status := \<lambda>i. if i < t_nodes k + 1 then Fin (- 1) else t_status k i\<rparr>)
                 | Some status \<Rightarrow>
                     let v = count_status (t_nodes k) (take n (status @ replicate n (- 1))) (t_status k)
                     in Inr (k\<lparr>t_status := \<lambda>i. if i < t_nodes k + 1 then fdiv (v i) (f_ulong page_count) else v i\<rparr>))"

definition track_set_nodes :: "int \<Rightarrow> int \<Rightarrow> track \<Rightarrow> track res" where
  "track_set_nodes avail max_node k =
     (if avail < 0 then Inl (Exit (- 1))
      else if max_node + 1 < 2 then Inl (Exit (- 1))
      else Inr (k\<lparr>t_nodes := nat (max_node + 1)\<rparr>))"

text \<open>\<open>opened\<close>: whether \<open>fopen\<close> succeeds.\<close>

definition open_output_file :: "bool \<Rightarrow> int" where
  "open_output_file opened = (if opened then 0 else - 1)"

section \<open>Lines\<close>

definition register_on_file :: "track_env \<Rightarrow> int \<Rightarrow> int \<Rightarrow> u64 \<Rightarrow> fp \<Rightarrow> fp \<Rightarrow> track \<Rightarrow> track" where
  "register_on_file env interval index addr sz metric_value k =
     (let row = \<lparr>w_interval = interval, w_time = t_clock env (length (t_rows k)), w_index = index, w_addr = addr, w_size = sz,
                 w_metric = metric_value, w_status = map (t_status k) [0..<t_nodes k + 1]\<rparr>
      in k\<lparr>t_rows := t_rows k @ [row], t_status := \<lambda>i. if i < t_nodes k + 1 then Fin 0 else t_status k i\<rparr>)"

text \<open>\<open>a >= b\<close> on doubles is false when one of them is not a number.\<close>

fun fp_ge :: "fp \<Rightarrow> fp \<Rightarrow> bool" where
  "fp_ge NaN b = False"
| "fp_ge a NaN = False"
| "fp_ge a b = (\<not> fp_lt a b)"

text \<open>\<open>track_mapping.c\<close> declares \<open>g_hotness_threshold\<close> as an \<open>int\<close>.\<close>

definition is_tracked :: "nat \<Rightarrow> int \<Rightarrow> tier_manager \<Rightarrow> nat \<Rightarrow> bool" where
  "is_tracked metric threshold t j \<longleftrightarrow> obj_alloc t j = 1 \<and> fp_ge (get_hotness_metric metric t j) (Fin (of_int threshold))"

definition track_object :: "track_env \<Rightarrow> nat \<Rightarrow> int \<Rightarrow> tier_manager \<Rightarrow> int \<Rightarrow> nat \<Rightarrow> track \<Rightarrow> track res" where
  "track_object env metric threshold t pid j k =
     (if is_tracked metric threshold t j
      then let ob = obj_vector t j
           in rbind (track_query env pid (o_start_addr ob) (o_size ob) k) (\<lambda>k.
              Inr (register_on_file env (t_counter k) (o_obj_index ob) (o_start_addr ob) (to_float (size_gb t j))
                     (get_hotness_metric metric t j) k))
      else Inr k)"

fun track_objects :: "track_env \<Rightarrow> nat \<Rightarrow> int \<Rightarrow> tier_manager \<Rightarrow> int \<Rightarrow> nat list \<Rightarrow> track \<Rightarrow> track res" where
  "track_objects env metric threshold t pid [] k = Inr k"
| "track_objects env metric threshold t pid (j # js) k =
     rbind (track_object env metric threshold t pid j k) (track_objects env metric threshold t pid js)"

definition check_and_register_decisions :: "track_env \<Rightarrow> nat \<Rightarrow> int \<Rightarrow> tier_manager \<Rightarrow> int \<Rightarrow> track \<Rightarrow> track res" where
  "check_and_register_decisions env metric threshold t pid k =
     track_objects env metric threshold t pid [0..<MAX_OBJECTS] (k\<lparr>t_counter := t_counter k + 1\<rparr>)"

section \<open>The thread\<close>

text \<open>What one attempt to read the process number from \<open>pid.txt\<close> gives.\<close>

datatype pid_poll = No_file | No_number | Pid int

fun wait_pid :: "pid_poll list \<Rightarrow> int \<Rightarrow> int res" where
  "wait_pid polls pid =
     (if pid \<noteq> - 1 then Inr pid
      else case polls of [] \<Rightarrow> Inl Diverges
           | Pid n # ps \<Rightarrow> wait_pid ps n
           | _ # ps \<Rightarrow> wait_pid ps pid)"

declare wait_pid.simps [simp del]

text \<open>The periods; in each the table has the contents that the other threads have given it.\<close>

fun track_periods :: "track_env \<Rightarrow> nat \<Rightarrow> int \<Rightarrow> int \<Rightarrow> tier_manager list \<Rightarrow> track \<Rightarrow> track res" where
  "track_periods env metric threshold pid [] k = Inr k"
| "track_periods env metric threshold pid (t # ts) k =
     rbind (check_and_register_decisions env metric threshold t pid k) (track_periods env metric threshold pid ts)"

text \<open>\<open>mem\<close> is the indeterminate contents of the allocated vector, \<open>None\<close> when \<open>malloc\<close> fails.\<close>

definition thread_track_mapping ::
  "track_env \<Rightarrow> nat \<Rightarrow> int \<Rightarrow> int \<times> int \<Rightarrow> (nat \<Rightarrow> fp) option \<Rightarrow> bool \<Rightarrow> pid_poll list \<Rightarrow> tier_manager list \<Rightarrow> track \<Rightarrow> track res" where
  "thread_track_mapping env metric threshold numa mem opened polls ts k =
     rbind (track_set_nodes (fst numa) (snd numa) k) (\<lambda>k.
     case mem of None \<Rightarrow> Inl (Exit (- 1))
     | Some v \<Rightarrow>
         if open_output_file opened \<noteq> 0 then Inl (Exit (- 1))
         else rbind (wait_pid polls (- 1)) (\<lambda>pid. track_periods env metric threshold pid ts (k\<lparr>t_status := v\<rparr>)))"

end
