(* ===== verification/Start_Threads.thy ===== *)
theory Start_Threads
  imports Track_Mapping
begin

text \<open>
  \<open>start_threads.c\<close>, the program that owns the shared table and starts the threads, and the two small
  programs beside it: \<open>lock_memory.c\<close>, which occupies DRAM, and \<open>libsyscall_intercept.c\<close>, an interception
  hook that only prints.

  What \<open>sscanf\<close> reads from a string with \<open>%f\<close> and \<open>%d\<close> depends on the locale: it is the argument \<open>scan\<close>, with
  \<open>None\<close> where nothing matches and the variable keeps its value.
\<close>

section \<open>Data\<close>

record scan =
  scan_f :: "string \<Rightarrow> fp option"
  scan_d :: "string \<Rightarrow> int option"

record scheduler = actuator +
  g_running_intercept :: int
  g_running_actuator :: int
  g_running_monitor :: int
  g_actuator_interval :: fp
  g_monitor_interval :: fp
  g_sample_freq :: int

section \<open>Operations\<close>

definition close_start_threads :: "'z scheduler_scheme \<Rightarrow> 'z scheduler_scheme" where
  "close_start_threads s = s\<lparr>g_running_intercept := 0, g_running_actuator := 0, g_running_monitor := 0\<rparr>"

text \<open>The pipes are removed and created anew: no message is in them.\<close>

definition start_threads_open_pipes :: "'z scheduler_scheme \<Rightarrow> 'z scheduler_scheme" where
  "start_threads_open_pipes s = s\<lparr>migration_pipe := []\<rparr>"

text \<open>\<open>reading\<close>: \<open>None\<close> when \<open>popen\<close> fails, else what \<open>sscanf\<close> finds in the output.\<close>

definition set_current_free_dram :: "fp option option \<Rightarrow> 'z scheduler_scheme \<Rightarrow> 'z scheduler_scheme res" where
  "set_current_free_dram reading s =
     (case reading of None \<Rightarrow> Inl (Exit 1)
      | Some r \<Rightarrow>
          let s = (case r of None \<Rightarrow> s | Some v \<Rightarrow> s\<lparr>start_free_DRAM := v\<rparr>)
          in Inr (s\<lparr>start_free_DRAM := ddiv (start_free_DRAM s) (Fin 1000)\<rparr>))"

text \<open>\<open>sscanf(str, fmt, &var)\<close>: a null string is followed.\<close>

definition sscanf :: "(string \<Rightarrow> 'v option) \<Rightarrow> string option \<Rightarrow> ('v \<Rightarrow> 's \<Rightarrow> 's) \<Rightarrow> 's \<Rightarrow> 's res" where
  "sscanf f str upd s =
     (case str of None \<Rightarrow> Inl Null_deref
      | Some x \<Rightarrow> Inr (case f x of None \<Rightarrow> s | Some v \<Rightarrow> upd v s))"

definition read_enviroment_variables :: "scan \<Rightarrow> (string \<Rightarrow> string option) \<Rightarrow> 'z scheduler_scheme \<Rightarrow> 'z scheduler_scheme res" where
  "read_enviroment_variables scn getenv s =
     (let monitor_interval = getenv ''MONITOR_INTERVAL'';
          actuator_interval = getenv ''ACTUATOR_INTERVAL'';
          hotness = getenv ''HOTNESS_THRESHOLD'';
          sample_freq = getenv ''SAMPLE_FREQ''
      in if \<not> (actuator_interval \<noteq> None \<or> monitor_interval \<noteq> None \<or> hotness \<noteq> None \<or> sample_freq \<noteq> None)
         then Inl (Exit (- 1))
         else rbind (sscanf (scan_f scn) actuator_interval (\<lambda>v s. s\<lparr>g_actuator_interval := v\<rparr>) s) (\<lambda>s.
              rbind (sscanf (scan_f scn) monitor_interval (\<lambda>v s. s\<lparr>g_monitor_interval := v\<rparr>) s) (\<lambda>s.
              rbind (sscanf (scan_f scn) hotness (\<lambda>v s. s\<lparr>hotness_threshold := v\<rparr>) s) (\<lambda>s.
              sscanf (scan_d scn) sample_freq (\<lambda>v s. s\<lparr>g_sample_freq := v\<rparr>) s))))"

text \<open>
  \<open>main\<close> up to the point where the three threads have been created: \<open>Inr (1, _)\<close> is the early return when
  \<open>sigaction\<close> fails, \<open>Inr (0, _)\<close> the state in which the threads start.
\<close>

definition start_main ::
  "scan \<Rightarrow> (string \<Rightarrow> string option) \<Rightarrow> int \<Rightarrow> fp option option \<Rightarrow> 'z scheduler_scheme \<Rightarrow> (int \<times> 'z scheduler_scheme) res" where
  "start_main scn getenv sigaction_ret reading s =
     rbind (read_enviroment_variables scn getenv s) (\<lambda>s.
     if sigaction_ret < 0 then Inr (1, s)
     else let s = s\<lparr>tm := initialize_recorder (tm s)\<rparr>; s = start_threads_open_pipes s
          in rbind (set_current_free_dram reading s) (\<lambda>s. Inr (0, s)))"

text \<open>The waiting for the process number in \<open>main\<close>.\<close>

definition set_app_pid :: "pid_poll list \<Rightarrow> 'z scheduler_scheme \<Rightarrow> 'z scheduler_scheme res" where
  "set_app_pid polls s = rbind (wait_pid polls (app_pid s)) (\<lambda>pid. Inr (s\<lparr>app_pid := pid\<rparr>))"

text \<open>The argument of \<open>sleep(g_monitor_interval)\<close> and \<open>sleep(g_actuator_interval)\<close>: the conversion to \<open>unsigned int\<close> drops
  the fraction, and is undefined outside its range.\<close>

fun sleep_seconds :: "fp \<Rightarrow> u32 res" where
  "sleep_seconds (Fin x) = (if - 1 < x \<and> x < 2 ^ 32 then Inr (of_int (if x < 0 then 0 else \<lfloor>x\<rfloor>)) else Inl Bad_conversion)"
| "sleep_seconds _ = Inl Bad_conversion"

section \<open>Locking memory\<close>

abbreviation (input) LOCK_GB :: u64 where "LOCK_GB \<equiv> 1048576000"

text \<open>\<open>(int) ceil(real_value)\<close>, undefined outside the range of \<open>int\<close>.\<close>

fun int_ceil :: "fp \<Rightarrow> int res" where
  "int_ceil (Fin x) = (if \<lceil>x\<rceil> \<in> {- (2 ^ 31)..<2 ^ 31} then Inr \<lceil>x\<rceil> else Inl Bad_conversion)"
| "int_ceil _ = Inl Bad_conversion"

text \<open>
  The loop that writes one byte per page: the addresses written, relative to the block. A page size is a power of
  two, so an index that wraps around is 0 again and the loop does not end.
\<close>

function touch_loop :: "u64 \<Rightarrow> nat \<Rightarrow> u64 \<Rightarrow> nat list res" where
  "touch_loop page_size i alloc_size =
     (if i < unat alloc_size
      then if unat page_size = 0 \<or> 2 ^ 64 \<le> i + unat page_size then Inl Diverges
           else rbind (touch_loop page_size (i + unat page_size) alloc_size) (\<lambda>ts. Inr (i # ts))
      else Inr [])"
  by pat_completeness auto
termination by (relation "measure (\<lambda>(p, i, a). unat a - i)") auto

declare touch_loop.simps [simp del]

text \<open>\<open>g_loop_flag\<close>, and whether the pages of the block are locked in memory.\<close>

record locker =
  g_loop_flag :: int
  pages_locked :: bool

definition stop_lock_memory :: "locker \<Rightarrow> locker" where
  "stop_lock_memory k = k\<lparr>pages_locked := False, g_loop_flag := 0\<rparr>"

text \<open>\<open>while(g_loop_flag) sleep(10)\<close>: \<open>sigs\<close> tells for each round of the loop whether the signal arrives in it.\<close>

fun lock_wait :: "bool list \<Rightarrow> locker \<Rightarrow> locker res" where
  "lock_wait [] k = (if g_loop_flag k = 0 then Inr k else Inl Diverges)"
| "lock_wait (sig # sigs) k =
     (if g_loop_flag k = 0 then Inr k else lock_wait sigs (if sig then stop_lock_memory k else k))"

text \<open>
  \<open>arg\<close> is \<open>argv[1]\<close>, \<open>junk\<close> the indeterminate \<open>real_value\<close>, \<open>mem_ok\<close> and \<open>lock_ok\<close> whether \<open>malloc\<close> and \<open>mlock\<close>
  succeed; \<open>early\<close> tells whether the signal arrives while the pages are written. The result has the size of the block and
  the addresses written.
\<close>

definition lock_memory_main ::
  "scan \<Rightarrow> string option \<Rightarrow> fp \<Rightarrow> bool \<Rightarrow> bool \<Rightarrow> int \<Rightarrow> u64 \<Rightarrow> bool \<Rightarrow> bool list \<Rightarrow> (int \<times> locker \<times> u64 \<times> nat list) res" where
  "lock_memory_main scn arg junk mem_ok lock_ok sigaction_ret page_size early sigs =
     rbind (sscanf (scan_f scn) arg (\<lambda>v _. v) junk) (\<lambda>real_value.
     rbind (int_ceil real_value) (\<lambda>size_in_gb.
     let alloc_size = LOCK_GB * of_int size_in_gb; k = \<lparr>g_loop_flag = 1, pages_locked = mem_ok \<and> lock_ok\<rparr>
     in if sigaction_ret < 0 then Inr (1, k, alloc_size, [])
        else if \<not> mem_ok \<and> alloc_size \<noteq> 0 then Inl Null_deref
        else rbind (touch_loop page_size 0 alloc_size) (\<lambda>ts.
             rbind (lock_wait sigs (if early then stop_lock_memory k else k)) (\<lambda>k. Inr (0, k, alloc_size, ts)))))"

section \<open>The interception hook\<close>

text \<open>\<open>syscall\<close> is \<open>syscall_no_intercept\<close>, of the library the hook is for; the second result is \<open>*result\<close>.\<close>

definition hook :: "int \<Rightarrow> int \<Rightarrow> (int \<Rightarrow> int list \<Rightarrow> int) \<Rightarrow> int \<Rightarrow> int list \<Rightarrow> int \<Rightarrow> int \<times> int" where
  "hook SYS_mmap SYS_munmap syscall syscall_number args result =
     (if syscall_number = SYS_mmap then (0, syscall syscall_number args)
      else if syscall_number = SYS_munmap then (0, syscall syscall_number args)
      else (1, result))"

text \<open>The constructor \<open>init\<close> installs the hook and starts a thread, which only prints.\<close>

record hook_lib =
  intercept_hook_point :: "(int \<Rightarrow> int list \<Rightarrow> int \<Rightarrow> int \<times> int) option"
  hook_threads :: nat

definition hook_init :: "int \<Rightarrow> int \<Rightarrow> (int \<Rightarrow> int list \<Rightarrow> int) \<Rightarrow> hook_lib \<Rightarrow> hook_lib" where
  "hook_init SYS_mmap SYS_munmap syscall l =
     l\<lparr>intercept_hook_point := Some (hook SYS_mmap SYS_munmap syscall), hook_threads := hook_threads l + 1\<rparr>"

section \<open>Behaviour\<close>

text \<open>The hook is transparent: whether it makes the system call itself or leaves it to the library (a result other than 0), the
  application gets what the call returns.\<close>

lemma hook_transparent:
  assumes "intercept_hook_point (hook_init m u syscall l) = Some h" "h n args result = (r, v)"
  shows "(if r = 0 then v else syscall n args) = syscall n args"
  using assms by (auto simp: hook_init_def hook_def split: if_splits)

lemma wait_pid_found:
  assumes "\<forall>q \<in> set ps. \<forall>n. q = Pid n \<longrightarrow> n = - 1" "pid \<noteq> - 1"
  shows "wait_pid (ps @ Pid pid # qs) (- 1) = Inr pid"
  using assms(1)
proof (induction ps)
  case Nil
  then show ?case using assms(2) by (subst wait_pid.simps) (simp, subst wait_pid.simps, simp)
next
  case (Cons q ps)
  then show ?case by (subst wait_pid.simps) (auto split: pid_poll.splits)
qed

lemma touch_loop_pages:
  assumes "0 < unat page_size" "unat alloc_size + unat page_size \<le> 2 ^ 64"
  shows "\<exists>ts. touch_loop page_size i alloc_size = Inr ts
    \<and> set ts = {j. \<exists>m. j = i + m * unat page_size \<and> j < unat alloc_size} \<and> distinct ts"
proof (induction "unat alloc_size - i" arbitrary: i rule: less_induct)
  case less
  show ?case
  proof (cases "i < unat alloc_size")
    case False
    then show ?thesis by (subst touch_loop.simps) auto
  next
    case True
    have "unat alloc_size - (i + unat page_size) < unat alloc_size - i" using True assms(1) by linarith
    then obtain ts where ts: "touch_loop page_size (i + unat page_size) alloc_size = Inr ts"
        "set ts = {j. \<exists>m. j = i + unat page_size + m * unat page_size \<and> j < unat alloc_size}" "distinct ts"
      using less [of "i + unat page_size"] by auto
    have "touch_loop page_size i alloc_size = Inr (i # ts)"
      using True assms ts(1) by (subst touch_loop.simps) simp
    moreover have "set (i # ts) = {j. \<exists>m. j = i + m * unat page_size \<and> j < unat alloc_size}" (is "?l = ?r")
    proof
      show "?l \<subseteq> ?r"
      proof
        fix j assume "j \<in> ?l"
        then consider "j = i" | m where "j = i + Suc m * unat page_size" "j < unat alloc_size" using ts(2) by (auto simp: add.assoc)
        then show "j \<in> ?r"
        proof cases
          case 1
          with True show ?thesis by (auto intro: exI [of _ 0])
        qed blast
      qed
      show "?r \<subseteq> ?l"
      proof
        fix j assume "j \<in> ?r"
        then obtain m where "j = i + m * unat page_size" "j < unat alloc_size" by blast
        then show "j \<in> ?l" using ts(2) by (cases m) (auto simp: algebra_simps)
      qed
    qed
    moreover have "i \<notin> set ts" using ts(2) assms(1) by auto
    ultimately show ?thesis using ts(3) by (intro exI [of _ "i # ts"]) simp
  qed
qed

text \<open>An interval below one second is no wait at all.\<close>

lemma sub_second_interval: "- 1 < x \<Longrightarrow> x < 1 \<Longrightarrow> sleep_seconds (Fin x) = Inr 0"
  by (cases "x < 0") (simp_all add: floor_eq_iff [THEN iffD2, of 0])

lemma lock_wait_stopped: "g_loop_flag k = 0 \<Longrightarrow> lock_wait sigs k = Inr k"
  by (cases sigs) simp_all

lemma lock_wait_signal:
  "lock_wait sigs k = (if g_loop_flag k = 0 then Inr k else if True \<in> set sigs then Inr (stop_lock_memory k) else Inl Diverges)"
  by (induction sigs arbitrary: k) (auto simp: lock_wait_stopped stop_lock_memory_def)

text \<open>The block has whole units, each of its pages is written, and the program ends, with nothing locked, exactly when the
  signal arrives.\<close>

lemma lock_memory_holds:
  assumes "scan_f scn arg = Some (Fin x)" "0 \<le> x" "x \<le> 2 ^ 30" "0 < unat page_size" "unat page_size \<le> 2 ^ 30"
  defines "bytes \<equiv> nat \<lceil>x\<rceil> * 1048576000"
  shows "if early \<or> True \<in> set sigs
    then \<exists>ts. lock_memory_main scn (Some arg) junk True lock_ok 0 page_size early sigs
        = Inr (0, \<lparr>g_loop_flag = 0, pages_locked = False\<rparr>, of_nat bytes, ts)
      \<and> set ts = {j. unat page_size dvd j \<and> j < bytes} \<and> distinct ts
    else lock_memory_main scn (Some arg) junk True lock_ok 0 page_size early sigs = Inl Diverges"
proof -
  have ceil: "0 \<le> \<lceil>x\<rceil>" "\<lceil>x\<rceil> \<le> 2 ^ 30" using assms(2,3) by (simp_all add: le_ceiling_iff ceiling_le_iff)
  then have "nat \<lceil>x\<rceil> \<le> 2 ^ 30" by (simp only: nat_le_iff) simp
  then have bytes: "bytes \<le> 2 ^ 30 * 1048576000" unfolding bytes_def by (rule mult_le_mono1)
  have size: "LOCK_GB * of_int \<lceil>x\<rceil> = of_nat bytes" using ceil by (simp add: bytes_def)
  have unat: "unat (of_nat bytes :: u64) = bytes" using bytes by (simp add: unsigned_of_nat take_bit_nat_eq_self)
  obtain ts where ts: "touch_loop page_size 0 (of_nat bytes) = Inr ts" "set ts = {j. \<exists>m. j = m * unat page_size \<and> j < bytes}" "distinct ts"
    using touch_loop_pages [OF assms(4), of "of_nat bytes" 0] bytes assms(5) unfolding unat by auto
  have "set ts = {j. unat page_size dvd j \<and> j < bytes}" unfolding ts(2) by (auto simp: dvd_def mult.commute)
  moreover have "int_ceil (Fin x) = Inr \<lceil>x\<rceil>" using ceil by simp
  ultimately show ?thesis
    using assms(1) ts(1,3) unfolding lock_memory_main_def sscanf_def Let_def
    by (simp add: size lock_wait_signal stop_lock_memory_def del: int_ceil.simps)
qed

text \<open>Without an argument the program prints a message and goes on with the null pointer.\<close>

lemma lock_memory_no_argument: "lock_memory_main scn None junk mem_ok lock_ok sigaction_ret page_size early sigs = Inl Null_deref"
  by (simp add: lock_memory_main_def sscanf_def)

end
