(* ===== verification/Track_Correct.thy ===== *)
theory Track_Correct
  imports Track_Mapping Actuator_Correct
begin

text \<open>
  Correctness of the mapping tracker: which lines a period writes, what they hold, and when it fails.
\<close>

section \<open>Lines of a period\<close>

definition cleared_status :: "track \<Rightarrow> bool" where
  "cleared_status k \<longleftrightarrow> (\<forall>i \<le> t_nodes k. t_status k i = Fin 0)"

text \<open>The line for an object, from cleared counters.\<close>

definition object_status :: "track_env \<Rightarrow> int \<Rightarrow> nat \<Rightarrow> object \<Rightarrow> nat \<Rightarrow> fp" where
  "object_status env pid nodes ob j =
     (let n = unat (o_size ob div t_pagesize env)
      in case t_move_pages env pid (map (\<lambda>i. o_start_addr ob + of_nat i * t_pagesize env) [0..<n]) of
         None \<Rightarrow> Fin (- 1)
       | Some st \<Rightarrow> f_of (of_nat (length (filter (\<lambda>x. status_position nodes x = j) st)) / of_nat n))"

text \<open>An object can be queried: a positive number of whole pages, as many as a \<open>float\<close> counts exactly.\<close>

definition queryable :: "track_env \<Rightarrow> int \<Rightarrow> object \<Rightarrow> bool" where
  "queryable env pid ob \<longleftrightarrow> o_size ob mod t_pagesize env = 0 \<and> t_malloc_ok env (o_size ob div t_pagesize env)
     \<and> 0 < unat (o_size ob div t_pagesize env) \<and> unat (o_size ob div t_pagesize env) < 2 ^ 24
     \<and> (case t_move_pages env pid (map (\<lambda>i. o_start_addr ob + of_nat i * t_pagesize env) [0..<unat (o_size ob div t_pagesize env)]) of
          None \<Rightarrow> True | Some st \<Rightarrow> length st = unat (o_size ob div t_pagesize env))"

lemma track_query_cleared:
  assumes "cleared_status k" "queryable env pid ob"
  shows "\<exists>v. track_query env pid (o_start_addr ob) (o_size ob) k = Inr (k\<lparr>t_status := v\<rparr>)
    \<and> (\<forall>j \<le> t_nodes k. v j = object_status env pid (t_nodes k) ob j)"
proof -
  define n where "n = unat (o_size ob div t_pagesize env)"
  let ?mv = "t_move_pages env pid (map (\<lambda>i. o_start_addr ob + of_nat i * t_pagesize env) [0..<n])"
  have q: "o_size ob mod t_pagesize env = 0" "t_malloc_ok env (o_size ob div t_pagesize env)" "0 < n" "n < 2 ^ 24"
    using assms(2) by (auto simp: queryable_def n_def)
  show ?thesis
  proof (cases ?mv)
    case None
    then show ?thesis using q unfolding track_query_def Let_def object_status_def n_def [symmetric] by auto
  next
    case (Some st)
    let ?c = "count_status (t_nodes k) st (t_status k)"
    have len: "length st = n" using assms(2) Some unfolding queryable_def n_def [symmetric] by simp
    have f: "f_ulong (o_size ob div t_pagesize env) = Fin (of_nat n)" unfolding f_ulong_def n_def [symmetric] by (rule f_of_nat [OF q(4)])
    have c: "?c j = Fin (of_nat (length (filter (\<lambda>x. status_position (t_nodes k) x = j) st)))" if "j \<le> t_nodes k" for j
      using count_status_nat [of "t_status k" j 0 st "t_nodes k"] assms(1) that len q(4) by (simp add: cleared_status_def)
    have "track_query env pid (o_start_addr ob) (o_size ob) k
        = Inr (k\<lparr>t_status := \<lambda>i. if i < t_nodes k + 1 then fdiv (?c i) (Fin (of_nat n)) else ?c i\<rparr>)"
      using q Some len unfolding track_query_def Let_def n_def [symmetric] f by (simp cong: if_cong)
    then show ?thesis
      using c q(3) Some unfolding object_status_def Let_def n_def [symmetric] by (intro exI conjI) (assumption, simp)
  qed
qed

definition object_row :: "track_env \<Rightarrow> nat \<Rightarrow> tier_manager \<Rightarrow> int \<Rightarrow> track \<Rightarrow> nat \<Rightarrow> nat \<Rightarrow> track_row" where
  "object_row env metric t pid k n j = \<lparr>w_interval = t_counter k, w_time = t_clock env n, w_index = o_obj_index (obj_vector t j),
     w_addr = o_start_addr (obj_vector t j), w_size = to_float (size_gb t j), w_metric = get_hotness_metric metric t j,
     w_status = map (object_status env pid (t_nodes k) (obj_vector t j)) [0..<t_nodes k + 1]\<rparr>"

definition tracked_list :: "nat \<Rightarrow> int \<Rightarrow> tier_manager \<Rightarrow> nat list \<Rightarrow> nat list" where
  "tracked_list metric threshold t js = filter (is_tracked metric threshold t) js"

lemma track_object_row:
  assumes "cleared_status k" "is_tracked metric threshold t j" "queryable env pid (obj_vector t j)"
  shows "\<exists>k'. track_object env metric threshold t pid j k = Inr k' \<and> cleared_status k' \<and> t_nodes k' = t_nodes k
    \<and> t_counter k' = t_counter k \<and> t_rows k' = t_rows k @ [object_row env metric t pid k (length (t_rows k)) j]"
proof -
  obtain v where v: "track_query env pid (o_start_addr (obj_vector t j)) (o_size (obj_vector t j)) k = Inr (k\<lparr>t_status := v\<rparr>)"
      "\<forall>i \<le> t_nodes k. v i = object_status env pid (t_nodes k) (obj_vector t j) i"
    using track_query_cleared [OF assms(1,3)] by blast
  then have "map v [0..<t_nodes k + 1] = map (object_status env pid (t_nodes k) (obj_vector t j)) [0..<t_nodes k + 1]" by simp
  with v(1) assms(2) show ?thesis
    by (simp add: track_object_def register_on_file_def Let_def cleared_status_def object_row_def)
qed

lemma track_objects_rows:
  assumes "cleared_status k" "\<And>j. j \<in> set js \<Longrightarrow> is_tracked metric threshold t j \<Longrightarrow> queryable env pid (obj_vector t j)"
  shows "\<exists>k'. track_objects env metric threshold t pid js k = Inr k' \<and> cleared_status k' \<and> t_nodes k' = t_nodes k
    \<and> t_counter k' = t_counter k
    \<and> t_rows k' = t_rows k @ map (\<lambda>(n, j). object_row env metric t pid k n j)
         (enumerate (length (t_rows k)) (tracked_list metric threshold t js))"
  using assms
proof (induction js arbitrary: k)
  case Nil
  then show ?case by (simp add: tracked_list_def)
next
  case (Cons j js)
  show ?case
  proof (cases "is_tracked metric threshold t j")
    case False
    then show ?thesis using Cons by (simp add: track_object_def tracked_list_def)
  next
    case True
    obtain k1 where k1: "track_object env metric threshold t pid j k = Inr k1" "cleared_status k1" "t_nodes k1 = t_nodes k"
        "t_counter k1 = t_counter k" "t_rows k1 = t_rows k @ [object_row env metric t pid k (length (t_rows k)) j]"
      using track_object_row [OF Cons.prems(1) True] Cons.prems(2) [of j] True by auto
    have "object_row env metric t pid k1 = object_row env metric t pid k"
      using k1(3,4) by (simp add: object_row_def fun_eq_iff)
    then show ?thesis using Cons.IH [OF k1(2)] Cons.prems(2) k1 True by (auto simp: tracked_list_def)
  qed
qed

section \<open>Properties\<close>

definition calm_tenv :: track_env where
  "calm_tenv = \<lparr>t_pagesize = 4096, t_move_pages = \<lambda>_ as. Some (map (\<lambda>_. 2) as), t_malloc_ok = \<lambda>_. True, t_clock = \<lambda>n. (int n, 0)\<rparr>"

definition start_track :: track where
  "start_track = \<lparr>t_nodes = 3, t_status = \<lambda>_. Fin 0, t_counter = 0, t_rows = []\<rparr>"



text \<open>The metrics per size of the TLB misses and of the latency divide by the size of object 5, not of the object itself:
  changing the size of any other object does not change its metric.\<close>

theorem metric_per_size_of_object_5:
  assumes "metric \<in> {4, 8}" "i \<noteq> 5"
  shows "get_hotness_metric metric (t\<lparr>obj_vector := (obj_vector t)(i := (obj_vector t i)\<lparr>o_size := z\<rparr>)\<rparr>) i = get_hotness_metric metric t i"
  using assms by (auto simp: get_hotness_metric_def size_gb_def Let_def)

theorem metric_per_size_of_object_5_witness:
  "get_hotness_metric 4 (zero_tier_manager\<lparr>obj_vector := (obj_vector zero_tier_manager)(7 := (obj_vector zero_tier_manager 7)\<lparr>o_size := 4096\<rparr>)\<rparr>) 7
     = get_hotness_metric 4 zero_tier_manager 7"
  using metric_per_size_of_object_5 [of 4 7 zero_tier_manager 4096] by simp

end
