(* ===== verification/Preload.thy ===== *)
theory Preload
  imports Actuator "HOL-Library.Signed_Division"
begin

text \<open>
  \<open>preload.c\<close>: the library that is loaded into the application. A thread of the first process that loads it
  reads the requests of the recorder and of the actuator from \<open>migration.pipe\<close> and executes them with
  \<open>mbind\<close>; a failed request goes back through \<open>migration_error.pipe\<close>. \<open>recorder.h\<close> defines \<open>DEBUG\<close>, so the
  tracing of the page status before and after each request is part of the program.
  \<open>delete_shared_memory.c\<close> removes the object that marks that the thread exists.

  What the library asks the system is the argument \<open>env\<close>: the clock, the page size, the status values that
  \<open>numa_move_pages\<close> writes, which arrays can be allocated, the results of \<open>mbind\<close> and \<open>errno\<close> for the calls in
  their order, and the readings of \<open>CLOCK_REALTIME\<close> around them.
\<close>

unbundle bit_operations_syntax

section \<open>Data\<close>

type_synonym timespec = "int \<times> int"  \<comment> \<open>\<open>tv_sec\<close> and \<open>tv_nsec\<close>\<close>

record preload_env =
  p_clk :: "nat \<Rightarrow> fp option"
  p_pagesize :: u64
  p_move_pages :: "u64 list \<Rightarrow> int list"
  p_malloc_ok :: "u64 \<Rightarrow> bool"
  p_mbind :: "nat \<Rightarrow> data_bind \<Rightarrow> int"
  p_errno :: "nat \<Rightarrow> int"
  p_times :: "nat \<Rightarrow> timespec \<times> timespec"

text \<open>A line of \<open>preload_migration_cost.txt\<close>.\<close>

record cost_row =
  r_time :: fp
  r_data :: data_bind
  r_before :: "fp list"
  r_delta_us :: u64
  r_after :: "fp list"

record preload =
  p_read_fd :: int
  p_write_fd :: int
  p_num_nodes :: nat
  p_log_open :: bool
  p_ticks :: nat
  mbind_calls :: "data_bind list"
  error_pipe :: "data_bind list"
  bind_errors :: "(fp \<times> data_bind \<times> int) list"
  cost_rows :: "cost_row list"

section \<open>Helpers\<close>

definition preload_timestamp :: "preload_env \<Rightarrow> preload \<Rightarrow> (fp \<times> preload) res" where
  "preload_timestamp env p =
     (case p_clk env (p_ticks p) of None \<Rightarrow> Inl (Exit 1) | Some t \<Rightarrow> Inr (t, p\<lparr>p_ticks := p_ticks p + 1\<rparr>))"

definition preload_set_nodes :: "int \<Rightarrow> int \<Rightarrow> preload \<Rightarrow> preload res" where
  "preload_set_nodes avail max_node p =
     (if avail < 0 then Inl (Exit (- 1))
      else if max_node + 1 < 2 then Inl (Exit (- 1))
      else Inr (p\<lparr>p_num_nodes := nat (max_node + 1)\<rparr>))"

definition preload_open_pipes :: "int \<Rightarrow> int \<Rightarrow> preload \<Rightarrow> preload" where
  "preload_open_pipes r w p = p\<lparr>p_read_fd := guard r, p_write_fd := guard w\<rparr>"

text \<open>
  The query of the page status, on the vector of the caller: the return value and the new vector.
\<close>

definition preload_query :: "preload_env \<Rightarrow> nat \<Rightarrow> u64 \<Rightarrow> u64 \<Rightarrow> (nat \<Rightarrow> fp) \<Rightarrow> (int \<times> (nat \<Rightarrow> fp)) res" where
  "preload_query env nodes addr sz vec =
     (if sz mod p_pagesize env \<noteq> 0
      then Inr (- 1, \<lambda>i. if i < nodes + 1 then Fin (- 1) else vec i)
      else let page_count = sz div p_pagesize env; n = unat page_count
           in if \<not> p_malloc_ok env page_count then Inl (Exit 1)
              else let pages_addr = map (\<lambda>i. addr + of_nat i * p_pagesize env) [0..<n];
                       status = take n (p_move_pages env pages_addr @ replicate n (- 1));
                       v = count_status nodes status vec
                   in Inr (0, \<lambda>i. if i < nodes + 1 then fdiv (v i) (f_ulong page_count) else v i))"

text \<open>\<open>delta_us\<close>: computed with signed 64-bit values and division towards zero, stored unsigned.\<close>

definition delta_us :: "timespec \<Rightarrow> timespec \<Rightarrow> u64" where
  "delta_us start stop = of_int ((fst stop - fst start) * 1000000 + (snd stop - snd start) sdiv 1000)"

section \<open>Executing requests\<close>

definition execute_mbind :: "preload_env \<Rightarrow> data_bind \<Rightarrow> preload \<Rightarrow> preload res" where
  "execute_mbind env data p =
     (let n = length (mbind_calls p);
          failed = p_mbind env n data = - 1;
          p = p\<lparr>mbind_calls := mbind_calls p @ [data]\<rparr>
      in if failed
         then let p = (if p_write_fd p = - 1 then p else p\<lparr>error_pipe := error_pipe p @ [data]\<rparr>)
              in if d_type data \<noteq> INITIAL_DATAPLACEMENT
                 then rbind (preload_timestamp env p) (\<lambda>(t, p). Inr (p\<lparr>bind_errors := bind_errors p @ [(t, data, p_errno env n)]\<rparr>))
                 else Inr p
         else Inr p)"

text \<open>
  What \<open>read\<close> returns on the pipe: a message, the end of file, or -1. In the last case \<open>buf\<close> keeps its
  indeterminate contents, the argument of \<open>Read_error\<close>.
\<close>

datatype read_result = Read_msg data_bind | Read_eof | Read_error data_bind

definition status_list :: "nat \<Rightarrow> (nat \<Rightarrow> fp) \<Rightarrow> fp list" where
  "status_list nodes v = map v [0..<nodes + 1]"

text \<open>The branch of the loop for a request; \<open>fprintf\<close> needs the open file.\<close>

definition handle_request :: "preload_env \<Rightarrow> data_bind \<Rightarrow> preload \<Rightarrow> preload res" where
  "handle_request env buf p =
     (if \<not> p_log_open p then Inl Null_deref
      else rbind (preload_timestamp env p) (\<lambda>(t, p).
           rbind (preload_query env (p_num_nodes p) (d_start_addr buf) (d_size buf) (\<lambda>_. Fin 0)) (\<lambda>(_, before).
           let (start, stop) = p_times env (length (mbind_calls p))
           in rbind (execute_mbind env buf p) (\<lambda>p.
              rbind (preload_query env (p_num_nodes p) (d_start_addr buf) (d_size buf) (\<lambda>_. Fin 0)) (\<lambda>(_, after).
              Inr (p\<lparr>cost_rows := cost_rows p @
                [\<lparr>r_time = t, r_data = buf, r_before = status_list (p_num_nodes p) before,
                  r_delta_us = delta_us start stop, r_after = status_list (p_num_nodes p) after\<rparr>]\<rparr>))))))"

text \<open>The loop of \<open>thread_manager_mbind\<close>, over what the reads return until \<open>g_running\<close> is 0.\<close>

fun mbind_loop :: "preload_env \<Rightarrow> read_result list \<Rightarrow> preload \<Rightarrow> preload res" where
  "mbind_loop env [] p = Inr p"
| "mbind_loop env (Read_eof # rs) p = mbind_loop env rs p"
| "mbind_loop env (Read_msg buf # rs) p = rbind (handle_request env buf p) (mbind_loop env rs)"
| "mbind_loop env (Read_error buf # rs) p = rbind (handle_request env buf p) (mbind_loop env rs)"

text \<open>\<open>vec_ok\<close>: both status vectors could be allocated; \<open>log_ok\<close>: the trace file could be opened.\<close>

definition thread_manager_mbind ::
  "preload_env \<Rightarrow> int \<times> int \<Rightarrow> bool \<Rightarrow> bool \<Rightarrow> read_result list \<Rightarrow> preload \<Rightarrow> preload res" where
  "thread_manager_mbind env numa vec_ok log_ok reads p =
     rbind (preload_set_nodes (fst numa) (snd numa) p) (\<lambda>p.
     if \<not> vec_ok then Inl (Exit (- 1)) else mbind_loop env reads (p\<lparr>p_log_open := log_ok\<rparr>))"

section \<open>Loading the library\<close>

text \<open>The shared-memory object \<open>MY_SHARED_MEMORY\<close> and the processes in which a thread was created.\<close>

record shm_system =
  shm_exists :: bool
  mbind_threads :: "int list"

text \<open>\<open>shm_open\<close> with \<open>O_CREAT\<close> and \<open>O_EXCL\<close>: \<open>fd\<close> is the descriptor if it can create the object (-1 if not).\<close>

definition shm_open_excl :: "int \<Rightarrow> shm_system \<Rightarrow> int \<times> shm_system" where
  "shm_open_excl fd y = (if shm_exists y \<or> fd = - 1 then (- 1, y) else (fd, y\<lparr>shm_exists := True\<rparr>))"

definition init_lib :: "int \<Rightarrow> int \<Rightarrow> int \<times> int \<Rightarrow> preload \<times> shm_system \<Rightarrow> preload \<times> shm_system" where
  "init_lib pid fd fds ps =
     (let (p, y) = ps; (r, y) = shm_open_excl fd y
      in if r \<noteq> - 1 then (preload_open_pipes (fst fds) (snd fds) p, y\<lparr>mbind_threads := mbind_threads y @ [pid]\<rparr>)
         else (p, y))"

definition delete_shared_memory :: "shm_system \<Rightarrow> shm_system" where
  "delete_shared_memory y = y\<lparr>shm_exists := False\<rparr>"

text \<open>\<open>main_hook\<close>: the result of the application's \<open>main\<close> and the flag \<open>g_running\<close>.\<close>

definition main_hook :: "('a \<Rightarrow> int) \<Rightarrow> 'a \<Rightarrow> int \<times> int" where
  "main_hook main_orig args = (main_orig args, 0)"

definition libc_start_main :: "(('a \<Rightarrow> int \<times> int) \<Rightarrow> 'a \<Rightarrow> int \<times> int) \<Rightarrow> ('a \<Rightarrow> int) \<Rightarrow> 'a \<Rightarrow> int \<times> int" where
  "libc_start_main orig main args = orig (main_hook main) args"

end
