(* ===== verification/Preload_Correct.thy ===== *)
theory Preload_Correct
  imports Preload Actuator_Correct
begin

text \<open>
  Correctness of the preload library: the requests read are executed once and in order and the failed ones
  reported, at most one thread executes them, and the status and time computations of the trace.
\<close>

section \<open>Serving requests\<close>

definition requests :: "read_result list \<Rightarrow> data_bind list" where
  "requests rs = concat (map (\<lambda>r. case r of Read_msg d \<Rightarrow> [d] | Read_eof \<Rightarrow> [] | Read_error d \<Rightarrow> [d]) rs)"

lemma requests_simps [simp]:
  "requests [] = []" "requests (Read_eof # rs) = requests rs"
  "requests (Read_msg d # rs) = d # requests rs" "requests (Read_error d # rs) = d # requests rs"
  by (simp_all add: requests_def)

lemma requests_msgs [simp]: "requests (map Read_msg ds) = ds"
  by (induction ds) simp_all

text \<open>The requests for which \<open>mbind\<close> returns -1, if the first of them is call \<open>n\<close>.\<close>

fun failures :: "preload_env \<Rightarrow> nat \<Rightarrow> data_bind list \<Rightarrow> data_bind list" where
  "failures env n [] = []"
| "failures env n (d # ds) = (if p_mbind env n d = - 1 then [d] else []) @ failures env (Suc n) ds"

definition penv_ok :: "preload_env \<Rightarrow> bool" where
  "penv_ok env \<longleftrightarrow> (\<forall>n. p_clk env n \<noteq> None) \<and> (\<forall>n. p_malloc_ok env n)"

definition serves :: "preload_env \<Rightarrow> data_bind list \<Rightarrow> preload \<Rightarrow> preload \<Rightarrow> bool" where
  "serves env ds p p' \<longleftrightarrow> mbind_calls p' = mbind_calls p @ ds
     \<and> error_pipe p' = error_pipe p @ failures env (length (mbind_calls p)) ds
     \<and> map (fst \<circ> snd) (bind_errors p') = map (fst \<circ> snd) (bind_errors p)
         @ filter (\<lambda>d. d_type d \<noteq> INITIAL_DATAPLACEMENT) (failures env (length (mbind_calls p)) ds)
     \<and> map r_data (cost_rows p') = map r_data (cost_rows p) @ ds
     \<and> p_write_fd p' = p_write_fd p \<and> p_log_open p' = p_log_open p"

lemma serves_Cons: "serves env [d] p p1 \<Longrightarrow> serves env ds p1 p2 \<Longrightarrow> serves env (d # ds) p p2"
  by (simp add: serves_def)

lemma preload_timestamp_eq: "penv_ok env \<Longrightarrow> \<exists>t. preload_timestamp env p = Inr (t, p\<lparr>p_ticks := p_ticks p + 1\<rparr>)"
  by (cases "p_clk env (p_ticks p)") (auto simp: penv_ok_def preload_timestamp_def simp del: not_None_eq)

lemma preload_query_returns: "penv_ok env \<Longrightarrow> \<exists>r v. preload_query env nodes addr sz vec = Inr (r, v)"
  by (auto simp: penv_ok_def preload_query_def Let_def)

lemma execute_mbind_serves:
  assumes "penv_ok env" "p_write_fd p \<noteq> - 1"
  shows "\<exists>p'. execute_mbind env d p = Inr p' \<and> mbind_calls p' = mbind_calls p @ [d]
    \<and> error_pipe p' = error_pipe p @ failures env (length (mbind_calls p)) [d]
    \<and> map (fst \<circ> snd) (bind_errors p') = map (fst \<circ> snd) (bind_errors p)
        @ filter (\<lambda>d. d_type d \<noteq> INITIAL_DATAPLACEMENT) (failures env (length (mbind_calls p)) [d])
    \<and> cost_rows p' = cost_rows p \<and> p_write_fd p' = p_write_fd p \<and> p_log_open p' = p_log_open p"
proof -
  obtain t where "preload_timestamp env (p\<lparr>mbind_calls := mbind_calls p @ [d], error_pipe := error_pipe p @ [d]\<rparr>)
      = Inr (t, p\<lparr>mbind_calls := mbind_calls p @ [d], error_pipe := error_pipe p @ [d], p_ticks := p_ticks p + 1\<rparr>)"
    using preload_timestamp_eq [OF assms(1), of "p\<lparr>mbind_calls := mbind_calls p @ [d], error_pipe := error_pipe p @ [d]\<rparr>"] by auto
  then show ?thesis using assms(2) by (simp add: execute_mbind_def Let_def)
qed

lemma handle_request_serves:
  assumes "penv_ok env" "p_write_fd p \<noteq> - 1" "p_log_open p"
  shows "\<exists>p'. handle_request env d p = Inr p' \<and> serves env [d] p p'"
proof -
  let ?p = "p\<lparr>p_ticks := p_ticks p + 1\<rparr>"
  obtain t where t: "preload_timestamp env p = Inr (t, ?p)" using preload_timestamp_eq [OF assms(1)] by blast
  obtain r v where v: "preload_query env (p_num_nodes p) (d_start_addr d) (d_size d) (\<lambda>_. Fin 0) = Inr (r, v)"
    using preload_query_returns [OF assms(1)] by blast
  obtain p' where p': "execute_mbind env d ?p = Inr p'" "mbind_calls p' = mbind_calls ?p @ [d]"
      "error_pipe p' = error_pipe ?p @ failures env (length (mbind_calls ?p)) [d]"
      "map (fst \<circ> snd) (bind_errors p') = map (fst \<circ> snd) (bind_errors ?p)
        @ filter (\<lambda>d. d_type d \<noteq> INITIAL_DATAPLACEMENT) (failures env (length (mbind_calls ?p)) [d])"
      "cost_rows p' = cost_rows ?p" "p_write_fd p' = p_write_fd ?p" "p_log_open p' = p_log_open ?p"
    using execute_mbind_serves [OF assms(1), of ?p d] assms(2) by auto
  obtain r' v' where "preload_query env (p_num_nodes p') (d_start_addr d) (d_size d) (\<lambda>_. Fin 0) = Inr (r', v')"
    using preload_query_returns [OF assms(1)] by blast
  with t v p' assms(3) show ?thesis
    by (cases "p_times env (length (mbind_calls p))") (simp add: handle_request_def serves_def)
qed

lemma mbind_loop_serves:
  assumes "penv_ok env" "p_write_fd p \<noteq> - 1" "p_log_open p"
  shows "\<exists>p'. mbind_loop env rs p = Inr p' \<and> serves env (requests rs) p p'"
  using assms(2,3)
proof (induction rs arbitrary: p)
  case Nil
  then show ?case by (simp add: serves_def)
next
  case (Cons r rs)
  show ?case
  proof (cases "r = Read_eof")
    case True
    then show ?thesis using Cons by simp
  next
    case False
    then obtain d where d: "mbind_loop env (r # rs) p = rbind (handle_request env d p) (mbind_loop env rs)" "requests (r # rs) = d # requests rs"
      by (cases r) auto
    obtain p1 where p1: "handle_request env d p = Inr p1" "serves env [d] p p1"
      using handle_request_serves [OF assms(1) Cons.prems] by blast
    then obtain p2 where "mbind_loop env rs p1 = Inr p2" "serves env (requests rs) p1 p2"
      using Cons.IH [of p1] Cons.prems by (auto simp: serves_def)
    then show ?thesis using d p1 serves_Cons by auto
  qed
qed

section \<open>One thread\<close>

text \<open>Processes load the library or the object is removed.\<close>

datatype load_event = Load int int "int \<times> int" | Unlink

fun load_run :: "load_event list \<Rightarrow> preload \<times> shm_system \<Rightarrow> preload \<times> shm_system" where
  "load_run [] ps = ps"
| "load_run (Load pid fd fds # es) ps = load_run es (init_lib pid fd fds ps)"
| "load_run (Unlink # es) (p, y) = load_run es (p, delete_shared_memory y)"

lemma load_run_shm:
  assumes "\<forall>e \<in> set es. e \<noteq> Unlink" "shm_exists (snd ps)"
  shows "load_run es ps = ps"
  using assms by (induction es ps rule: load_run.induct) (auto simp: init_lib_def shm_open_excl_def split: prod.splits)

lemma load_run_free:
  assumes "\<forall>e \<in> set es. e \<noteq> Unlink" "\<not> shm_exists y"
  shows "mbind_threads (snd (load_run es (p, y))) = mbind_threads y @
     (case find (\<lambda>e. case e of Load pid fd fds \<Rightarrow> fd \<noteq> - 1 | Unlink \<Rightarrow> False) es of Some (Load pid fd fds) \<Rightarrow> [pid] | _ \<Rightarrow> [])"
  using assms
proof (induction es)
  case (Cons e es)
  then obtain pid fd fds where e: "e = Load pid fd fds" by (cases e) auto
  show ?case
  proof (cases "fd = - 1")
    case True
    then show ?thesis using Cons e by (simp add: init_lib_def shm_open_excl_def)
  next
    case False
    have "load_run es (init_lib pid fd fds (p, y)) = init_lib pid fd fds (p, y)"
      using Cons.prems False by (intro load_run_shm) (auto simp: init_lib_def shm_open_excl_def)
    then show ?thesis using Cons.prems(2) False e by (simp add: init_lib_def shm_open_excl_def)
  qed
qed simp

section \<open>Properties\<close>

definition calm_penv :: preload_env where
  "calm_penv = \<lparr>p_clk = \<lambda>n. Some (Fin (of_nat n)), p_pagesize = 4096, p_move_pages = map (\<lambda>_. 0), p_malloc_ok = \<lambda>_. True,
     p_mbind = \<lambda>n _. if n = 1 then - 1 else 0, p_errno = \<lambda>_. 5, p_times = \<lambda>_. ((1, 999999999), (2, 0))\<rparr>"

definition start_preload :: preload where
  "start_preload = \<lparr>p_read_fd = 3, p_write_fd = 4, p_num_nodes = 3, p_log_open = True, p_ticks = 0, mbind_calls = [],
     error_pipe = [], bind_errors = [], cost_rows = []\<rparr>"

lemma calm_penv_ok: "penv_ok calm_penv"
  by (simp add: penv_ok_def calm_penv_def)

text \<open>C11: the thread of the library executes every message read from the pipe once and in order, returns exactly the
  failed ones through the error pipe, logs those of them that are not initial placements, and traces each
  request in one line. A failed \<open>read\<close> counts as a request with the indeterminate contents of the buffer.\<close>

theorem mbind_thread_serves:
  assumes "penv_ok env" "p_write_fd p \<noteq> - 1" "p_log_open p"
  shows "\<exists>p'. mbind_loop env rs p = Inr p' \<and> mbind_calls p' = mbind_calls p @ requests rs
    \<and> error_pipe p' = error_pipe p @ failures env (length (mbind_calls p)) (requests rs)
    \<and> map (fst \<circ> snd) (bind_errors p') = map (fst \<circ> snd) (bind_errors p)
        @ filter (\<lambda>d. d_type d \<noteq> INITIAL_DATAPLACEMENT) (failures env (length (mbind_calls p)) (requests rs))
    \<and> map r_data (cost_rows p') = map r_data (cost_rows p) @ requests rs"
  using mbind_loop_serves [OF assms, of rs] by (auto simp: serves_def)

theorem mbind_thread_serves_witness:
  "\<exists>p'. mbind_loop calm_penv [Read_msg (request zero_tier_manager PROMOTION 0 1), Read_eof, Read_msg (request zero_tier_manager DEMOTION 2 3)]
       start_preload = Inr p' \<and> length (mbind_calls p') = 2 \<and> error_pipe p' = [request zero_tier_manager DEMOTION 2 3]"
  using mbind_thread_serves [OF calm_penv_ok, of start_preload
      "[Read_msg (request zero_tier_manager PROMOTION 0 1), Read_eof, Read_msg (request zero_tier_manager DEMOTION 2 3)]"]
  by (auto simp: start_preload_def calm_penv_def)

text \<open>C37: as long as the shared-memory object is not removed, however many processes load the library, the first of them
  that can create the object gets the thread that executes requests, and no other does.\<close>

theorem one_mbind_thread:
  assumes "\<forall>e \<in> set es. e \<noteq> Unlink"
  shows "mbind_threads (snd (load_run es (p, y))) = mbind_threads y @
     (if shm_exists y then [] else
      case find (\<lambda>e. case e of Load pid fd fds \<Rightarrow> fd \<noteq> - 1 | Unlink \<Rightarrow> False) es of Some (Load pid fd fds) \<Rightarrow> [pid] | _ \<Rightarrow> [])"
  using load_run_shm [OF assms, of "(p, y)"] load_run_free [OF assms, of y p] by (cases "shm_exists y") simp_all

theorem one_mbind_thread_witness:
  "mbind_threads (snd (load_run [Load 10 (- 1) (3, 4), Load 11 3 (4, 5), Load 12 3 (4, 5)]
     (start_preload, \<lparr>shm_exists = False, mbind_threads = []\<rparr>))) = [11]"
  using one_mbind_thread [of "[Load 10 (- 1) (3, 4), Load 11 3 (4, 5), Load 12 3 (4, 5)]" start_preload "\<lparr>shm_exists = False, mbind_threads = []\<rparr>"]
  by simp

text \<open>The copies of \<open>query_status_memory_pages\<close> in the preload library and in the actuator compute the same status
  from the same old values and the same answers of \<open>numa_move_pages\<close>.\<close>

theorem query_copies_agree:
  assumes "p_pagesize penv = pagesize env" "p_move_pages penv = move_pages env pid" "p_malloc_ok penv = malloc_ok env"
  shows "rbind (preload_query penv (num_nodes s) addr sz (status_pages s)) (\<lambda>(_, v). Inr (s\<lparr>status_pages := v\<rparr>))
    = query_status_memory_pages env pid addr sz s"
  using assms by (simp add: preload_query_def query_status_memory_pages_def Let_def cong: if_cong)

theorem query_copies_agree_witness:
  "rbind (preload_query (calm_penv\<lparr>p_move_pages := map (\<lambda>_. 2)\<rparr>) 3 8192 8192 (\<lambda>_. Fin 0)) (\<lambda>(_, v). Inr (start_actuator\<lparr>status_pages := v\<rparr>))
    = query_status_memory_pages calm_env 7 8192 8192 start_actuator"
proof -
  have "num_nodes start_actuator = 3" "status_pages start_actuator = (\<lambda>_. Fin 0)" by (simp_all add: start_actuator_def monitor.defs)
  then show ?thesis
    using query_copies_agree [of "calm_penv\<lparr>p_move_pages := map (\<lambda>_. 2)\<rparr>" calm_env 7 start_actuator 8192 8192]
    by (simp add: calm_penv_def calm_env_def)
qed

text \<open>The migration cost in microseconds is within one of the exact difference of the two clock readings, also when
  the nanoseconds of the second are smaller, provided the clock does not run backwards.\<close>

theorem delta_us_close:
  assumes "fst start * 1000000000 + snd start \<le> fst stop * 1000000000 + snd stop"
    "fst stop - fst start < 2 ^ 40" "{snd start, snd stop} \<subseteq> {0..<1000000000}"
  shows "\<bar>uint (delta_us start stop) * 1000 - ((fst stop - fst start) * 1000000000 + (snd stop - snd start))\<bar> < 1000"
proof -
  let ?n = "snd stop - snd start" and ?s = "fst stop - fst start"
  define q where "q = ?n sdiv 1000"
  have q: "\<bar>q * 1000 - ?n\<bar> < 1000"
    unfolding q_def signed_divide_int_def by (auto simp: sgn_if)
  have n: "\<bar>?n\<bar> < 1000000000" "0 \<le> ?s * 1000000000 + ?n" using assms by auto
  have "0 \<le> ?s * 1000000 + q" using q n by linarith
  moreover have "?s * 1000000 + q < 2 ^ 64" using q n assms(2) by simp
  moreover have "uint (of_int x :: u64) = x" if "0 \<le> x" "x < 2 ^ 64" for x
    using that by (simp add: uint_word_of_int_eq take_bit_int_eq_self)
  ultimately have "uint (delta_us start stop) = ?s * 1000000 + q" unfolding delta_us_def q_def by blast
  then show ?thesis using q by (simp add: algebra_simps)
qed

theorem delta_us_close_witness: "\<bar>uint (delta_us (1, 999999999) (2, 0)) * 1000 - 1\<bar> < 1000"
  using delta_us_close [of "(1, 999999999)" "(2, 0)"] by simp

end
