(* ===== verification/System.thy ===== *)
theory System
  imports Actuator_Frame Start_Threads Track_Correct Preload_Correct
begin

text \<open>
  The threads together: the scheduler process (interception, monitor and actuator threads on the shared
  table) and the thread of the preload library in the application, connected by \<open>migration.pipe\<close>.
  A step of the system is one record of the interception thread, one period of the monitor, one turn of the
  actuator, one request served by the library, or the signal that stops the threads. The code has no locks;
  interleavings inside such a step are not modelled.
\<close>

section \<open>Requests name recorded objects\<close>

text \<open>A message names a slot that has been filled and its address range, with the node, flag and type of one of the three
  kinds of request.\<close>

definition msg_ok :: "'z recorder_scheme \<Rightarrow> data_bind \<Rightarrow> bool" where
  "msg_ok s d \<longleftrightarrow> (\<exists>k < rec_index s. d_obj_index d = int k \<and> d_start_addr d = o_start_addr (obj_vector (tm s) k)
        \<and> d_size d = o_size (obj_vector (tm s) k))
     \<and> (d_type d, d_nodemask_target_node d, d_flag d) \<in> {(INITIAL_DATAPLACEMENT, 1, 1), (PROMOTION, 1, 2), (DEMOTION, 4, 2)}"

definition tab_step :: "'z recorder_scheme \<Rightarrow> 'z recorder_scheme \<Rightarrow> bool" where
  "tab_step s s' \<longleftrightarrow> (rec_inv s \<longrightarrow> rec_inv s' \<and> slots_kept s s'
     \<and> (\<exists>ds. migration_pipe s' = migration_pipe s @ ds \<and> (\<forall>d \<in> set ds. msg_ok s' d)))"

lemma msg_ok_kept: "slots_kept s s' \<Longrightarrow> msg_ok s d \<Longrightarrow> msg_ok s' d"
  by (fastforce simp: msg_ok_def slots_kept_def)

lemma tab_step_refl: "tab_step s s"
  by (simp add: tab_step_def slots_kept_def)

lemma slots_kept_trans: "slots_kept s s1 \<Longrightarrow> slots_kept s1 s2 \<Longrightarrow> slots_kept s s2"
  by (force simp: slots_kept_def)

lemma tab_step_trans:
  assumes "tab_step s s1" "tab_step s1 s2"
  shows "tab_step s s2"
  unfolding tab_step_def
proof
  assume "rec_inv s"
  then obtain ds where ds: "rec_inv s1" "slots_kept s s1" "migration_pipe s1 = migration_pipe s @ ds" "\<forall>d \<in> set ds. msg_ok s1 d"
    using assms(1) by (auto simp: tab_step_def)
  then obtain es where es: "rec_inv s2" "slots_kept s1 s2" "migration_pipe s2 = migration_pipe s1 @ es" "\<forall>d \<in> set es. msg_ok s2 d"
    using assms(2) by (auto simp: tab_step_def)
  have "\<forall>d \<in> set (ds @ es). msg_ok s2 d" using ds(4) es(4) msg_ok_kept [OF es(2)] by auto
  then show "rec_inv s2 \<and> slots_kept s s2 \<and> (\<exists>ds. migration_pipe s2 = migration_pipe s @ ds \<and> (\<forall>d \<in> set ds. msg_ok s2 d))"
    using ds es slots_kept_trans [OF ds(2) es(2)] by (intro conjI exI [of _ "ds @ es"]) simp_all
qed

lemma tab_step_preorder: "reflp tab_step" "transp tab_step"
  by (auto intro: reflpI transpI tab_step_refl tab_step_trans)

text \<open>Steps that leave the table, the index and the pipe alone.\<close>

definition quiet :: "'z recorder_scheme \<Rightarrow> 'z recorder_scheme \<Rightarrow> bool" where
  "quiet s s' \<longleftrightarrow> tm s' = tm s \<and> rec_index s' = rec_index s \<and> migration_pipe s' = migration_pipe s"

lemma quiet_tab: "quiet s s' \<Longrightarrow> tab_step s s'"
  by (simp add: quiet_def tab_step_def slots_kept_def rec_inv_def)

lemma quiet_refl [simp]: "quiet s s"
  by (simp add: quiet_def)

lemma quiet_trans: "quiet s s1 \<Longrightarrow> quiet s1 s2 \<Longrightarrow> quiet s s2"
  by (simp add: quiet_def)

section \<open>The interception thread\<close>

lemma tab_step_insert1:
  assumes "insert_object1 ck psz pid a z sl s = Inr s'"
  shows "tab_step s s'"
proof (cases "rec_inv s")
  case True
  then have k: "rec_index s < MAX_OBJECTS"
    using assms find_slot_full [of s] by (auto simp: insert_object1_def rec_inv_def order_less_le)
  have s': "s' = pushed (\<lambda>n. the (ck n)) psz pid a z sl s" using True assms k
    by (auto simp: insert_object1_def find_slot_free get_my_timestamp_def Let_def bind_order_def pushed_def split: option.splits)
  have "\<forall>d \<in> set (drop (length (migration_pipe s)) (migration_pipe s')). msg_ok s' d"
    unfolding s' by (auto simp: pushed_def Let_def msg_ok_def)
  moreover have "migration_pipe s' = migration_pipe s @ drop (length (migration_pipe s)) (migration_pipe s')"
    unfolding s' by (simp add: pushed_def Let_def)
  moreover have "rec_inv s'" "slots_kept s s'"
    using rec_step_insert1 [OF assms] True by (simp_all add: rec_step_def)
  ultimately show ?thesis unfolding tab_step_def by blast
qed (simp add: tab_step_def)

lemma tab_step_dealloc: "dealloc_loop ck a z i s = Inr (r, s') \<Longrightarrow> tab_step s s'"
  using rec_step_dealloc [of ck a z i s r s'] dealloc_loop_cleared [of ck a z i s r s']
  by (auto simp: tab_step_def rec_step_def cleared_def)

lemma tab_step_insert: "insert_object ck psz pid a sz s = Inr s' \<Longrightarrow> tab_step s s'"
  unfolding insert_object_def
  by (rule for_chunks_rel [OF tab_step_preorder]) (auto intro: tab_step_insert1)

lemma tab_step_deallocate: "deallocate_object ck pid a sz s = Inr s' \<Longrightarrow> tab_step s s'"
  unfolding deallocate_object_def
  by (rule for_chunks_rel [OF tab_step_preorder])
    (auto simp: deallocate_object1_def rbind_Inr_iff intro: tab_step_dealloc)

lemma tab_step_enter [simp]: "tab_step s (s\<lparr>enter_args := x\<rparr>)"
  by (rule quiet_tab) (simp add: quiet_def)

lemma sample_cases:
  assumes "handle_sample ck psz sm s = Inr s'"
  shows "s' = s \<or> (\<exists>x. s' = s\<lparr>enter_args := x\<rparr>) \<or> (\<exists>pid a z. insert_object ck psz pid a z s = Inr s')
      \<or> (\<exists>pid a z. deallocate_object ck pid a z s = Inr s')"
  using assms unfolding handle_sample_def Let_def by (simp split: if_splits option.splits) blast+

lemma tab_step_sample: "handle_sample ck psz sm s = Inr s' \<Longrightarrow> tab_step s s'"
  using sample_cases tab_step_refl tab_step_enter tab_step_insert tab_step_deallocate by metis

lemma tab_step_event: "handle_event ck psz ev s = Inr s' \<Longrightarrow> tab_step s s'"
  by (cases ev) (auto simp: handle_event_def tab_step_refl tab_step_sample)

section \<open>The monitor\<close>

lemma monitor_event_quiet: "monitor_event pm ev s = Inr s' \<Longrightarrow> quiet s s'"
  by (auto simp: monitor_event_def monitor_sample_def handle_store_def upd_copy_def quiet_def rbind_Inr_iff Let_def
      split: mem_event.splits option.splits if_splits)

lemma monitor_map_quiet: "monitor_map pm evs s = Inr s' \<Longrightarrow> quiet s s'"
  by (induction evs arbitrary: s) (auto simp: rbind_Inr_iff intro: quiet_trans monitor_event_quiet)

lemma tab_step_monitor:
  assumes "monitor_period pm ms s = Inr s'"
  shows "tab_step s s'"
proof -
  obtain s1 where s1: "monitor_map pm (all_events ms) (s\<lparr>tm_copy := clear_metrics (tm_copy s)\<rparr>) = Inr s1" "update_metrics s1 = Inr s'"
    using assms by (auto simp: monitor_period_def monitor_maps_all rbind_Inr_iff)
  have q: "quiet s s1" using monitor_map_quiet [OF s1(1)] by (simp add: quiet_def)
  have "tab_step s1 s'" unfolding tab_step_def
  proof
    assume inv: "rec_inv s1"
    then obtain t where t: "s' = s1\<lparr>tm := t\<rparr>" "metrics_only (tm s1) t" using update_metrics_spec [OF inv] s1(2) by auto
    with metrics_only_inv [OF t(2) inv] show "rec_inv s' \<and> slots_kept s1 s'
        \<and> (\<exists>ds. migration_pipe s' = migration_pipe s1 @ ds \<and> (\<forall>d \<in> set ds. msg_ok s' d))"
      by (simp add: slots_kept_def metrics_only_def)
  qed
  with quiet_tab [OF q] show ?thesis by (rule tab_step_trans)
qed

section \<open>The actuator\<close>

lemma still_quiet: "still s s' \<Longrightarrow> quiet s s'"
  by (simp add: still_def quiet_def)

text \<open>A request for a live object of the table, written by the actuator.\<close>

lemma act_request_tab:
  assumes "obj_alloc (tm s) k = 1" "k < MAX_OBJECTS" "(ty, node) = (PROMOTION, 0) \<or> (ty, node) = (DEMOTION, 2)"
    "\<And>ob. o_start_addr (f ob) = o_start_addr ob \<and> o_size (f ob) = o_size ob \<and> o_end_addr (f ob) = o_end_addr ob
       \<and> o_obj_index (f ob) = o_obj_index ob"
  shows "tab_step s (upd_object k f (act_bind_order (o_start_addr (obj_vector (tm s) k)) (o_size (obj_vector (tm s) k)) node (int k) ty s))"
    (is "tab_step s ?s")
  unfolding tab_step_def
proof
  assume inv: "rec_inv s"
  then have k: "k < rec_index s" using assms(1,2) by (auto simp: rec_inv_def not_le [symmetric])
  have "rec_inv ?s" "slots_kept s ?s"
    using inv assms(4) by (auto simp: rec_inv_def slot_ok_def slots_kept_def upd_object_def act_bind_order_def Let_def)
  moreover have "\<exists>ds. migration_pipe ?s = migration_pipe s @ ds \<and> (\<forall>d \<in> set ds. msg_ok ?s d)"
    using k assms(3,4)
    by (cases "act_write_fd s = - 1") (auto simp: upd_object_def act_bind_order_def Let_def msg_ok_def)
  ultimately show "rec_inv ?s \<and> slots_kept s ?s \<and> (\<exists>ds. migration_pipe ?s = migration_pipe s @ ds \<and> (\<forall>d \<in> set ds. msg_ok ?s d))"
    by blast
qed

text \<open>An update of one object that keeps its range.\<close>

lemma upd_object_tab:
  assumes "\<And>ob. o_start_addr (f ob) = o_start_addr ob \<and> o_size (f ob) = o_size ob \<and> o_end_addr (f ob) = o_end_addr ob
       \<and> o_obj_index (f ob) = o_obj_index ob"
  shows "tab_step s (upd_object k f s)"
  using assms by (auto simp: tab_step_def rec_inv_def slot_ok_def slots_kept_def upd_object_def)

lemma quiet_tick [simp]: "quiet s (s\<lparr>ticks := n\<rparr>)"
  by (simp add: quiet_def)

lemma tab_step_tick: "tab_step (s\<lparr>ticks := n\<rparr>) s' \<Longrightarrow> tab_step s s'"
  by (rule tab_step_trans [OF quiet_tab]) simp_all

lemma promoted_tab:
  assumes "obj_alloc (tm s) k = 1" "k < MAX_OBJECTS"
  shows "tab_step s (promoted c k s)"
proof -
  let ?t = "s\<lparr>ticks := ticks s + 1\<rparr>"
  let ?s1 = "upd_object k (\<lambda>ob. ob\<lparr>o_last_decision := 0\<rparr>)
      (act_bind_order (o_start_addr (obj_vector (tm ?t) k)) (o_size (obj_vector (tm ?t) k)) 0 (int k) PROMOTION ?t)"
  have "tab_step ?t ?s1" using act_request_tab [of ?t k PROMOTION 0 "\<lambda>ob. ob\<lparr>o_last_decision := 0\<rparr>"] assms by simp
  then have "tab_step s ?s1" by (rule tab_step_tick)
  moreover have "tab_step ?s1 (?s1\<lparr>ticks := ticks ?s1 + 1\<rparr>)" by (rule quiet_tab) simp
  moreover have "tab_step (?s1\<lparr>ticks := ticks ?s1 + 1\<rparr>) (promoted c k s)"
    unfolding promoted_def Let_def by simp (rule upd_object_tab, simp)
  ultimately show ?thesis using tab_step_trans by blast
qed

lemma demoted_tab:
  assumes "obj_alloc (tm s) k = 1" "k < MAX_OBJECTS"
  shows "tab_step s (demoted k s)"
proof -
  let ?t = "s\<lparr>ticks := ticks s + 2, has_demotion := 1\<rparr>"
  have "tab_step ?t (demoted k s)"
    using act_request_tab [of ?t k DEMOTION 2 "\<lambda>ob. ob\<lparr>o_last_decision := 2\<rparr>"] assms by (simp add: demoted_def Let_def)
  moreover have "tab_step s ?t" by (rule quiet_tab) (simp add: quiet_def)
  ultimately show ?thesis using tab_step_trans by blast
qed

interpretation tab: actuator_relation tab_step
  by unfold_locales (blast intro: tab_step_trans, blast intro: quiet_tab still_quiet, blast intro: promoted_tab,
    blast intro: demoted_tab, rule upd_object_tab, simp)

section \<open>Steps of the system\<close>

text \<open>What the surroundings provide: the clock and page size, the perf data layout, the sorting function, the system
  calls of the two processes.\<close>

record sys_env =
  e_act :: act_env
  e_pm :: perf_mem
  e_qs :: "(key_value \<Rightarrow> key_value \<Rightarrow> int) \<Rightarrow> key_value list \<Rightarrow> key_value list"
  e_pre :: preload_env

text \<open>The state: the scheduler with the variable \<open>count\<close> of its actuator thread, and the preload library. The messages in
  the pipe that have not been read are those behind the ones served.\<close>

record sys =
  y_sched :: scheduler
  y_count :: int
  y_pre :: preload

inductive sys_step :: "sys_env \<Rightarrow> sys \<Rightarrow> sys \<Rightarrow> bool" for env where
  Intercept: "g_running_intercept (y_sched y) = 1 \<Longrightarrow>
     handle_event (clk (e_act env)) (pagesize (e_act env)) ev (y_sched y) = Inr s' \<Longrightarrow> sys_step env y (y\<lparr>y_sched := s'\<rparr>)"
| Monitor: "g_running_monitor (y_sched y) = 1 \<Longrightarrow> monitor_period (e_pm env) ms (y_sched y) = Inr s' \<Longrightarrow>
     sys_step env y (y\<lparr>y_sched := s'\<rparr>)"
| Actuator: "g_running_actuator (y_sched y) = 1 \<Longrightarrow>
     actuator_turn (e_act env) (e_qs env) junk (y_count y) (y_sched y) = Inr (cnt, s') \<Longrightarrow>
     sys_step env y (y\<lparr>y_sched := s', y_count := cnt\<rparr>)"
| Serve: "length (mbind_calls (y_pre y)) < length (migration_pipe (y_sched y)) \<Longrightarrow>
     handle_request (e_pre env) (migration_pipe (y_sched y) ! length (mbind_calls (y_pre y))) (y_pre y) = Inr p' \<Longrightarrow>
     sys_step env y (y\<lparr>y_pre := p'\<rparr>)"
| Signal: "sys_step env y (y\<lparr>y_sched := close_start_threads (y_sched y)\<rparr>)"

inductive sys_run :: "sys_env \<Rightarrow> sys \<Rightarrow> sys \<Rightarrow> bool" for env where
  Start: "sys_run env y y"
| Step: "sys_run env y y1 \<Longrightarrow> sys_step env y1 y2 \<Longrightarrow> sys_run env y y2"

lemma sys_run_trans: "sys_run env y1 y2 \<Longrightarrow> sys_run env y y1 \<Longrightarrow> sys_run env y y2"
  by (induction rule: sys_run.induct) (auto intro: sys_run.intros)

text \<open>The invariant: the table is well formed, every message names a recorded object, and the library has served the first
  messages.\<close>

definition sys_inv :: "sys \<Rightarrow> bool" where
  "sys_inv y \<longleftrightarrow> rec_inv (y_sched y) \<and> (\<forall>d \<in> set (migration_pipe (y_sched y)). msg_ok (y_sched y) d)
     \<and> mbind_calls (y_pre y) = take (length (mbind_calls (y_pre y))) (migration_pipe (y_sched y))"

lemma sys_inv_tab:
  assumes "sys_inv y" "tab_step (y_sched y) s'"
  shows "sys_inv (y\<lparr>y_sched := s', y_count := c\<rparr>)"
proof -
  obtain ds where ds: "rec_inv s'" "slots_kept (y_sched y) s'" "migration_pipe s' = migration_pipe (y_sched y) @ ds" "\<forall>d \<in> set ds. msg_ok s' d"
    using assms by (auto simp: sys_inv_def tab_step_def)
  let ?n = "length (mbind_calls (y_pre y))" and ?pipe = "migration_pipe (y_sched y)"
  have pre: "mbind_calls (y_pre y) = take ?n ?pipe" using assms(1) by (simp add: sys_inv_def)
  have "?n \<le> length ?pipe" by (subst pre) simp
  then have "take ?n (?pipe @ ds) = take ?n ?pipe" by simp
  with pre have "mbind_calls (y_pre y) = take ?n (?pipe @ ds)" by simp
  with ds msg_ok_kept [OF ds(2)] assms(1) show ?thesis by (auto simp: sys_inv_def)
qed

lemma close_quiet: "quiet s (close_start_threads s)"
  by (simp add: quiet_def close_start_threads_def)

lemma preload_timestamp_calls: "preload_timestamp env p = Inr (t, p') \<Longrightarrow> mbind_calls p' = mbind_calls p"
  by (auto simp: preload_timestamp_def split: option.splits)

lemma execute_mbind_calls: "execute_mbind env d p = Inr p' \<Longrightarrow> mbind_calls p' = mbind_calls p @ [d]"
  by (auto simp: execute_mbind_def rbind_Inr_iff Let_def split: if_splits dest!: preload_timestamp_calls)

lemma handle_request_calls:
  assumes "handle_request env d p = Inr p'"
  shows "mbind_calls p' = mbind_calls p @ [d]"
proof -
  obtain t p1 where p1: "preload_timestamp env p = Inr (t, p1)"
    using assms by (cases "preload_timestamp env p") (auto simp: handle_request_def split: if_splits)
  obtain start stop where "p_times env (length (mbind_calls p1)) = (start, stop)" by (cases "p_times env (length (mbind_calls p1))")
  with assms p1 obtain p2 where p2: "execute_mbind env d p1 = Inr p2" "mbind_calls p' = mbind_calls p2"
    by (auto simp: handle_request_def rbind_Inr_iff split: if_splits)
  then show ?thesis using execute_mbind_calls preload_timestamp_calls [OF p1] by simp
qed

lemma sys_step_inv:
  assumes "sys_step env y y'" "sys_inv y"
  shows "sys_inv y'"
  using assms
proof (induction rule: sys_step.induct)
  case (Serve y p')
  let ?n = "length (mbind_calls (y_pre y))" and ?pipe = "migration_pipe (y_sched y)"
  have "mbind_calls p' = mbind_calls (y_pre y) @ [?pipe ! ?n]" using Serve(2) by (rule handle_request_calls)
  also have "\<dots> = take (Suc ?n) ?pipe" using Serve(1,3) by (simp add: sys_inv_def take_Suc_conv_app_nth)
  finally show ?case using Serve(1,3) by (simp add: sys_inv_def)
next
  case (Intercept y ev s')
  then show ?case using sys_inv_tab [of y s' "y_count y"] tab_step_event [OF Intercept(2)] by simp
next
  case (Monitor y ms s')
  then show ?case using sys_inv_tab [of y s' "y_count y"] tab_step_monitor [OF Monitor(2)] by simp
next
  case (Actuator y junk cnt s')
  then show ?case using sys_inv_tab [of y s' cnt] tab.actuator_turn_R [OF Actuator(2)] by simp
next
  case (Signal y)
  then show ?case using sys_inv_tab [of y _ "y_count y"] quiet_tab [OF close_quiet [of "y_sched y"]] by simp
qed

lemma sys_run_inv: "sys_run env y y' \<Longrightarrow> sys_inv y \<Longrightarrow> sys_inv y'"
  by (induction rule: sys_run.induct) (auto intro: sys_step_inv)

section \<open>Start and end\<close>

lemma start_main_inv:
  assumes "start_main scn getenv sig reading s = Inr (0, s0)" "rec_index s = 0"
  shows "rec_inv s0 \<and> migration_pipe s0 = []"
proof -
  have frame: "rec_index s1 = rec_index s" if "read_enviroment_variables scn getenv s = Inr s1" for s1
    using that by (auto simp: read_enviroment_variables_def sscanf_def Let_def rbind_Inr_iff split: option.splits if_splits)
  show ?thesis
    using assms frame rec_inv_init
    by (auto simp: start_main_def set_current_free_dram_def start_threads_open_pipes_def rbind_Inr_iff Let_def rec_inv_def
        initialize_recorder_def split: option.splits if_splits)
qed

inductive_cases sys_stepE: "sys_step env y y'"

lemma serve_all:
  assumes "sys_inv y" "penv_ok (e_pre env)" "p_write_fd (y_pre y) \<noteq> - 1" "p_log_open (y_pre y)"
  shows "\<exists>p'. sys_run env y (y\<lparr>y_pre := p'\<rparr>) \<and> mbind_calls p' = migration_pipe (y_sched y)"
  using assms
proof (induction "length (migration_pipe (y_sched y)) - length (mbind_calls (y_pre y))" arbitrary: y)
  case 0
  have "mbind_calls (y_pre y) = take (length (mbind_calls (y_pre y))) (migration_pipe (y_sched y))" using "0.prems"(1) by (simp add: sys_inv_def)
  with "0.hyps" have "mbind_calls (y_pre y) = migration_pipe (y_sched y)" by simp
  then show ?case by (intro exI [of _ "y_pre y"]) (simp add: sys_run.Start)
next
  case (Suc n)
  let ?d = "migration_pipe (y_sched y) ! length (mbind_calls (y_pre y))"
  obtain p1 where p1: "handle_request (e_pre env) ?d (y_pre y) = Inr p1" "serves (e_pre env) [?d] (y_pre y) p1"
    using handle_request_serves [OF Suc.prems(2-4)] by blast
  let ?y = "y\<lparr>y_pre := p1\<rparr>"
  have step: "sys_step env y ?y" using Suc.hyps(2) p1(1) by (intro sys_step.Serve) simp_all
  have "n = length (migration_pipe (y_sched ?y)) - length (mbind_calls (y_pre ?y))" using Suc.hyps(2) p1(2) by (simp add: serves_def)
  then obtain p' where "sys_run env ?y (?y\<lparr>y_pre := p'\<rparr>)" "mbind_calls p' = migration_pipe (y_sched ?y)"
    using Suc.hyps(1) [of ?y] sys_step_inv [OF step Suc.prems(1)] Suc.prems(2-4) p1(2) by (auto simp: serves_def)
  then show ?case using sys_run_trans [OF _ sys_run.Step [OF sys_run.Start step]] by (intro exI [of _ p']) simp
qed

section \<open>Failed migrations\<close>

lemma check_migration_error_undo:
  assumes "\<forall>d \<in> set ds. \<exists>k < MAX_OBJECTS. d_obj_index d = int k \<and> obj_alloc (tm s) k = 1 \<and> d_type d \<noteq> INITIAL_DATAPLACEMENT"
  shows "\<exists>s'. check_migration_error ds s = Inr s' \<and> (\<forall>k. o_last_decision (obj_vector (tm s') k) =
    (if int k \<in> d_obj_index ` set ds then - 1 else o_last_decision (obj_vector (tm s) k)))"
  using assms
proof (induction ds arbitrary: s)
  case (Cons d ds)
  obtain k where k: "k < MAX_OBJECTS" "d_obj_index d = int k" "obj_alloc (tm s) k = 1" "d_type d \<noteq> INITIAL_DATAPLACEMENT"
    using Cons.prems by auto
  let ?s = "upd_object k (\<lambda>ob. ob\<lparr>o_last_decision := - 1\<rparr>) s"
  have "obj_alloc (tm ?s) = obj_alloc (tm s)" by (simp add: upd_object_def)
  then obtain s' where s': "check_migration_error ds ?s = Inr s'" "\<forall>j. o_last_decision (obj_vector (tm s') j) =
      (if int j \<in> d_obj_index ` set ds then - 1 else o_last_decision (obj_vector (tm ?s) j))"
    using Cons.IH [of ?s] Cons.prems by auto
  then show ?case using k by (intro exI [of _ s']) (auto simp: upd_object_def)
qed simp

lemma all_failures: "(\<And>n d. p_mbind env n d = - 1) \<Longrightarrow> failures env n ds = ds"
  by (induction ds arbitrary: n) simp_all

end
