(* ===== verification/Monitor_Bounds.thy ===== *)
theory Monitor_Bounds
  imports Monitor_Correct
begin

text \<open>
  Bounds on the counters of the monitor: a period returns whatever the outcomes of the allocations of the store map,
  and keeps every metric of the table finite, nonnegative and below a fixed bound.
\<close>

section \<open>The store map\<close>

lemma set_any:
  assumes "hm_inv ceq m" "size (hm_items m) < hm_limit"
  shows "\<exists>m' r. hashmap_set ok m (Some x) = Inr (m', r) \<and> hm_inv ceq m' \<and> key_eq ceq m' = key_eq ceq m
    \<and> size (hm_items m') \<le> Suc (size (hm_items m))"
proof (cases "hm_count m = hm_growat m \<and> \<not> (fst ok \<and> snd ok)")
  case True
  obtain p where p: "hm_shape m p" using assms(1) by (auto simp: hm_inv_def)
  have "hashmap_set ok m (Some x) = Inr (m\<lparr>hm_oom := True\<rparr>, None)"
    using p True by (intro hashmap_set_oom [of m p]) (auto simp: hm_shape_def)
  moreover have "hm_inv ceq (m\<lparr>hm_oom := True\<rparr>)"
    using assms(1) by (auto simp: hm_inv_def hm_shape_def hm_data_def h48_def get_hash_def)
  moreover have "key_eq ceq (m\<lparr>hm_oom := True\<rparr>) = key_eq ceq m" by (simp add: key_eq_def fun_eq_iff h48_def get_hash_def)
  moreover have "hm_items (m\<lparr>hm_oom := True\<rparr>) = hm_items m" by (simp add: hm_items_def)
  ultimately show ?thesis by auto
next
  case False
  then have "hashmap_set ok m (Some x) = hashmap_set (True, True) m (Some x)"
    by (cases ok) (auto simp: hashmap_set_def)
  then show ?thesis using set_lookup [OF assms, of x] by auto
qed

lemma store_set_any:
  assumes "store_inv h" "size (hm_items h) < hm_limit"
  shows "\<exists>h' r. hashmap_set ok h (Some (u64to8_le a)) = Inr (h', r) \<and> store_inv h' \<and> size (hm_items h') \<le> Suc (size (hm_items h))"
  using set_any [OF _ assms(2), of any_eq ok "u64to8_le a"] assms(1) by (auto simp: store_inv_def)

section \<open>Bounds of the metrics\<close>

definition metrics_in :: "rat \<Rightarrow> rat \<Rightarrow> metrics \<Rightarrow> bool" where
  "metrics_in b d m \<longleftrightarrow> (\<forall>l < MEM_LEVELS. fp_in 0 b (sum_latency_cost m l) \<and> fp_in 0 b (loads_count m l)
      \<and> fp_in 0 b (tlb_hit m l) \<and> fp_in 0 b (tlb_miss m l)) \<and> fp_in 0 d (stores_count m)"

definition table_in :: "rat \<Rightarrow> rat \<Rightarrow> tier_manager \<Rightarrow> bool" where
  "table_in b d t \<longleftrightarrow> (\<forall>i < MAX_OBJECTS. metrics_in b d (o_metrics (obj_vector t i)))"

lemma metrics_in_mono: "metrics_in b d m \<Longrightarrow> b \<le> b' \<Longrightarrow> d \<le> d' \<Longrightarrow> metrics_in b' d' m"
  unfolding metrics_in_def using fp_in_mono by blast

lemma table_in_mono: "table_in b d t \<Longrightarrow> b \<le> b' \<Longrightarrow> d \<le> d' \<Longrightarrow> table_in b' d' t"
  unfolding table_in_def using metrics_in_mono by blast

text \<open>After \<open>n\<close> samples a sum is at most \<open>n\<close> times the largest weight.\<close>

definition sum_bound :: "nat \<Rightarrow> rat" where
  "sum_bound n = of_nat n * 2 ^ 64"

lemma sum_bound_mono: "n \<le> m \<Longrightarrow> sum_bound n \<le> sum_bound m"
  by (simp add: sum_bound_def)

lemma sum_up:
  assumes "fp_in 0 (sum_bound n) x" "fp_in 0 (2 ^ 64) y" "Suc n < 2 ^ 53"
  shows "fp_in 0 (sum_bound (Suc n)) (dadd x y)"
proof -
  have "(of_nat n * 2 ^ 64 + 2 ^ 64 :: rat) = of_int (int (Suc n)) * pow2 64"
    by (simp add: pow2_def algebra_simps)
  then have "d_of (of_nat n * 2 ^ 64 + 2 ^ 64) = Fin (of_nat n * 2 ^ 64 + 2 ^ 64)"
    by (rule d_of_exact) (use assms(3) in simp_all)
  then have "fp_in (0 + 0) (of_nat n * 2 ^ 64 + 2 ^ 64) (dadd x y)"
    using assms(1,2) by (intro dbl.add_in) (simp_all add: sum_bound_def)
  then show ?thesis by (simp add: sum_bound_def algebra_simps)
qed

lemma count_up_in:
  assumes "fp_in 0 (of_nat d) x" "Suc d < 2 ^ 53"
  shows "fp_in 0 (of_nat (Suc d)) (dadd x (Fin 1))"
proof -
  have "d_of (of_nat d + 1) = Fin (of_nat d + 1)" using d_of_nat [OF assms(2)] by (simp add: add.commute)
  then have "fp_in (0 + 0) (of_nat d + 1) (dadd x (Fin 1))" using assms(1) by (intro dbl.add_in) simp_all
  then show ?thesis by (simp add: add.commute)
qed

lemma weight_in: "fp_in 0 (2 ^ 64) (d_ulong w)"
proof -
  have hi: "d_of (2 ^ 64) = Fin (2 ^ 64)" by (rule d_of_exact [where m = 1 and q = 64]) (simp_all add: pow2_def)
  have "(of_nat (unat w) :: rat) \<le> of_nat (2 ^ 64)" using unsigned_less [of w, where 'a = nat] by (intro of_nat_mono) simp
  then have "(of_nat (unat w) :: rat) \<le> 2 ^ 64" by (simp only: of_nat_power of_nat_numeral)
  then show ?thesis unfolding d_ulong_def by (rule dbl.r_between [OF dbl.r_zero hi of_nat_0_le_iff])
qed

lemma load_metrics_in:
  assumes "metrics_in (sum_bound n) d m" "Suc n < 2 ^ 53"
  shows "metrics_in (sum_bound (Suc n)) d (load_metrics pm e m)"
proof -
  have mono: "metrics_in (sum_bound (Suc n)) d m" by (rule metrics_in_mono [OF assms(1)]) (simp_all add: sum_bound_mono)
  have up: "fp_in 0 (sum_bound (Suc n)) (incr v l x j)" if "fp_in 0 (sum_bound n) (v j)" "fp_in 0 (2 ^ 64) x" for v l x j
    using sum_up [OF that assms(2)] fp_in_mono [OF that(1) order_refl sum_bound_mono, of "Suc n"] by (auto simp: incr_def)
  have w: "fp_in 0 (2 ^ 64) (Fin 1)" "fp_in 0 (2 ^ 64) (d_ulong (ms_weight e))" by (simp, rule weight_in)
  show ?thesis
    using assms(1) mono up w
    by (cases "load_level pm (ms_data_src e)") (simp_all add: load_metrics_def Let_def metrics_in_def del: power_numeral numeral_power_eq_of_nat_cancel_iff)
qed

section \<open>One period\<close>

text \<open>The operation of a sample is one of those that the code tests for.\<close>

fun known_op :: "perf_mem \<Rightarrow> mem_event \<Rightarrow> bool" where
  "known_op pm (Mem_sample e ok) \<longleftrightarrow> (\<exists>n. get_data_src_opcode pm (ms_data_src e) = Inr n)"
| "known_op pm Mem_other \<longleftrightarrow> True"

fun is_store :: "perf_mem \<Rightarrow> mem_event \<Rightarrow> bool" where
  "is_store pm (Mem_sample e ok) \<longleftrightarrow> get_data_src_opcode pm (ms_data_src e) = Inr 2"
| "is_store pm Mem_other \<longleftrightarrow> False"

definition stores :: "perf_mem \<Rightarrow> mem_event list \<Rightarrow> nat" where
  "stores pm evs = length (filter (is_store pm) evs)"

lemma stores_simps [simp]:
  "stores pm [] = 0" "stores pm (ev # evs) = (if is_store pm ev then Suc (stores pm evs) else stores pm evs)"
  by (simp_all add: stores_def)

text \<open>The store map is usable and holds at most \<open>d\<close> addresses; no counter of the copy exceeds its bound after \<open>n\<close> samples,
  of which \<open>d - d0\<close> are stores.\<close>

definition map_ok :: "nat \<Rightarrow> 'z monitor_scheme \<Rightarrow> bool" where
  "map_ok d s \<longleftrightarrow> (\<exists>h. store_map s = Some h \<and> store_inv h \<and> size (hm_items h) \<le> d)"

lemma handle_store_in:
  assumes "map_ok d s" "d < hm_limit" "table_in (sum_bound n) (of_nat e) (tm_copy s)" "Suc e < 2 ^ 53" "i < MAX_OBJECTS"
  shows "\<exists>c h. handle_store ok i a s = Inr (s\<lparr>tm_copy := c, store_map := h\<rparr>)
    \<and> map_ok (Suc d) (s\<lparr>tm_copy := c, store_map := h\<rparr>) \<and> table_in (sum_bound (Suc n)) (of_nat (Suc e)) c"
proof -
  obtain h where h: "store_map s = Some h" "store_inv h" "size (hm_items h) \<le> d" using assms(1) by (auto simp: map_ok_def)
  show ?thesis
  proof (cases "hm_lookup any_eq h (u64to8_le a)")
    case (Some x)
    have "table_in (sum_bound (Suc n)) (of_nat (Suc e)) (tm_copy s)"
      by (rule table_in_mono [OF assms(3)]) (simp_all add: sum_bound_mono)
    with Some h show ?thesis
      by (intro exI [of _ "tm_copy s"] exI [of _ "Some h"]) (auto simp: handle_store_def store_get same_state map_ok_def)
  next
    case None
    let ?c = "tm_copy (upd_copy i (\<lambda>m. m\<lparr>stores_count := dadd (stores_count m) (Fin 1)\<rparr>) s)"
    obtain h' r where h': "hashmap_set ok h (Some (u64to8_le a)) = Inr (h', r)" "store_inv h'" "size (hm_items h') \<le> Suc (size (hm_items h))"
      using store_set_any [OF h(2)] h(3) assms(2) by (meson le_less_trans)
    have "table_in (sum_bound n) (of_nat (Suc e)) (tm_copy s)" by (rule table_in_mono [OF assms(3)]) simp_all
    moreover have "fp_in 0 (of_nat (Suc e)) (dadd (stores_count (o_metrics (obj_vector (tm_copy s) i))) (Fin 1))"
      using assms(3,5) by (intro count_up_in assms(4)) (simp add: table_in_def metrics_in_def)
    ultimately have "table_in (sum_bound n) (of_nat (Suc e)) ?c" by (simp add: table_in_def metrics_in_def upd_copy_def del: of_nat_Suc)
    then have "table_in (sum_bound (Suc n)) (of_nat (Suc e)) ?c" by (rule table_in_mono) (simp_all add: sum_bound_mono)
    with None h h' show ?thesis
      by (intro exI [of _ ?c] exI [of _ "Some h'"]) (simp add: handle_store_def store_get Let_def map_ok_def upd_copy_def)
  qed
qed

lemma monitor_event_in:
  assumes "map_ok d s" "is_store pm ev \<Longrightarrow> d < hm_limit \<and> Suc e < 2 ^ 53" "table_in (sum_bound n) (of_nat e) (tm_copy s)" "Suc n < 2 ^ 53"
    "known_op pm ev"
  shows "\<exists>c h. monitor_event pm ev s = Inr (s\<lparr>tm_copy := c, store_map := h\<rparr>)
    \<and> map_ok (if is_store pm ev then Suc d else d) (s\<lparr>tm_copy := c, store_map := h\<rparr>)
    \<and> table_in (sum_bound (Suc n)) (of_nat (if is_store pm ev then Suc e else e)) c"
proof -
  obtain h where h: "store_map s = Some h" "store_inv h" "size (hm_items h) \<le> d" using assms(1) by (auto simp: map_ok_def)
  have up: "table_in (sum_bound (Suc n)) b (tm_copy s)" if "of_nat e \<le> b" for b
    using that by (intro table_in_mono [OF assms(3)]) (simp_all add: sum_bound_mono)
  have same: "\<exists>c h. Inr s = (Inr (s\<lparr>tm_copy := c, store_map := h\<rparr>) :: 'a monitor_scheme res)
    \<and> map_ok (if is_store pm ev then Suc d else d) (s\<lparr>tm_copy := c, store_map := h\<rparr>)
    \<and> table_in (sum_bound (Suc n)) (of_nat (if is_store pm ev then Suc e else e)) c"
    using h up by (intro exI [of _ "tm_copy s"] exI [of _ "Some h"]) (auto simp: same_state map_ok_def simp del: of_nat_Suc)
  show ?thesis
  proof (cases ev)
    case Mem_other
    with same show ?thesis by (simp add: monitor_event_def)
  next
    case (Mem_sample m ok)
    obtain op where op: "get_data_src_opcode pm (ms_data_src m) = Inr op" using assms(5) Mem_sample by auto
    consider "get_vector_index (tm s) (ms_addr m) = None" | "op \<noteq> 1" "op \<noteq> 2"
      | i where "get_vector_index (tm s) (ms_addr m) = Some i" "op = 1" | i where "get_vector_index (tm s) (ms_addr m) = Some i" "op = 2"
      by (cases "get_vector_index (tm s) (ms_addr m)") auto
    then show ?thesis
    proof cases
      case 3
      let ?c = "tm_copy (upd_copy i (load_metrics pm m) s)"
      have "table_in (sum_bound (Suc n)) (of_nat e) ?c"
        using up [of "of_nat e"] assms(3,4) get_vector_index_lt [OF 3(1)] load_metrics_in [of n "of_nat e" _ pm m]
        by (simp add: table_in_def upd_copy_def)
      moreover have eq: "s\<lparr>tm_copy := ?c, store_map := Some h\<rparr> = upd_copy i (load_metrics pm m) s"
        using same_state [of "upd_copy i (load_metrics pm m) s" h] h(1) by (simp add: upd_copy_def)
      moreover have "map_ok d (upd_copy i (load_metrics pm m) s)" using assms(1) by (simp add: map_ok_def upd_copy_def)
      ultimately show ?thesis using 3 op Mem_sample
        by (intro exI [of _ ?c] exI [of _ "Some h"]) (simp add: monitor_event_def monitor_sample_def)
    next
      case 4
      have st: "is_store pm ev" using 4 op Mem_sample by simp
      show ?thesis
        using handle_store_in [OF assms(1) _ assms(3) _ get_vector_index_lt [OF 4(1)], of ok "ms_addr m"] 4 op st assms(2) Mem_sample
        by (simp add: monitor_event_def monitor_sample_def)
    qed (use same op Mem_sample in \<open>simp_all add: monitor_event_def monitor_sample_def split: option.split\<close>)
  qed
qed

lemma monitor_map_in:
  assumes "map_ok d s" "d + stores pm evs \<le> hm_limit" "table_in (sum_bound n) (of_nat e) (tm_copy s)"
    "n + length evs < 2 ^ 53" "e + stores pm evs < 2 ^ 53" "list_all (known_op pm) evs"
  shows "\<exists>c h. monitor_map pm evs s = Inr (s\<lparr>tm_copy := c, store_map := h\<rparr>)
    \<and> map_ok (d + stores pm evs) (s\<lparr>tm_copy := c, store_map := h\<rparr>)
    \<and> table_in (sum_bound (n + length evs)) (of_nat (e + stores pm evs)) c"
  using assms
proof (induction evs arbitrary: s d n e)
  case Nil
  then obtain h where "store_map s = Some h" by (auto simp: map_ok_def)
  with Nil show ?case by (intro exI [of _ "tm_copy s"] exI [of _ "Some h"]) (simp add: same_state map_ok_def)
next
  case (Cons ev evs)
  let ?d = "if is_store pm ev then Suc d else d" and ?e = "if is_store pm ev then Suc e else e"
  obtain c h where 1: "monitor_event pm ev s = Inr (s\<lparr>tm_copy := c, store_map := h\<rparr>)"
      "map_ok ?d (s\<lparr>tm_copy := c, store_map := h\<rparr>)" "table_in (sum_bound (Suc n)) (of_nat ?e) c"
    using monitor_event_in [OF Cons.prems(1) _ Cons.prems(3), of pm ev] Cons.prems(2,4-6) by (auto split: if_splits)
  let ?s = "s\<lparr>tm_copy := c, store_map := h\<rparr>"
  have "\<exists>c h. monitor_map pm evs ?s = Inr (?s\<lparr>tm_copy := c, store_map := h\<rparr>)
    \<and> map_ok (?d + stores pm evs) (?s\<lparr>tm_copy := c, store_map := h\<rparr>)
    \<and> table_in (sum_bound (Suc n + length evs)) (of_nat (?e + stores pm evs)) c"
    using Cons.prems(2,4-6) 1 by (intro Cons.IH) (simp_all split: if_splits)
  then obtain c' h' where "monitor_map pm evs ?s = Inr (?s\<lparr>tm_copy := c', store_map := h'\<rparr>)"
    "map_ok (?d + stores pm evs) (?s\<lparr>tm_copy := c', store_map := h'\<rparr>)"
    "table_in (sum_bound (Suc n + length evs)) (of_nat (?e + stores pm evs)) c'" by blast
  with 1(1) show ?case by (intro exI [of _ c'] exI [of _ h']) (simp add: ac_simps split: if_splits)
qed

lemma clear_in: "table_in (sum_bound 0) (of_nat 0) (clear_metrics c)"
  by (simp add: table_in_def metrics_in_def clear_metrics_def clear_object_def sum_bound_def)

text \<open>The bound of the metrics of the table: the weights of \<open>2 ^ 53\<close> samples.\<close>

definition metric_max :: rat where
  "metric_max = 2 ^ 117"

lemma sum_bound_max:
  assumes "n < 2 ^ 53"
  shows "sum_bound n \<le> metric_max"
proof -
  have "(of_nat n :: rat) \<le> of_nat (2 ^ 53)" using assms by (intro of_nat_mono) simp
  then have "of_nat n * 2 ^ 64 \<le> (2 ^ 53 * 2 ^ 64 :: rat)" by (intro mult_right_mono) simp_all
  also have "\<dots> = 2 ^ 117" by (simp flip: power_add)
  finally show ?thesis by (simp add: sum_bound_def metric_max_def)
qed

lemma update_in:
  assumes "metrics_in metric_max (of_nat e) m" "metrics_in metric_max (of_nat d) c" "e + d < 2 ^ 53"
  shows "metrics_in metric_max (of_nat (e + d)) (update_object_metrics c m)"
proof -
  have "d_of (of_nat e + of_nat d) = Fin (of_nat e + of_nat d)" using d_of_nat [OF assms(3)] by simp
  then have "fp_in (0 + 0) (of_nat e + of_nat d) (dadd (stores_count m) (stores_count c))"
    using assms(1,2) by (intro dbl.add_in) (simp_all add: metrics_in_def)
  moreover have "fp_in 0 metric_max x \<Longrightarrow> fp_in 0 metric_max y \<Longrightarrow> fp_in 0 metric_max (smooth x y)" for x y
    unfolding metric_max_def by (rule smooth_in) simp_all
  ultimately show ?thesis using assms(1,2) by (simp add: metrics_in_def update_object_metrics_def)
qed

text \<open>The metrics of the whole table, slots without an object included.\<close>

definition all_in :: "nat \<Rightarrow> tier_manager \<Rightarrow> bool" where
  "all_in d t \<longleftrightarrow> (\<forall>i. metrics_in metric_max (of_nat d) (o_metrics (obj_vector t i)))"

lemma monitor_period_in:
  assumes "rec_inv s" "map_ok d s" "all_in d (tm s)" "d + stores pm (all_events ms) \<le> hm_limit" "length (all_events ms) < 2 ^ 53"
    "list_all (known_op pm) (all_events ms)"
  shows "\<exists>c h t. monitor_period pm ms s = Inr (s\<lparr>tm_copy := c, store_map := h, tm := t\<rparr>) \<and> metrics_only (tm s) t
    \<and> map_ok (d + stores pm (all_events ms)) (s\<lparr>tm_copy := c, store_map := h, tm := t\<rparr>)
    \<and> all_in (d + stores pm (all_events ms)) t"
proof -
  let ?evs = "all_events ms" and ?s = "s\<lparr>tm_copy := clear_metrics (tm_copy s)\<rparr>"
  have "map_ok d ?s" using assms(2) by (simp add: map_ok_def)
  moreover have "table_in (sum_bound 0) (of_nat 0) (tm_copy ?s)" using clear_in by simp
  ultimately obtain c h where ch: "monitor_map pm ?evs ?s = Inr (?s\<lparr>tm_copy := c, store_map := h\<rparr>)"
      "map_ok (d + stores pm ?evs) (?s\<lparr>tm_copy := c, store_map := h\<rparr>)" "table_in (sum_bound (0 + length ?evs)) (of_nat (0 + stores pm ?evs)) c"
    using monitor_map_in [of d ?s pm ?evs 0 0] assms(4-6) by (auto simp: hm_limit_def)
  let ?s1 = "s\<lparr>tm_copy := c, store_map := h\<rparr>"
  have inv: "rec_inv ?s1" using assms(1) by (simp add: rec_inv_def)
  obtain t where t: "update_metrics ?s1 = Inr (?s1\<lparr>tm := t\<rparr>)" "metrics_only (tm ?s1) t"
      "\<And>i. o_metrics (obj_vector t i) = (if i < rec_index ?s1 \<and> obj_alloc (tm ?s1) i = 1
         then update_object_metrics (o_metrics (obj_vector (tm_copy ?s1) i)) (o_metrics (obj_vector (tm ?s1) i))
         else o_metrics (obj_vector (tm ?s1) i))"
    using update_metrics_spec [OF inv] by blast
  have c: "table_in metric_max (of_nat (stores pm ?evs)) c"
    using table_in_mono [OF ch(3) sum_bound_max order_refl] assms(5) by simp
  have "metrics_in metric_max (of_nat (d + stores pm ?evs)) (o_metrics (obj_vector t i))" for i
  proof (cases "i < rec_index s \<and> obj_alloc (tm s) i = 1")
    case True
    then have "i < MAX_OBJECTS" using assms(1) by (simp add: rec_inv_def)
    then show ?thesis using True t(3) [of i] c assms(3,4)
      by (simp add: table_in_def all_in_def update_in hm_limit_def del: of_nat_add)
  next
    case False
    then show ?thesis using t(3) [of i] assms(3) metrics_in_mono [of metric_max "of_nat d" _ metric_max "of_nat (d + stores pm ?evs)"]
      by (auto simp: all_in_def)
  qed
  then have "all_in (d + stores pm ?evs) t" by (simp add: all_in_def del: of_nat_add)
  moreover have "monitor_period pm ms s = Inr (?s1\<lparr>tm := t\<rparr>)" using ch(1) t(1) by (simp add: monitor_period_def monitor_maps_all)
  ultimately show ?thesis using t(2) ch(2) by (intro exI [of _ c] exI [of _ h] exI [of _ t]) (simp add: map_ok_def)
qed

end
