(* ===== verification/System_Runs.thy ===== *)
theory System_Runs
  imports System Monitor_Bounds
begin

text \<open>
  The composed system as a program: a list of events says which thread runs next and what it reads, and \<open>sys_execs\<close>
  computes the state after them. It computes exactly the runs of the step relation, and it never fails while the
  surroundings behave and the fixed tables have room.
\<close>

section \<open>Executing events\<close>

datatype sys_event =
    Record ring_event
  | Period "mem_event list option list"
  | Turn int
  | Serve_next
  | Close

definition sys_exec :: "sys_env \<Rightarrow> sys_event \<Rightarrow> sys \<Rightarrow> sys res" where
  "sys_exec env ev y = (case ev of
      Record r \<Rightarrow> if g_running_intercept (y_sched y) = 1
        then rbind (handle_event (clk (e_act env)) (pagesize (e_act env)) r (y_sched y)) (\<lambda>s. Inr (y\<lparr>y_sched := s\<rparr>)) else Inr y
    | Period ms \<Rightarrow> if g_running_monitor (y_sched y) = 1
        then rbind (monitor_period (e_pm env) ms (y_sched y)) (\<lambda>s. Inr (y\<lparr>y_sched := s\<rparr>)) else Inr y
    | Turn junk \<Rightarrow> if g_running_actuator (y_sched y) = 1
        then rbind (actuator_turn (e_act env) (e_qs env) junk (y_count y) (y_sched y))
          (\<lambda>(cnt, s). Inr (y\<lparr>y_sched := s, y_count := cnt\<rparr>)) else Inr y
    | Serve_next \<Rightarrow> if length (mbind_calls (y_pre y)) < length (migration_pipe (y_sched y))
        then rbind (handle_request (e_pre env) (migration_pipe (y_sched y) ! length (mbind_calls (y_pre y))) (y_pre y))
          (\<lambda>p. Inr (y\<lparr>y_pre := p\<rparr>)) else Inr y
    | Close \<Rightarrow> Inr (y\<lparr>y_sched := close_start_threads (y_sched y)\<rparr>))"

fun sys_execs :: "sys_env \<Rightarrow> sys_event list \<Rightarrow> sys \<Rightarrow> sys res" where
  "sys_execs env [] y = Inr y"
| "sys_execs env (ev # evs) y = rbind (sys_exec env ev y) (sys_execs env evs)"

lemma sys_execs_append: "sys_execs env (xs @ ys) y = rbind (sys_execs env xs y) (sys_execs env ys)"
  by (induction xs arbitrary: y) (auto simp: rbind_def split: sum.splits)

lemma exec_is_step: "sys_exec env ev y = Inr y' \<Longrightarrow> y' = y \<or> sys_step env y y'"
  by (cases ev) (auto simp: sys_exec_def rbind_Inr_iff intro: sys_step.intros split: if_splits)

lemma step_is_exec: "sys_step env y y' \<Longrightarrow> \<exists>ev. sys_exec env ev y = Inr y'"
proof (induction rule: sys_step.induct)
  case (Intercept y ev s')
  then show ?case by (intro exI [of _ "Record ev"]) (simp add: sys_exec_def)
next
  case (Monitor y ms s')
  then show ?case by (intro exI [of _ "Period ms"]) (simp add: sys_exec_def)
next
  case (Actuator y junk cnt s')
  then show ?case by (intro exI [of _ "Turn junk"]) (simp add: sys_exec_def)
next
  case (Serve y p')
  then show ?case by (intro exI [of _ Serve_next]) (simp add: sys_exec_def)
next
  case (Signal y)
  then show ?case by (intro exI [of _ Close]) (simp add: sys_exec_def)
qed

lemma execs_run: "sys_execs env evs y = Inr y' \<Longrightarrow> sys_run env y y'"
proof (induction evs arbitrary: y)
  case (Cons ev evs)
  then obtain y1 where 1: "sys_exec env ev y = Inr y1" "sys_execs env evs y1 = Inr y'" by (auto simp: rbind_Inr_iff)
  have "sys_run env y y1" using exec_is_step [OF 1(1)] by (auto intro: sys_run.intros)
  with Cons.IH [OF 1(2)] show ?case by (rule sys_run_trans)
qed (simp add: sys_run.Start)

lemma run_execs: "sys_run env y y' \<Longrightarrow> \<exists>evs. sys_execs env evs y = Inr y'"
proof (induction rule: sys_run.induct)
  case (Step y y1 y2)
  then obtain evs ev where "sys_execs env evs y = Inr y1" "sys_exec env ev y1 = Inr y2" using step_is_exec by blast
  then have "sys_execs env (evs @ [ev]) y = Inr y2" by (simp add: sys_execs_append)
  then show ?case ..
qed (auto intro: exI [of _ "[]"])

section \<open>What a step keeps of the variables of the other threads\<close>

text \<open>The recorder's steps.\<close>

definition rec_keeps :: "'z actuator_scheme \<Rightarrow> 'z actuator_scheme \<Rightarrow> bool" where
  "rec_keeps s s' \<longleftrightarrow> (act_inv s \<longrightarrow> act_inv s' \<and> (\<forall>d. all_in d (tm s) \<longrightarrow> all_in d (tm s')) \<and> store_map s' = store_map s)"

lemma rec_keeps_preorder: "reflp rec_keeps" "transp rec_keeps"
  by (auto simp: rec_keeps_def intro: reflpI transpI)

lemma rec_keeps_insert1:
  assumes "insert_object1 ck psz pid a z sl s = Inr s'"
  shows "rec_keeps s s'"
  unfolding rec_keeps_def
proof
  assume inv: "act_inv s"
  then have r: "rec_inv s" by (simp add: act_inv_def)
  then have k: "rec_index s < MAX_OBJECTS"
    using assms find_slot_full [of s] by (auto simp: insert_object1_def rec_inv_def order_less_le)
  have s': "s' = pushed (\<lambda>n. the (ck n)) psz pid a z sl s" using r assms k
    by (auto simp: insert_object1_def find_slot_free get_my_timestamp_def Let_def bind_order_def pushed_def split: option.splits)
  then show "act_inv s' \<and> (\<forall>d. all_in d (tm s) \<longrightarrow> all_in d (tm s')) \<and> store_map s' = store_map s"
    using pushed_act_inv [OF inv k] by (simp add: all_in_def) (simp add: pushed_def Let_def)
qed

lemma rec_keeps_dealloc:
  assumes "dealloc_loop ck a z i s = Inr (r, s')"
  shows "rec_keeps s s'"
  using dealloc_loop_cleared [OF assms] cleared_act_inv
  by (auto simp: rec_keeps_def all_in_def) (auto simp: cleared_def)

lemma rec_keeps_insert: "insert_object ck psz pid a sz s = Inr s' \<Longrightarrow> rec_keeps s s'"
  unfolding insert_object_def by (rule for_chunks_rel [OF rec_keeps_preorder]) (auto intro: rec_keeps_insert1)

lemma rec_keeps_deallocate: "deallocate_object ck pid a sz s = Inr s' \<Longrightarrow> rec_keeps s s'"
  unfolding deallocate_object_def
  by (rule for_chunks_rel [OF rec_keeps_preorder]) (auto simp: deallocate_object1_def rbind_Inr_iff intro: rec_keeps_dealloc)

lemma rec_keeps_enter: "rec_keeps s (s\<lparr>enter_args := x\<rparr>)"
  by (simp add: rec_keeps_def act_inv_def rec_inv_def maxima_ok_def)

lemma rec_keeps_event:
  assumes "handle_event ck psz ev s = Inr s'"
  shows "rec_keeps s s'"
proof -
  have refl: "rec_keeps s s" using rec_keeps_preorder(1) by (rule reflpD)
  show ?thesis
  proof (cases ev)
    case (Sample sm)
    with assms have "handle_sample ck psz sm s = Inr s'" by (simp add: handle_event_def)
    from sample_cases [OF this] refl show ?thesis using rec_keeps_enter rec_keeps_insert rec_keeps_deallocate by metis
  qed (use assms refl rec_keeps_enter in \<open>auto simp: handle_event_def\<close>)
qed

text \<open>The actuator's turns.\<close>

definition act_keeps :: "'z actuator_scheme \<Rightarrow> 'z actuator_scheme \<Rightarrow> bool" where
  "act_keeps s s' \<longleftrightarrow> (\<forall>i. o_metrics (obj_vector (tm s') i) = o_metrics (obj_vector (tm s) i)) \<and> store_map s' = store_map s
     \<and> enter_args s' = enter_args s \<and> actuator.more s' = actuator.more s"

lemma act_keeps_trans: "act_keeps s s1 \<Longrightarrow> act_keeps s1 s2 \<Longrightarrow> act_keeps s s2"
  by (simp add: act_keeps_def)

interpretation keep: actuator_relation act_keeps
  by unfold_locales (blast intro: act_keeps_trans,
    auto simp: act_keeps_def still_def same_ic_def promoted_def demoted_def upd_object_def act_bind_order_def Let_def)

section \<open>Runs that cannot fail\<close>

text \<open>The state of a running system: the invariants of the parts, one after the other. \<open>k\<close> bounds the chunks of one
  mapping and \<open>d\<close> the store samples seen.\<close>

definition run_ok :: "nat \<Rightarrow> nat \<Rightarrow> sys \<Rightarrow> bool" where
  "run_ok k d y \<longleftrightarrow> sys_inv y \<and> act_inv (y_sched y) \<and> ic_ready k (y_sched y) \<and> map_ok d (y_sched y) \<and> all_in d (tm (y_sched y))
     \<and> p_write_fd (y_pre y) \<noteq> - 1 \<and> p_log_open (y_pre y)"

definition sys_env_ok :: "sys_env \<Rightarrow> bool" where
  "sys_env_ok env \<longleftrightarrow> env_ok (e_act env) \<and> penv_ok (e_pre env) \<and> sorter (e_qs env)"

text \<open>What an event may be, how many table slots it can use, and how many store samples it brings.\<close>

fun good_sys_event :: "nat \<Rightarrow> perf_mem \<Rightarrow> sys_event \<Rightarrow> bool" where
  "good_sys_event k pm (Record r) \<longleftrightarrow> small_event k r"
| "good_sys_event k pm (Period ms) \<longleftrightarrow> length (all_events ms) < 2 ^ 53 \<and> list_all (known_op pm) (all_events ms)"
| "good_sys_event k pm (Turn junk) \<longleftrightarrow> 0 \<le> junk \<and> junk < int MAX_OBJECTS"
| "good_sys_event k pm _ \<longleftrightarrow> True"

fun slots_of :: "nat \<Rightarrow> sys_event \<Rightarrow> nat" where
  "slots_of k (Record r) = k"
| "slots_of k _ = 0"

fun stores_of_event :: "perf_mem \<Rightarrow> sys_event \<Rightarrow> nat" where
  "stores_of_event pm (Period ms) = stores pm (all_events ms)"
| "stores_of_event pm _ = 0"

lemma fp_in_ge0: "fp_in 0 b v \<Longrightarrow> fp_ge0 v"
  by (cases v) simp_all

lemma all_in_counters:
  assumes "all_in d t"
  shows "counters_ok t"
  unfolding counters_ok_def
proof
  fix i
  have "metrics_in metric_max (of_nat d) (o_metrics (obj_vector t i))" using assms by (simp add: all_in_def)
  then have "fp_in 0 metric_max (loads_count (o_metrics (obj_vector t i)) 4)" "fp_in 0 metric_max (tlb_miss (o_metrics (obj_vector t i)) 4)"
    "fp_in 0 (of_nat d) (stores_count (o_metrics (obj_vector t i)))" by (simp_all add: metrics_in_def)
  then show "fp_ge0 (llcm_of t i) \<and> fp_ge0 (tlbm_of t i) \<and> fp_ge0 (stores_of t i)"
    unfolding llcm_of_def tlbm_of_def stores_of_def by (intro conjI fp_in_ge0)
qed

lemma record_total:
  assumes "sys_env_ok env" "run_ok k d y" "small_event k r" "rec_index (y_sched y) + k \<le> MAX_OBJECTS"
  shows "\<exists>y'. sys_exec env (Record r) y = Inr y' \<and> run_ok k d y' \<and> rec_index (y_sched y') \<le> rec_index (y_sched y) + k"
proof (cases "g_running_intercept (y_sched y) = 1")
  case False
  with assms(2) show ?thesis by (simp add: sys_exec_def)
next
  case True
  let ?c = "\<lambda>n. the (clk (e_act env) n)" and ?s = "y_sched y"
  have clk: "clk (e_act env) = (\<lambda>n. Some (?c n))" using env_clk assms(1) by (auto simp: sys_env_ok_def)
  have "ic_ready k ?s" using assms(2) by (simp add: run_ok_def)
  from handle_total [OF this assms(4,3), of ?c "pagesize (e_act env)"]
  obtain s' where s': "handle_event (clk (e_act env)) (pagesize (e_act env)) r ?s = Inr s'" "ic_ready k s'" "rec_index s' \<le> rec_index ?s + k"
    unfolding clk [symmetric] by blast
  have "sys_inv (y\<lparr>y_sched := s', y_count := y_count y\<rparr>)"
    using assms(2) tab_step_event [OF s'(1)] by (intro sys_inv_tab) (simp_all add: run_ok_def)
  then have "run_ok k d (y\<lparr>y_sched := s'\<rparr>)"
    using assms(2) rec_keeps_event [OF s'(1)] s'(2) by (simp add: run_ok_def rec_keeps_def map_ok_def)
  with True s' show ?thesis by (simp add: sys_exec_def)
qed

lemma period_total:
  assumes "run_ok k d y" "good_sys_event k (e_pm env) (Period ms)" "d + stores (e_pm env) (all_events ms) \<le> hm_limit"
  shows "\<exists>y'. sys_exec env (Period ms) y = Inr y' \<and> run_ok k (d + stores (e_pm env) (all_events ms)) y'
    \<and> rec_index (y_sched y') = rec_index (y_sched y)"
proof (cases "g_running_monitor (y_sched y) = 1")
  case False
  let ?n = "stores (e_pm env) (all_events ms)"
  have "map_ok d s \<Longrightarrow> map_ok (d + ?n) s" for s :: scheduler by (auto simp: map_ok_def)
  moreover have "all_in d t \<Longrightarrow> all_in (d + ?n) t" for t by (auto simp: all_in_def intro: metrics_in_mono)
  ultimately have "run_ok k (d + ?n) y" using assms(1) by (simp add: run_ok_def)
  with False show ?thesis by (simp add: sys_exec_def)
next
  case True
  let ?s = "y_sched y" and ?d = "d + stores (e_pm env) (all_events ms)"
  have inv: "rec_inv ?s" "map_ok d ?s" "all_in d (tm ?s)" using assms(1) by (simp_all add: run_ok_def sys_inv_def)
  obtain c h t where p: "monitor_period (e_pm env) ms ?s = Inr (?s\<lparr>tm_copy := c, store_map := h, tm := t\<rparr>)" "metrics_only (tm ?s) t"
      "map_ok ?d (?s\<lparr>tm_copy := c, store_map := h, tm := t\<rparr>)" "all_in ?d t"
    using monitor_period_in [OF inv assms(3)] assms(2) by auto
  let ?s' = "?s\<lparr>tm_copy := c, store_map := h, tm := t\<rparr>"
  have "rec_inv ?s'" using metrics_only_inv [OF p(2) inv(1)] by (simp add: rec_inv_def)
  then have "act_inv ?s'" "ic_ready k ?s'"
    using assms(1) all_in_counters [OF p(4)] by (simp_all add: run_ok_def act_inv_def maxima_ok_def ic_ready_def)
  moreover have "sys_inv (y\<lparr>y_sched := ?s', y_count := y_count y\<rparr>)"
    using assms(1) tab_step_monitor [OF p(1)] by (intro sys_inv_tab) (simp_all add: run_ok_def)
  ultimately have "run_ok k ?d (y\<lparr>y_sched := ?s'\<rparr>)" using assms(1) p(3,4) by (simp add: run_ok_def)
  with True p(1) show ?thesis by (simp add: sys_exec_def)
qed

lemma turn_total:
  assumes "sys_env_ok env" "run_ok k d y" "0 \<le> junk" "junk < int MAX_OBJECTS"
  shows "\<exists>y'. sys_exec env (Turn junk) y = Inr y' \<and> run_ok k d y' \<and> rec_index (y_sched y') = rec_index (y_sched y)"
proof (cases "g_running_actuator (y_sched y) = 1")
  case False
  with assms(2) show ?thesis by (simp add: sys_exec_def)
next
  case True
  let ?s = "y_sched y"
  obtain cnt s' where s': "actuator_turn (e_act env) (e_qs env) junk (y_count y) ?s = Inr (cnt, s')" "act_step ?s s'"
    using actuator_turn_step [of "e_qs env" "e_act env" ?s junk "y_count y"] assms by (auto simp: sys_env_ok_def run_ok_def)
  have k: "act_keeps ?s s'" by (rule keep.actuator_turn_R [OF s'(1)])
  then have "all_in d (tm s')" "map_ok d s'" using assms(2) by (simp_all add: run_ok_def act_keeps_def all_in_def map_ok_def)
  moreover have "act_inv s'" "rec_index s' = rec_index ?s" using s'(2) by (simp_all add: act_step_def)
  moreover from this k have "ic_ready k s'" using assms(2) by (simp add: run_ok_def ic_ready_def act_inv_def act_keeps_def)
  moreover have "sys_inv (y\<lparr>y_sched := s', y_count := cnt\<rparr>)"
    using assms(2) tab.actuator_turn_R [OF s'(1)] by (intro sys_inv_tab) (simp_all add: run_ok_def)
  ultimately have "run_ok k d (y\<lparr>y_sched := s', y_count := cnt\<rparr>)" using assms(2) by (simp add: run_ok_def)
  with True s'(1) \<open>rec_index s' = rec_index ?s\<close> show ?thesis by (simp add: sys_exec_def)
qed

lemma serve_total:
  assumes "sys_env_ok env" "run_ok k d y"
  shows "\<exists>y'. sys_exec env Serve_next y = Inr y' \<and> run_ok k d y' \<and> rec_index (y_sched y') = rec_index (y_sched y)"
proof (cases "length (mbind_calls (y_pre y)) < length (migration_pipe (y_sched y))")
  case False
  with assms(2) show ?thesis by (simp add: sys_exec_def)
next
  case True
  let ?d = "migration_pipe (y_sched y) ! length (mbind_calls (y_pre y))"
  have "penv_ok (e_pre env)" "p_write_fd (y_pre y) \<noteq> - 1" "p_log_open (y_pre y)" using assms by (simp_all add: sys_env_ok_def run_ok_def)
  from handle_request_serves [OF this] obtain p'
    where p': "handle_request (e_pre env) ?d (y_pre y) = Inr p'" "serves (e_pre env) [?d] (y_pre y) p'" by blast
  have step: "sys_step env y (y\<lparr>y_pre := p'\<rparr>)" using True p'(1) by (rule sys_step.Serve)
  have "sys_inv (y\<lparr>y_pre := p'\<rparr>)" using assms(2) by (intro sys_step_inv [OF step]) (simp add: run_ok_def)
  then have "run_ok k d (y\<lparr>y_pre := p'\<rparr>)" using p'(2) assms(2) by (simp add: run_ok_def serves_def)
  moreover have "sys_exec env Serve_next y = Inr (y\<lparr>y_pre := p'\<rparr>)" using True p'(1) by (simp add: sys_exec_def)
  ultimately show ?thesis by simp
qed

lemma close_total:
  assumes "run_ok k d y"
  shows "\<exists>y'. sys_exec env Close y = Inr y' \<and> run_ok k d y' \<and> rec_index (y_sched y') = rec_index (y_sched y)"
proof -
  have "sys_inv (y\<lparr>y_sched := close_start_threads (y_sched y)\<rparr>)"
    using assms by (intro sys_step_inv [OF sys_step.Signal]) (simp add: run_ok_def)
  then show ?thesis using assms
    by (simp add: sys_exec_def run_ok_def) (simp add: close_start_threads_def act_inv_def rec_inv_def maxima_ok_def ic_ready_def map_ok_def)
qed

lemma exec_total:
  assumes "sys_env_ok env" "run_ok k d y" "good_sys_event k (e_pm env) ev" "rec_index (y_sched y) + slots_of k ev \<le> MAX_OBJECTS"
    "d + stores_of_event (e_pm env) ev \<le> hm_limit"
  shows "\<exists>y'. sys_exec env ev y = Inr y' \<and> run_ok k (d + stores_of_event (e_pm env) ev) y'
    \<and> rec_index (y_sched y') \<le> rec_index (y_sched y) + slots_of k ev"
proof (cases ev)
  case (Record r)
  then show ?thesis using record_total [OF assms(1,2), of r] assms(3-5) by simp
next
  case (Period ms)
  then show ?thesis using period_total [OF assms(2), of env ms] assms(3-5) by fastforce
next
  case (Turn junk)
  then show ?thesis using turn_total [OF assms(1,2), of junk] assms(3-5) by fastforce
next
  case Serve_next
  then show ?thesis using serve_total [OF assms(1,2)] by fastforce
next
  case Close
  then show ?thesis using close_total [OF assms(2), of env] by fastforce
qed

lemma execs_total:
  assumes "sys_env_ok env" "run_ok k d y" "list_all (good_sys_event k (e_pm env)) evs"
    "rec_index (y_sched y) + sum_list (map (slots_of k) evs) \<le> MAX_OBJECTS"
    "d + sum_list (map (stores_of_event (e_pm env)) evs) \<le> hm_limit"
  shows "\<exists>y'. sys_execs env evs y = Inr y' \<and> run_ok k (d + sum_list (map (stores_of_event (e_pm env)) evs)) y'"
  using assms(2-5)
proof (induction evs arbitrary: y d)
  case (Cons ev evs)
  let ?d = "d + stores_of_event (e_pm env) ev"
  obtain y1 where 1: "sys_exec env ev y = Inr y1" "run_ok k ?d y1" "rec_index (y_sched y1) \<le> rec_index (y_sched y) + slots_of k ev"
    using exec_total [OF assms(1) Cons.prems(1), of ev] Cons.prems(2-4) by auto
  obtain y' where "sys_execs env evs y1 = Inr y'" "run_ok k (?d + sum_list (map (stores_of_event (e_pm env)) evs)) y'"
    using Cons.IH [OF 1(2)] Cons.prems(2-4) 1(3) by auto
  with 1(1) show ?case by (auto simp: add.assoc)
qed simp

section \<open>The start\<close>

definition flags :: "scheduler \<Rightarrow> int \<times> int \<times> int" where
  "flags s = (g_running_intercept s, g_running_actuator s, g_running_monitor s)"

text \<open>The initial values of the static variables, and what \<open>main\<close> has made of them when the threads start.\<close>

definition static_data :: "scheduler \<Rightarrow> bool" where
  "static_data s \<longleftrightarrow> tm s = zero_tier_manager \<and> rec_index s = 0 \<and> kv_list s = replicate MAX_OBJECTS zero_key_value
     \<and> curr_max_llcm s = Fin 1 \<and> curr_max_tlbm s = Fin 1 \<and> curr_max_stores s = Fin 1 \<and> flags s = (1, 1, 1)"

definition main_ready :: "scheduler \<Rightarrow> bool" where
  "main_ready s \<longleftrightarrow> static_data (s\<lparr>tm := zero_tier_manager\<rparr>) \<and> tm s = initialize_recorder zero_tier_manager \<and> migration_pipe s = []"

text \<open>What the threads do before their loops: the tracepoint numbers \<open>f1\<close>, \<open>f2\<close>, \<open>f3\<close> and the pipe \<open>fd\<close> of the interception
  thread, the store map of the monitor, the pipes and the status vector of the actuator; the set-up of the perf
  events succeeds.\<close>

definition start_threads ::
  "int option \<times> int option \<times> int option \<Rightarrow> int \<Rightarrow> bool \<times> bool \<Rightarrow> int \<times> int \<Rightarrow> int \<times> int \<Rightarrow> (nat \<Rightarrow> fp) option \<Rightarrow>
   scheduler \<Rightarrow> scheduler res" where
  "start_threads ids fd ok fds numa mem s = (case ids of (f1, f2, f3) \<Rightarrow>
     let s = recorder_open_pipes fd (read_mmaps_ids f1 f2 f3 s)\<lparr>enter_args := None\<rparr>
     in rbind (hashmap_new ok 8 0 0 0 address_hash address_compare False) (\<lambda>h.
        rbind (allocate_vector_status (fst numa) (snd numa) mem (actuator_open_pipes (fst fds) (snd fds) (s\<lparr>store_map := h\<rparr>))) (\<lambda>s.
        Inr (s\<lparr>has_demotion := 0\<rparr>))))"

lemma start_main_ready:
  assumes "start_main scn getenv sig reading s = Inr (0, s0)" "static_data s"
  shows "main_ready s0"
proof -
  have "tm s1 = tm s \<and> rec_index s1 = rec_index s \<and> kv_list s1 = kv_list s \<and> curr_max_llcm s1 = curr_max_llcm s
      \<and> curr_max_tlbm s1 = curr_max_tlbm s \<and> curr_max_stores s1 = curr_max_stores s \<and> flags s1 = flags s"
    if "read_enviroment_variables scn getenv s = Inr s1" for s1
    using that by (auto simp: read_enviroment_variables_def sscanf_def Let_def rbind_Inr_iff flags_def split: option.splits if_splits)
  then show ?thesis
    using assms by (auto simp: main_ready_def static_data_def start_main_def set_current_free_dram_def start_threads_open_pipes_def
        rbind_Inr_iff Let_def flags_def split: option.splits if_splits)
qed

lemma all_in_init: "all_in 0 (initialize_recorder zero_tier_manager)"
  by (simp add: all_in_def metrics_in_def metric_max_def initialize_recorder_def zero_tier_manager_def initialize_object_def
      zero_object_def zero_metrics_def)

text \<open>The state when the loops start.\<close>

definition loops_ready :: "scheduler \<Rightarrow> bool" where
  "loops_ready s \<longleftrightarrow> rec_index s = 0 \<and> migration_pipe s = [] \<and> act_inv s \<and> map_ok 0 s \<and> all_in 0 (tm s) \<and> flags s = (1, 1, 1)"

lemma started_ok:
  assumes "main_ready s0" "start_threads ids fd (True, True) fds numa mem s0 = Inr s1" "fst fds \<noteq> - 1" "snd numa < 3"
  shows "loops_ready s1"
proof -
  obtain f1 f2 f3 where ids: "ids = (f1, f2, f3)" by (cases ids)
  obtain h where h: "hashmap_new (True, True) 8 0 0 0 address_hash address_compare False = Inr (Some h)" "store_inv h" "size (hm_items h) = 0"
    using store_map_new by blast
  let ?s = "actuator_open_pipes (fst fds) (snd fds) (recorder_open_pipes fd (read_mmaps_ids f1 f2 f3 s0)\<lparr>enter_args := None, store_map := Some h\<rparr>)"
  obtain v where s1: "s1 = ?s\<lparr>num_nodes := nat (snd numa + 1), status_pages := v, has_demotion := 0\<rparr>"
    using assms(2) h(1) ids
    by (auto simp: start_threads_def Let_def rbind_Inr_iff allocate_vector_status_def set_number_of_nodes_availables_def
        split: option.splits if_splits)
  note defs = main_ready_def static_data_def actuator_open_pipes_def recorder_open_pipes_def read_mmaps_ids_def flags_def
  have tm: "tm s1 = initialize_recorder zero_tier_manager" "rec_index s1 = 0" "migration_pipe s1 = []" "flags s1 = (1, 1, 1)"
    using assms(1) by (simp_all add: s1 defs)
  have "rec_inv s1" unfolding rec_inv_def tm by (simp add: initialize_recorder_def zero_tier_manager_def)
  moreover have "list_ok 0 (replicate MAX_OBJECTS zero_key_value)"
    by (simp add: list_ok_def finite_values_def zero_key_value_def set_replicate_conv_if)
  ultimately have "act_inv s1"
    using assms(1,3,4) all_in_counters [OF all_in_init] by (simp add: act_inv_def tm) (simp add: s1 defs maxima_ok_def guard_def)
  moreover have "map_ok 0 s1" using h(2,3) by (simp add: s1 map_ok_def actuator_open_pipes_def)
  ultimately show ?thesis using tm all_in_init by (simp add: loops_ready_def)
qed

text \<open>The first record of the interception thread, the entry of a system call, gives \<open>mmap_enter_args\<close> a value.\<close>

lemma first_record:
  assumes "loops_ready s"
    "mbind_calls p = []" "p_write_fd p \<noteq> - 1" "p_log_open p" "uint (sm_type en) = sys_enter_mmap_id s"
    "length (chunk_list 0 (sm_word en 1)) \<le> k"
  shows "\<exists>y. sys_exec env (Record (Sample en)) \<lparr>y_sched = s, y_count = 2, y_pre = p\<rparr> = Inr y \<and> run_ok k 0 y \<and> rec_index (y_sched y) = 0"
proof -
  let ?s = "s\<lparr>enter_args := Some (as_mmap_enter en)\<rparr>" and ?y = "\<lparr>y_sched = s, y_count = 2, y_pre = p\<rparr>"
  have "handle_event (clk (e_act env)) (pagesize (e_act env)) (Sample en) s = Inr ?s"
    using assms(5) by (simp add: handle_event_def handle_sample_def)
  then have "sys_exec env (Record (Sample en)) ?y = Inr (?y\<lparr>y_sched := ?s\<rparr>)" using assms(1) by (simp add: sys_exec_def loops_ready_def flags_def)
  moreover have "act_inv ?s" using rec_keeps_enter [of s] assms(1) by (simp add: rec_keeps_def loops_ready_def)
  then have "run_ok k 0 (?y\<lparr>y_sched := ?s\<rparr>)"
    using assms by (simp add: run_ok_def sys_inv_def ic_ready_def map_ok_def act_inv_def as_mmap_enter_def loops_ready_def)
  ultimately show ?thesis using assms(1) by (simp add: loops_ready_def)
qed

section \<open>The running flags\<close>

text \<open>Only the signal changes them.\<close>

definition same_flags :: "scheduler \<Rightarrow> scheduler \<Rightarrow> bool" where
  "same_flags s s' \<longleftrightarrow> flags s' = flags s"

lemma same_flags_preorder: "reflp same_flags" "transp same_flags"
  by (auto simp: same_flags_def intro: reflpI transpI)

lemma same_flags_insert: "insert_object ck psz pid a sz s = Inr s' \<Longrightarrow> same_flags s s'"
  unfolding insert_object_def
  by (rule for_chunks_rel [OF same_flags_preorder])
    (auto simp: insert_object1_def rbind_Inr_iff get_my_timestamp_def Let_def bind_order_def same_flags_def flags_def split: option.splits)

lemma same_flags_deallocate: "deallocate_object ck pid a sz s = Inr s' \<Longrightarrow> same_flags s s'"
  unfolding deallocate_object_def
  by (rule for_chunks_rel [OF same_flags_preorder])
    (auto simp: deallocate_object1_def rbind_Inr_iff same_flags_def flags_def cleared_def dest!: dealloc_loop_cleared)

lemma same_flags_event:
  assumes "handle_event ck psz ev s = Inr s'"
  shows "same_flags s s'"
proof (cases ev)
  case (Sample sm)
  with assms have "handle_sample ck psz sm s = Inr s'" by (simp add: handle_event_def)
  from sample_cases [OF this] show ?thesis using same_flags_insert same_flags_deallocate by (auto simp: same_flags_def flags_def)
qed (use assms in \<open>auto simp: handle_event_def same_flags_def flags_def\<close>)

lemma same_flags_monitor_event: "monitor_event pm ev s = Inr s' \<Longrightarrow> same_flags s s'"
  by (auto simp: monitor_event_def monitor_sample_def handle_store_def upd_copy_def same_flags_def flags_def rbind_Inr_iff Let_def
      split: mem_event.splits option.splits if_splits)

lemma same_flags_monitor_map: "monitor_map pm evs s = Inr s' \<Longrightarrow> same_flags s s'"
proof (induction evs arbitrary: s)
  case (Cons ev evs)
  then obtain s1 where s1: "monitor_event pm ev s = Inr s1" "monitor_map pm evs s1 = Inr s'" by (auto simp: rbind_Inr_iff)
  from same_flags_monitor_event [OF s1(1)] Cons.IH [OF s1(2)] show ?case by (simp add: same_flags_def)
qed (simp add: same_flags_def)

lemma same_flags_period: "monitor_period pm ms s = Inr s' \<Longrightarrow> same_flags s s'"
  by (auto simp: monitor_period_def monitor_maps_all rbind_Inr_iff update_metrics_def dest!: same_flags_monitor_map)
    (simp add: same_flags_def flags_def)

lemma more_flags: "actuator.more s' = actuator.more s \<Longrightarrow> flags s' = flags s"
  by (cases s; cases s') (simp add: flags_def)

lemma exec_flags:
  assumes "sys_exec env ev y = Inr y'"
  shows "flags (y_sched y') = (if ev = Close then (0, 0, 0) else flags (y_sched y))"
proof (cases ev)
  case (Record r)
  then show ?thesis using assms same_flags_event by (auto simp: sys_exec_def rbind_Inr_iff same_flags_def split: if_splits)
next
  case (Period ms)
  then show ?thesis using assms same_flags_period by (auto simp: sys_exec_def rbind_Inr_iff same_flags_def split: if_splits)
next
  case (Turn junk)
  show ?thesis
  proof (cases "g_running_actuator (y_sched y) = 1")
    case True
    obtain cnt s' where s': "actuator_turn (e_act env) (e_qs env) junk (y_count y) (y_sched y) = Inr (cnt, s')"
        "y' = y\<lparr>y_sched := s', y_count := cnt\<rparr>"
      using assms Turn True by (auto simp: sys_exec_def rbind_Inr_iff)
    have "actuator.more s' = actuator.more (y_sched y)" using keep.actuator_turn_R [OF s'(1)] by (simp add: act_keeps_def)
    then have "flags s' = flags (y_sched y)" by (rule more_flags)
    then show ?thesis using s'(2) Turn by simp
  qed (use assms Turn in \<open>simp add: sys_exec_def\<close>)
next
  case Serve_next
  then show ?thesis using assms by (auto simp: sys_exec_def rbind_Inr_iff split: if_splits)
next
  case Close
  then show ?thesis using assms by (auto simp: sys_exec_def close_start_threads_def flags_def)
qed

lemma execs_flags:
  "sys_execs env evs y = Inr y' \<Longrightarrow> flags (y_sched y') = (if Close \<in> set evs then (0, 0, 0) else flags (y_sched y))"
proof (induction evs arbitrary: y)
  case (Cons ev evs)
  then obtain y1 where y1: "sys_exec env ev y = Inr y1" "sys_execs env evs y1 = Inr y'" by (auto simp: rbind_Inr_iff)
  show ?case using Cons.IH [OF y1(2)] exec_flags [OF y1(1)] by auto
qed simp

section \<open>Records one after the other\<close>

lemma drain_execs:
  assumes "drain_map (clk (e_act env)) (pagesize (e_act env)) rs (y_sched y) = Inr s'" "g_running_intercept (y_sched y) = 1"
  shows "sys_execs env (map Record rs) y = Inr (y\<lparr>y_sched := s'\<rparr>)"
  using assms
proof (induction rs arbitrary: y)
  case (Cons r rs)
  then obtain s1 where s1: "handle_event (clk (e_act env)) (pagesize (e_act env)) r (y_sched y) = Inr s1"
      "drain_map (clk (e_act env)) (pagesize (e_act env)) rs s1 = Inr s'" by (auto simp: rbind_Inr_iff)
  have "g_running_intercept s1 = 1" using same_flags_event [OF s1(1)] Cons.prems(2) by (simp add: same_flags_def flags_def)
  then show ?case using Cons.IH [of "y\<lparr>y_sched := s1\<rparr>"] s1 Cons.prems(2) by (simp add: sys_exec_def)
qed simp

lemma placement_first: "\<exists>d ds. placement_msgs k (chunk_list a len) = d # ds \<and> d_start_addr d = a"
  by (cases "len > CHUNK_SIZE"; cases "total_chunks len")
    (auto simp: placement_msgs_def chunk_list_def upt_conv_Cons simp del: upt_Suc)

section \<open>The program\<close>

text \<open>
  \<open>main\<close> of \<open>start_threads.c\<close> as a whole, with the library process beside it: the start, the wait for the process number,
  the threads running as the events say, and the \<open>pthread_join\<close> of all three, which wait for ever on a thread
  whose flag is still set. The result is the exit code, with the number of objects and the run time that are printed.
  \<open>clocks\<close> are the clock readings \<open>g_start\<close> and \<open>g_end\<close>.
\<close>

definition scheduler_main ::
  "scan \<Rightarrow> (string \<Rightarrow> string option) \<Rightarrow> int \<Rightarrow> fp option option \<Rightarrow> pid_poll list \<Rightarrow>
   int option \<times> int option \<times> int option \<Rightarrow> int \<Rightarrow> bool \<times> bool \<Rightarrow> int \<times> int \<Rightarrow> int \<times> int \<Rightarrow> (nat \<Rightarrow> fp) option \<Rightarrow>
   timespec \<times> timespec \<Rightarrow> sys_env \<Rightarrow> preload \<Rightarrow> sys_event list \<Rightarrow> scheduler \<Rightarrow> (int \<times> (int \<times> u64 \<times> sys) option) res" where
  "scheduler_main scn getenv sig reading polls ids fd ok fds numa mem clocks env p evs s =
     rbind (start_main scn getenv sig reading s) (\<lambda>(ret, s).
     if ret \<noteq> 0 then Inr (ret, None)
     else rbind (set_app_pid polls s) (\<lambda>s.
          rbind (start_threads ids fd ok fds numa mem s) (\<lambda>s.
          rbind (sys_execs env evs \<lparr>y_sched = s, y_count = 2, y_pre = p\<rparr>) (\<lambda>y.
          if flags (y_sched y) \<noteq> (0, 0, 0) then Inl Diverges
          else Inr (0, Some (total_obj (tm (y_sched y)), delta_us (fst clocks) (snd clocks), y))))))"

end
