(* ===== verification/Fine_Steps.thy ===== *)
theory Fine_Steps
  imports System
begin

text \<open>
  The system with interrupted insertions. In \<open>System\<close> the interception thread handles a record in one step; the code takes no
  lock, so the other threads can run between the chunks of an allocation, and inside \<open>_insert_object\<close> in particular while it
  waits for the output of \<open>get_my_timestamp\<close>: after the object has been made live (line 150) and after it has been
  counted (line 152). Here these are steps of their own. Memory is written in program order, as on x86.
\<close>

section \<open>The pieces of an insertion\<close>

text \<open>Lines 132 to 150, with the \<open>static\<close> index.\<close>

definition insert_fill :: "u64 \<Rightarrow> int \<Rightarrow> u64 \<Rightarrow> u64 \<Rightarrow> int \<Rightarrow> 'z recorder_scheme \<Rightarrow> 'z recorder_scheme res" where
  "insert_fill pg pid start_addr sz sliced s =
     rbind (find_slot (tm s) (rec_index s)) (\<lambda>index.
     let t = tm s;
         ob = (obj_vector t index)\<lparr>o_start_addr := start_addr, o_end_addr := start_addr + sz, o_size := sz,
            o_pages := sz div pg, o_pid := pid, o_obj_index := int index, o_sliced := sliced\<rparr>
     in Inr (s\<lparr>rec_index := index, tm := t\<lparr>obj_vector := (obj_vector t)(index := ob), obj_alloc := (obj_alloc t)(index := 1)\<rparr>\<rparr>))"

text \<open>Lines 151 and 152.\<close>

definition insert_stamp :: "(nat \<Rightarrow> fp option) \<Rightarrow> 'z recorder_scheme \<Rightarrow> 'z recorder_scheme res" where
  "insert_stamp ck s =
     (let index = rec_index s
      in rbind (get_my_timestamp ck s) (\<lambda>(birth, s).
         let t = tm s
         in Inr (s\<lparr>tm := t\<lparr>obj_vector := (obj_vector t)(index := (obj_vector t index)\<lparr>o_birth_date := birth\<rparr>),
                           total_obj := total_obj t + 1\<rparr>\<rparr>)))"

text \<open>Lines 154 to 163.\<close>

definition insert_bind :: "(nat \<Rightarrow> fp option) \<Rightarrow> u64 \<Rightarrow> u64 \<Rightarrow> 'z recorder_scheme \<Rightarrow> 'z recorder_scheme res" where
  "insert_bind ck start_addr sz s =
     (let index = rec_index s
      in rbind (get_my_timestamp ck s) (\<lambda>(_, s).
         Inr ((bind_order start_addr sz NODE_0_DRAM (int index) INITIAL_DATAPLACEMENT s)\<lparr>rec_index := index + 1\<rparr>)))"

lemma insert_object1_pieces:
  "insert_object1 ck pg pid a z sl s =
     rbind (insert_fill pg pid a z sl s) (\<lambda>s. rbind (insert_stamp ck s) (insert_bind ck a z))"
  by (cases "find_slot (tm s) (rec_index s)")
    (auto simp: insert_object1_def insert_fill_def insert_stamp_def insert_bind_def get_my_timestamp_def Let_def split: option.splits)

section \<open>The calls for one record\<close>

datatype chunk_op = Ins int u64 u64 int | Del int u64 u64 int

fun run_op :: "(nat \<Rightarrow> fp option) \<Rightarrow> u64 \<Rightarrow> chunk_op \<Rightarrow> 'z recorder_scheme \<Rightarrow> 'z recorder_scheme res" where
  "run_op ck pg (Ins pid a z sl) s = insert_object1 ck pg pid a z sl s"
| "run_op ck pg (Del pid a z sl) s = rbind (deallocate_object1 ck pid a z sl s) (\<lambda>(_, s). Inr s)"

fun run_ops :: "(nat \<Rightarrow> fp option) \<Rightarrow> u64 \<Rightarrow> chunk_op list \<Rightarrow> 'z recorder_scheme \<Rightarrow> 'z recorder_scheme res" where
  "run_ops ck pg [] s = Inr s"
| "run_ops ck pg (x # xs) s = rbind (run_op ck pg x s) (run_ops ck pg xs)"

text \<open>The walk over the chunks, collecting the calls.\<close>

definition chunk_ops :: "(u64 \<Rightarrow> u64 \<Rightarrow> int \<Rightarrow> chunk_op) \<Rightarrow> u64 \<Rightarrow> u64 \<Rightarrow> chunk_op list res" where
  "chunk_ops op start_addr sz = for_chunks (\<lambda>a z sl ops. Inr (ops @ [op a z sl])) start_addr sz []"

text \<open>The body of the event loop up to the calls of the recorder.\<close>

definition sample_ops :: "sample \<Rightarrow> 'z intercept_scheme \<Rightarrow> ('z intercept_scheme \<times> chunk_op list) res" where
  "sample_ops sm s =
     (let sys_type = uint (sm_type sm) in
      if sys_type = sys_enter_mmap_id s then Inr (s\<lparr>enter_args := Some (as_mmap_enter sm)\<rparr>, [])
      else if sys_type = sys_exit_mmap_id s then
        (let args = as_mmap_exit sm in
         case enter_args s of None \<Rightarrow> Inl Uninit_read
         | Some e \<Rightarrow>
             if ea_addr e = 0 \<and> sm_pid sm = word_of_int (app_pid s) \<and> ea_flags e \<noteq> 0x4022 \<and> ea_len e > 1000000
             then rbind (chunk_ops (Ins (sint (sm_pid sm))) (xa_ret args) (ea_len e)) (\<lambda>ops. Inr (s, ops))
             else Inr (s, []))
      else if sys_type = sys_enter_munmap_id s then
        (let args = as_munmap_enter sm in
         if sm_pid sm = word_of_int (app_pid s) then
           (case enter_args s of None \<Rightarrow> Inl Uninit_read
            | Some e \<Rightarrow>
                if ea_len e > 1000000
                then rbind (chunk_ops (Del (sint (sm_pid sm))) (ua_addr args) (ua_len args)) (\<lambda>ops. Inr (s, ops))
                else Inr (s, []))
         else Inr (s, []))
      else Inr (s, []))"

definition event_ops :: "ring_event \<Rightarrow> 'z intercept_scheme \<Rightarrow> ('z intercept_scheme \<times> chunk_op list) res" where
  "event_ops ev s =
     (case ev of
        Sample sm \<Rightarrow> sample_ops sm s
      | Not_sample \<Rightarrow> Inr (s, [])
      | Reused e \<Rightarrow> Inr (s\<lparr>enter_args := map_option (\<lambda>_. e) (enter_args s)\<rparr>, []))"

lemma run_ops_append: "run_ops ck pg (xs @ ys) s = rbind (run_ops ck pg xs s) (run_ops ck pg ys)"
  by (induction xs arbitrary: s) (auto simp: rbind_def split: sum.splits)

lemma collect_loop:
  fixes s :: "'z recorder_scheme"
  shows "\<exists>xs. chunk_loop (\<lambda>a z sl ops. Inr (ops @ [op a z sl])) a n i ops = Inr (i + n, ops @ xs)
    \<and> chunk_loop (\<lambda>a z sl. run_op ck pg (op a z sl)) a n i s = rbind (run_ops ck pg xs s) (\<lambda>s. Inr (i + n, s))"
proof (induction n arbitrary: i ops s)
  case (Suc n)
  let ?f = "\<lambda>a z sl. run_op ck pg (op a z sl)" and ?x = "op (a + of_nat i * CHUNK_SIZE) CHUNK_SIZE 1"
  obtain xs where xs: "chunk_loop (\<lambda>a z sl ops. Inr (ops @ [op a z sl])) a n (i + 1) (ops @ [?x]) = Inr (i + 1 + n, (ops @ [?x]) @ xs)"
    using Suc.IH by blast
  have "chunk_loop ?f a n (i + 1) s1 = rbind (run_ops ck pg xs s1) (\<lambda>s. Inr (i + 1 + n, s))" for s1 :: "'z recorder_scheme"
    using Suc.IH [of "i + 1" "ops @ [?x]" s1] xs by auto
  with xs show ?case by (intro exI [of _ "?x # xs"]) (auto simp: rbind_def split: sum.splits)
qed simp

lemma for_chunks_ops:
  "for_chunks (\<lambda>a z sl. run_op ck pg (op a z sl)) a sz s = rbind (chunk_ops op a sz) (\<lambda>ops. run_ops ck pg ops s)"
proof -
  let ?n = "nat (sint (ucast (sz div CHUNK_SIZE) :: 32 word))"
  obtain xs where xs: "chunk_loop (\<lambda>a z sl ops. Inr (ops @ [op a z sl])) a ?n 0 [] = Inr (0 + ?n, [] @ xs)"
      "chunk_loop (\<lambda>a z sl. run_op ck pg (op a z sl)) a ?n 0 s = rbind (run_ops ck pg xs s) (\<lambda>s. Inr (0 + ?n, s))"
    using collect_loop [of op a ?n 0 "[]" ck pg s] by blast
  then show ?thesis
    by (auto simp: for_chunks_def chunk_ops_def run_ops_append Let_def rbind_def split: sum.splits)
qed

text \<open>Handling a record is collecting its calls and executing them.\<close>

lemma handle_event_ops:
  "handle_event ck pg ev s = rbind (event_ops ev s) (\<lambda>(s, ops). run_ops ck pg ops s)"
proof -
  have fns: "(\<lambda>a z sl. run_op ck pg (Ins pid a z sl)) = insert_object1 ck pg pid"
    "(\<lambda>a z sl. run_op ck pg (Del pid a z sl)) = (\<lambda>a z sl s. rbind (deallocate_object1 ck pid a z sl s) (\<lambda>(_, s). Inr s))" for pid
    by (auto intro!: ext)
  have ins: "insert_object ck pg pid a n s = rbind (chunk_ops (Ins pid) a n) (\<lambda>ops. run_ops ck pg ops s)" for pid a n
    using for_chunks_ops [of ck pg "Ins pid" a n s] by (simp add: insert_object_def fns(1))
  have del: "deallocate_object ck pid a n s = rbind (chunk_ops (Del pid) a n) (\<lambda>ops. run_ops ck pg ops s)" for pid a n
    using for_chunks_ops [of ck pg "Del pid" a n s] by (simp add: deallocate_object_def fns(2))
  have assoc: "rbind (rbind m (\<lambda>ops. Inr (s, ops))) (\<lambda>(s, ops). run_ops ck pg ops s) = rbind m (\<lambda>ops. run_ops ck pg ops s)" for m
    by (cases m) simp_all
  show ?thesis
    by (cases ev) (auto simp: handle_event_def event_ops_def handle_sample_def sample_ops_def Let_def ins del assoc split: option.splits)
qed

section \<open>What the other threads do to the table\<close>

text \<open>The page status of a slot behind the counted ones has never been written.\<close>

definition blank :: "tier_manager \<Rightarrow> bool" where
  "blank t \<longleftrightarrow> (\<forall>k. total_obj t \<le> int k \<longrightarrow> (\<forall>j. o_page_status (obj_vector t k) j = Fin 0))"

text \<open>The monitor and the actuator change neither the index nor the entries of the slots, and write requests that name live
  objects that have been counted, whatever the interception thread is doing.\<close>

definition request_ok :: "tier_manager \<Rightarrow> data_bind \<Rightarrow> bool" where
  "request_ok t d \<longleftrightarrow> (\<exists>k < MAX_OBJECTS. obj_alloc t k = 1 \<and> int k < total_obj t \<and> d_obj_index d = int k
        \<and> d_start_addr d = o_start_addr (obj_vector t k) \<and> d_size d = o_size (obj_vector t k))
     \<and> (d_type d, d_nodemask_target_node d, d_flag d) \<in> {(INITIAL_DATAPLACEMENT, 1, 1), (PROMOTION, 1, 2), (DEMOTION, 4, 2)}"

definition requests_only :: "'z recorder_scheme \<Rightarrow> 'z recorder_scheme \<Rightarrow> bool" where
  "requests_only s s' \<longleftrightarrow> (blank (tm s) \<longrightarrow> blank (tm s') \<and> rec_index s' = rec_index s \<and> metrics_only (tm s) (tm s')
     \<and> (\<exists>ds. migration_pipe s' = migration_pipe s @ ds \<and> (\<forall>d \<in> set ds. request_ok (tm s) d)))"

lemma metrics_only_refl [simp]: "metrics_only t t"
  by (simp add: metrics_only_def)

lemma metrics_only_trans: "metrics_only t t1 \<Longrightarrow> metrics_only t1 t2 \<Longrightarrow> metrics_only t t2"
  by (simp add: metrics_only_def)

lemma request_ok_metrics: "metrics_only t t' \<Longrightarrow> request_ok t' d \<longleftrightarrow> request_ok t d"
  by (simp add: metrics_only_def request_ok_def)

lemma requests_onlyI:
  assumes "blank (tm s) \<Longrightarrow> blank (tm s')" "rec_index s' = rec_index s" "metrics_only (tm s) (tm s')" "migration_pipe s' = migration_pipe s @ ds"
    "\<And>d. blank (tm s) \<Longrightarrow> d \<in> set ds \<Longrightarrow> request_ok (tm s) d"
  shows "requests_only s s'"
  using assms unfolding requests_only_def by blast

lemma requests_only_trans:
  assumes "requests_only s s1" "requests_only s1 s2"
  shows "requests_only s s2"
  unfolding requests_only_def
proof
  assume "blank (tm s)"
  then obtain ds where ds: "blank (tm s1)" "rec_index s1 = rec_index s" "metrics_only (tm s) (tm s1)"
      "migration_pipe s1 = migration_pipe s @ ds" "\<forall>d \<in> set ds. request_ok (tm s) d"
    using assms(1) by (auto simp: requests_only_def)
  then obtain es where "blank (tm s2)" "rec_index s2 = rec_index s1" "metrics_only (tm s1) (tm s2)"
      "migration_pipe s2 = migration_pipe s1 @ es" "\<forall>d \<in> set es. request_ok (tm s1) d"
    using assms(2) by (auto simp: requests_only_def)
  with ds metrics_only_trans [OF ds(3)] request_ok_metrics [OF ds(3)]
  show "blank (tm s2) \<and> rec_index s2 = rec_index s \<and> metrics_only (tm s) (tm s2)
      \<and> (\<exists>ds. migration_pipe s2 = migration_pipe s @ ds \<and> (\<forall>d \<in> set ds. request_ok (tm s) d))"
    by (auto intro!: exI [of _ "ds @ es"])
qed

lemma quiet_requests: "quiet s s' \<Longrightarrow> requests_only s s'"
  by (simp add: quiet_def requests_only_def)

text \<open>An object without page status has no gigabytes anywhere.\<close>

lemma no_pages_no_size:
  assumes "o_page_status ob node = Fin 0"
  shows "\<not> fp_lt (Fin 0) (alloc_size_gb ob node)" "\<not> fp_lt min_size_gb (alloc_size_gb ob node)"
proof -
  have zero: "alloc_size_gb ob node \<in> {Fin 0, NaN}"
    by (cases "ddiv (d_ulong (o_size ob)) GB") (simp_all add: alloc_size_gb_def to_float_def assms)
  have "\<not> fp_lt min_size_gb (Fin 0)" by code_simp
  with zero show "\<not> fp_lt (Fin 0) (alloc_size_gb ob node)" "\<not> fp_lt min_size_gb (alloc_size_gb ob node)"
    by (cases min_size_gb; auto)+
qed

lemma counted:
  assumes "blank t" "fp_lt (Fin 0) (alloc_size_gb (obj_vector t k) node) \<or> fp_lt min_size_gb (alloc_size_gb (obj_vector t k) node)"
  shows "int k < total_obj t"
  using assms no_pages_no_size [of "obj_vector t k" node] by (force simp: blank_def not_less)

lemma promoted_requests:
  assumes "obj_alloc (tm s) k = 1" "k < MAX_OBJECTS" "fp_lt (Fin 0) (alloc_size_gb (obj_vector (tm s) k) 2)"
  shows "requests_only s (promoted c k s)"
  using assms counted [of "tm s" k 2] by (cases "act_write_fd s = - 1")
    (auto simp: requests_only_def promoted_def upd_object_def act_bind_order_def Let_def metrics_only_def request_ok_def blank_def)

lemma demoted_requests:
  assumes "obj_alloc (tm s) k = 1" "k < MAX_OBJECTS" "fp_lt min_size_gb (alloc_size_gb (obj_vector (tm s) k) 0)"
  shows "requests_only s (demoted k s)"
  using assms counted [of "tm s" k 0] by (cases "act_write_fd s = - 1")
    (auto simp: requests_only_def demoted_def upd_object_def act_bind_order_def Let_def metrics_only_def request_ok_def blank_def)

interpretation req: actuator_relation requests_only
  by unfold_locales (blast intro: requests_only_trans, blast intro: quiet_requests still_quiet, blast intro: promoted_requests,
    blast intro: demoted_requests, auto simp: requests_only_def metrics_only_def upd_object_def blank_def)

lemma monitor_requests:
  assumes "monitor_period pm ms s = Inr s'" "total_obj (tm s) \<le> int MAX_OBJECTS"
  shows "requests_only s s'"
proof -
  obtain s1 where s1: "monitor_map pm (all_events ms) (s\<lparr>tm_copy := clear_metrics (tm_copy s)\<rparr>) = Inr s1" "update_metrics s1 = Inr s'"
    using assms by (auto simp: monitor_period_def monitor_maps_all rbind_Inr_iff)
  have q: "quiet s s1" using monitor_map_quiet [OF s1(1)] by (simp add: quiet_def)
  then have "total_obj (tm s1) \<le> int MAX_OBJECTS" using assms(2) by (simp add: quiet_def)
  from update_loop_spec [OF this] s1(2) have "requests_only s1 s'"
    by (auto simp: update_metrics_def requests_only_def metrics_only_def blank_def)
  with quiet_requests [OF q] show ?thesis by (rule requests_only_trans)
qed

lemma same_slots_tab:
  assumes "rec_index s' = rec_index s" "metrics_only (tm s) (tm s')" "migration_pipe s' = migration_pipe s @ ds"
    "\<forall>d \<in> set ds. request_ok (tm s) d"
  shows "tab_step s s'"
  unfolding tab_step_def
proof
  assume inv: "rec_inv s"
  have live: "k < rec_index s" if "obj_alloc (tm s) k = 1" "k < MAX_OBJECTS" for k
    using that inv by (auto simp: rec_inv_def not_le [symmetric])
  have "\<forall>d \<in> set ds. msg_ok s' d" using assms live by (fastforce simp: msg_ok_def request_ok_def metrics_only_def)
  moreover have "rec_inv s'" "slots_kept s s'" using inv assms(1,2) by (auto simp: rec_inv_def slot_ok_def metrics_only_def slots_kept_def)
  ultimately show "rec_inv s' \<and> slots_kept s s' \<and> (\<exists>ds. migration_pipe s' = migration_pipe s @ ds \<and> (\<forall>d \<in> set ds. msg_ok s' d))"
    using assms(3) by blast
qed

section \<open>Steps\<close>

text \<open>Where the interception thread is: between calls, after the object has been made live, or after it has been counted.\<close>

datatype pc = Idle | Filled u64 u64 | Stamped u64 u64

record fine =
  f_sys :: sys
  f_pc :: pc
  f_ops :: "chunk_op list"

text \<open>The steps of the system that are not of the interception thread.\<close>

inductive other_step :: "sys_env \<Rightarrow> sys \<Rightarrow> sys \<Rightarrow> bool" for env where
  Other_Monitor: "g_running_monitor (y_sched y) = 1 \<Longrightarrow> monitor_period (e_pm env) ms (y_sched y) = Inr s' \<Longrightarrow>
     other_step env y (y\<lparr>y_sched := s'\<rparr>)"
| Other_Actuator: "g_running_actuator (y_sched y) = 1 \<Longrightarrow>
     actuator_turn (e_act env) (e_qs env) junk (y_count y) (y_sched y) = Inr (cnt, s') \<Longrightarrow>
     other_step env y (y\<lparr>y_sched := s', y_count := cnt\<rparr>)"
| Other_Serve: "length (mbind_calls (y_pre y)) < length (migration_pipe (y_sched y)) \<Longrightarrow>
     handle_request (e_pre env) (migration_pipe (y_sched y) ! length (mbind_calls (y_pre y))) (y_pre y) = Inr p' \<Longrightarrow>
     other_step env y (y\<lparr>y_pre := p'\<rparr>)"
| Other_Signal: "other_step env y (y\<lparr>y_sched := close_start_threads (y_sched y)\<rparr>)"

abbreviation put_sched :: "scheduler \<Rightarrow> fine \<Rightarrow> fine" where
  "put_sched s f \<equiv> f\<lparr>f_sys := (f_sys f)\<lparr>y_sched := s\<rparr>\<rparr>"

inductive fine_step :: "sys_env \<Rightarrow> fine \<Rightarrow> fine \<Rightarrow> bool" for env where
  Fetch: "f_pc f = Idle \<Longrightarrow> f_ops f = [] \<Longrightarrow> g_running_intercept (y_sched (f_sys f)) = 1 \<Longrightarrow>
     event_ops ev (y_sched (f_sys f)) = Inr (s', ops) \<Longrightarrow> fine_step env f ((put_sched s' f)\<lparr>f_ops := ops\<rparr>)"
| Fill: "f_pc f = Idle \<Longrightarrow> f_ops f = Ins pid a z sl # ops \<Longrightarrow>
     insert_fill (pagesize (e_act env)) pid a z sl (y_sched (f_sys f)) = Inr s' \<Longrightarrow>
     fine_step env f ((put_sched s' f)\<lparr>f_pc := Filled a z, f_ops := ops\<rparr>)"
| Stamp: "f_pc f = Filled a z \<Longrightarrow> insert_stamp (clk (e_act env)) (y_sched (f_sys f)) = Inr s' \<Longrightarrow>
     fine_step env f ((put_sched s' f)\<lparr>f_pc := Stamped a z\<rparr>)"
| Bind: "f_pc f = Stamped a z \<Longrightarrow> insert_bind (clk (e_act env)) a z (y_sched (f_sys f)) = Inr s' \<Longrightarrow>
     fine_step env f ((put_sched s' f)\<lparr>f_pc := Idle\<rparr>)"
| Clear: "f_pc f = Idle \<Longrightarrow> f_ops f = Del pid a z sl # ops \<Longrightarrow>
     deallocate_object1 (clk (e_act env)) pid a z sl (y_sched (f_sys f)) = Inr (r, s') \<Longrightarrow>
     fine_step env f ((put_sched s' f)\<lparr>f_ops := ops\<rparr>)"
| Other: "other_step env (f_sys f) y \<Longrightarrow> fine_step env f (f\<lparr>f_sys := y\<rparr>)"

abbreviation fine_run :: "sys_env \<Rightarrow> fine \<Rightarrow> fine \<Rightarrow> bool" where
  "fine_run env \<equiv> (fine_step env)\<^sup>*\<^sup>*"

abbreviation at_rest :: "sys \<Rightarrow> fine" where
  "at_rest y \<equiv> \<lparr>f_sys = y, f_pc = Idle, f_ops = []\<rparr>"

lemma step_Other: "other_step env y y' \<Longrightarrow> fine_step env \<lparr>f_sys = y, f_pc = p, f_ops = ops\<rparr> \<lparr>f_sys = y', f_pc = p, f_ops = ops\<rparr>"
  using Other [of env "\<lparr>f_sys = y, f_pc = p, f_ops = ops\<rparr>" y'] by simp

section \<open>The atomic steps are runs of small steps\<close>

lemma run_op_fine:
  assumes "run_op (clk (e_act env)) (pagesize (e_act env)) x (y_sched y) = Inr s'"
  shows "fine_run env \<lparr>f_sys = y, f_pc = Idle, f_ops = x # ops\<rparr> \<lparr>f_sys = y\<lparr>y_sched := s'\<rparr>, f_pc = Idle, f_ops = ops\<rparr>"
proof (cases x)
  case (Del pid a z sl)
  then obtain r where "deallocate_object1 (clk (e_act env)) pid a z sl (y_sched y) = Inr (r, s')"
    using assms by (auto simp: rbind_Inr_iff)
  then show ?thesis
    using Clear [of "\<lparr>f_sys = y, f_pc = Idle, f_ops = x # ops\<rparr>" pid a z sl ops env r s'] Del by auto
next
  case (Ins pid a z sl)
  then obtain s1 s2 where s: "insert_fill (pagesize (e_act env)) pid a z sl (y_sched y) = Inr s1"
      "insert_stamp (clk (e_act env)) s1 = Inr s2" "insert_bind (clk (e_act env)) a z s2 = Inr s'"
    using assms by (auto simp: insert_object1_pieces rbind_Inr_iff)
  let ?f = "\<lambda>p s xs. \<lparr>f_sys = y\<lparr>y_sched := s\<rparr>, f_pc = p, f_ops = xs\<rparr>"
  have steps: "fine_step env \<lparr>f_sys = y, f_pc = Idle, f_ops = x # ops\<rparr> (?f (Filled a z) s1 ops)"
      "fine_step env (?f (Filled a z) s1 ops) (?f (Stamped a z) s2 ops)" "fine_step env (?f (Stamped a z) s2 ops) (?f Idle s' ops)"
    using Fill [of "\<lparr>f_sys = y, f_pc = Idle, f_ops = x # ops\<rparr>" pid a z sl ops env s1]
      Stamp [of "?f (Filled a z) s1 ops" a z env s2] Bind [of "?f (Stamped a z) s2 ops" a z env s'] s Ins by simp_all
  show ?thesis by (rule rtranclp_trans [OF r_into_rtranclp rtranclp_trans [OF r_into_rtranclp r_into_rtranclp]]) (rule steps)+
qed

lemma run_ops_fine:
  assumes "run_ops (clk (e_act env)) (pagesize (e_act env)) ops (y_sched y) = Inr s'"
  shows "fine_run env \<lparr>f_sys = y, f_pc = Idle, f_ops = ops\<rparr> (at_rest (y\<lparr>y_sched := s'\<rparr>))"
  using assms
proof (induction ops arbitrary: y)
  case (Cons x ops)
  then obtain s1 where s1: "run_op (clk (e_act env)) (pagesize (e_act env)) x (y_sched y) = Inr s1"
      "run_ops (clk (e_act env)) (pagesize (e_act env)) ops s1 = Inr s'" by (auto simp: rbind_Inr_iff)
  from run_op_fine [OF s1(1)] Cons.IH [of "y\<lparr>y_sched := s1\<rparr>"] s1(2) show ?case
    by (auto intro: rtranclp_trans)
qed (cases y, auto)

lemma sys_step_fine:
  assumes "sys_step env y y'"
  shows "fine_run env (at_rest y) (at_rest y')"
  using assms
proof (cases rule: sys_step.cases)
  case (Intercept ev s')
  then obtain s1 ops where s1: "event_ops ev (y_sched y) = Inr (s1, ops)"
      "run_ops (clk (e_act env)) (pagesize (e_act env)) ops s1 = Inr s'" by (auto simp: handle_event_ops rbind_Inr_iff)
  have "fine_step env (at_rest y) \<lparr>f_sys = y\<lparr>y_sched := s1\<rparr>, f_pc = Idle, f_ops = ops\<rparr>"
    using Fetch [of "at_rest y" ev s1 ops env] s1(1) Intercept by simp
  moreover have "fine_run env \<lparr>f_sys = y\<lparr>y_sched := s1\<rparr>, f_pc = Idle, f_ops = ops\<rparr> (at_rest y')"
    using run_ops_fine [of env ops "y\<lparr>y_sched := s1\<rparr>" s'] s1(2) Intercept by simp
  ultimately show ?thesis by (rule converse_rtranclp_into_rtranclp)
qed (auto intro!: r_into_rtranclp step_Other intro: other_step.intros)

lemma sys_run_fine: "sys_run env y y' \<Longrightarrow> fine_run env (at_rest y) (at_rest y')"
  by (induction rule: sys_run.induct) (auto intro: rtranclp_trans sys_step_fine)

section \<open>The invariant between the pieces\<close>

text \<open>The table as it will be when the object of a pending insertion has been counted.\<close>

definition settle :: "pc \<Rightarrow> 'z recorder_scheme \<Rightarrow> 'z recorder_scheme" where
  "settle p s = (if p = Idle then s else s\<lparr>rec_index := rec_index s + 1, tm := (tm s)\<lparr>total_obj := int (rec_index s) + 1\<rparr>\<rparr>)"

definition entered :: "u64 \<Rightarrow> u64 \<Rightarrow> 'z recorder_scheme \<Rightarrow> bool" where
  "entered a z s \<longleftrightarrow> obj_alloc (tm s) (rec_index s) = 1
     \<and> o_start_addr (obj_vector (tm s) (rec_index s)) = a \<and> o_size (obj_vector (tm s) (rec_index s)) = z"

fun pending_ok :: "pc \<Rightarrow> 'z recorder_scheme \<Rightarrow> bool" where
  "pending_ok Idle s = True"
| "pending_ok (Filled a z) s = (total_obj (tm s) = int (rec_index s) \<and> entered a z s)"
| "pending_ok (Stamped a z) s = (total_obj (tm s) = int (rec_index s) + 1 \<and> entered a z s)"

text \<open>No message names an object that has not been counted.\<close>

definition counted_only :: "'z recorder_scheme \<Rightarrow> bool" where
  "counted_only s \<longleftrightarrow> blank (tm s) \<and> (\<forall>d \<in> set (migration_pipe s). d_obj_index d < total_obj (tm s))"

definition fine_inv :: "fine \<Rightarrow> bool" where
  "fine_inv f \<longleftrightarrow> sys_inv ((f_sys f)\<lparr>y_sched := settle (f_pc f) (y_sched (f_sys f))\<rparr>) \<and> pending_ok (f_pc f) (y_sched (f_sys f))
     \<and> counted_only (y_sched (f_sys f))"

lemma settle_idle [simp]: "settle Idle s = s"
  by (simp add: settle_def)

lemma settle_simps [simp]:
  "migration_pipe (settle p s) = migration_pipe s" "obj_vector (tm (settle p s)) = obj_vector (tm s)"
  "obj_alloc (tm (settle p s)) = obj_alloc (tm s)"
  by (simp_all add: settle_def)

lemma fine_inv_tab:
  assumes "fine_inv f" "tab_step (settle (f_pc f) (y_sched (f_sys f))) (settle p s')" "pending_ok p s'" "counted_only s'"
  shows "fine_inv \<lparr>f_sys = (f_sys f)\<lparr>y_sched := s', y_count := c\<rparr>, f_pc = p, f_ops = ops\<rparr>"
  using sys_inv_tab [of "(f_sys f)\<lparr>y_sched := settle (f_pc f) (y_sched (f_sys f))\<rparr>" "settle p s'" c] assms
  by (cases "f_sys f") (simp add: fine_inv_def)

text \<open>What the other threads do is a step of the settled table.\<close>

lemma requests_settle:
  assumes "requests_only s s'" "pending_ok p s" "blank (tm s)"
  shows "tab_step (settle p s) (settle p s')"
proof -
  obtain ds where ds: "rec_index s' = rec_index s" "metrics_only (tm s) (tm s')" "migration_pipe s' = migration_pipe s @ ds"
      "\<forall>d \<in> set ds. request_ok (tm s) d" using assms(1,3) by (auto simp: requests_only_def)
  have "total_obj (tm s) \<le> total_obj (tm (settle p s))" using assms(2) by (cases p) (simp_all add: settle_def)
  then have "\<forall>d \<in> set ds. request_ok (tm (settle p s)) d" using ds(4) by (fastforce simp: request_ok_def)
  moreover have "metrics_only (tm (settle p s)) (tm (settle p s'))" using ds(1,2) by (simp add: settle_def metrics_only_def)
  ultimately show ?thesis using ds(1,3) by (intro same_slots_tab [of _ _ ds]) (simp_all add: settle_def)
qed

lemma requests_kept:
  assumes "requests_only s s'" "pending_ok p s" "counted_only s"
  shows "pending_ok p s' \<and> counted_only s'"
proof -
  obtain ds where "blank (tm s')" "rec_index s' = rec_index s" "metrics_only (tm s) (tm s')" "migration_pipe s' = migration_pipe s @ ds"
      "\<forall>d \<in> set ds. request_ok (tm s) d" using assms(1,3) by (auto simp: requests_only_def counted_only_def)
  then show ?thesis using assms(2,3)
    by (cases p) (auto simp: counted_only_def request_ok_def metrics_only_def entered_def)
qed

lemma fine_inv_requests:
  assumes "fine_inv f" "requests_only (y_sched (f_sys f)) s'"
  shows "fine_inv (f\<lparr>f_sys := (f_sys f)\<lparr>y_sched := s', y_count := c\<rparr>\<rparr>)"
proof -
  have "pending_ok (f_pc f) (y_sched (f_sys f))" "counted_only (y_sched (f_sys f))" using assms(1) by (simp_all add: fine_inv_def)
  with fine_inv_tab [OF assms(1), of "f_pc f" s' c "f_ops f"] requests_settle [OF assms(2)] requests_kept [OF assms(2)]
  show ?thesis by (cases f) (simp add: counted_only_def)
qed

lemma fine_inv_total: "fine_inv f \<Longrightarrow> total_obj (tm (y_sched (f_sys f))) \<le> int MAX_OBJECTS"
  by (cases "f_pc f") (auto simp: fine_inv_def sys_inv_def rec_inv_def settle_def)

text \<open>The pieces of an insertion.\<close>

lemma fill_tab:
  assumes "insert_fill psz pid a z sl s = Inr s'" "rec_inv s" "counted_only s"
  shows "tab_step s (settle (Filled a z) s') \<and> pending_ok (Filled a z) s' \<and> counted_only s'"
proof -
  have k: "rec_index s < MAX_OBJECTS"
    using assms find_slot_full [of s] by (auto simp: insert_fill_def rec_inv_def order_less_le)
  let ?ob = "(obj_vector (tm s) (rec_index s))\<lparr>o_start_addr := a, o_end_addr := a + z, o_size := z,
     o_pages := z div psz, o_pid := pid, o_obj_index := int (rec_index s), o_sliced := sl\<rparr>"
  obtain ob where ob: "o_start_addr ob = a" "o_size ob = z" "o_end_addr ob = a + z" "o_obj_index ob = int (rec_index s)"
      "o_page_status ob = o_page_status (obj_vector (tm s) (rec_index s))"
      "s' = s\<lparr>tm := (tm s)\<lparr>obj_vector := (obj_vector (tm s))(rec_index s := ob), obj_alloc := (obj_alloc (tm s))(rec_index s := 1)\<rparr>\<rparr>"
    using assms k that [of ?ob] by (simp add: insert_fill_def find_slot_free Let_def)
  have "rec_inv (settle (Filled a z) s')"
    unfolding rec_inv_def using assms(2) k ob by (auto simp: settle_def rec_inv_def slot_ok_def less_Suc_eq)
  moreover have "slots_kept s (settle (Filled a z) s')" "migration_pipe s' = migration_pipe s" "pending_ok (Filled a z) s'"
    using assms(2) ob by (auto simp: settle_def slots_kept_def entered_def rec_inv_def)
  moreover have "counted_only s'" using assms(3) ob by (auto simp: counted_only_def blank_def)
  ultimately show ?thesis by (simp add: tab_step_def)
qed

lemma stamp_tab:
  assumes "insert_stamp ck s = Inr s'" "pending_ok (Filled a z) s" "counted_only s"
  shows "tab_step (settle (Filled a z) s) (settle (Stamped a z) s') \<and> pending_ok (Stamped a z) s' \<and> counted_only s'"
proof -
  have "\<forall>d \<in> set (migration_pipe s). d_obj_index d < total_obj (tm s) + 1" using assms(3) by (fastforce simp: counted_only_def)
  then have "rec_index (settle (Stamped a z) s') = rec_index (settle (Filled a z) s)" "migration_pipe s' = migration_pipe s"
      "metrics_only (tm (settle (Filled a z) s)) (tm (settle (Stamped a z) s'))" "pending_ok (Stamped a z) s'" "counted_only s'"
    using assms by (auto simp: insert_stamp_def get_my_timestamp_def settle_def metrics_only_def entered_def counted_only_def blank_def Let_def
        split: option.splits)
  then show ?thesis using same_slots_tab [of "settle (Stamped a z) s'" "settle (Filled a z) s" "[]"] by simp
qed

lemma bind_tab:
  assumes "insert_bind ck a z s = Inr s'" "pending_ok (Stamped a z) s" "counted_only s"
  shows "tab_step (settle (Stamped a z) s) s' \<and> counted_only s'"
proof -
  let ?ds = "if rec_pipe_fd s = - 1 then [] else
    [\<lparr>d_start_addr = a, d_size = z, d_nodemask_target_node = 1, d_obj_index = int (rec_index s), d_type = INITIAL_DATAPLACEMENT, d_flag = 1\<rparr>]"
  have s': "rec_index s' = rec_index s + 1" "tm s' = tm s" "migration_pipe s' = migration_pipe s @ ?ds"
    using assms by (auto simp: insert_bind_def get_my_timestamp_def bind_order_def Let_def split: option.splits)
  have "\<forall>d \<in> set ?ds. msg_ok s' d" using s'(1,2) assms(2) by (auto simp: msg_ok_def entered_def)
  then have "tab_step (settle (Stamped a z) s) s'" using s' assms(2) unfolding tab_step_def
    by (auto simp: settle_def rec_inv_def slot_ok_def slots_kept_def entered_def intro!: exI [of _ ?ds])
  moreover have "counted_only s'" using s' assms(2,3) by (auto simp: counted_only_def)
  ultimately show ?thesis ..
qed

lemma dealloc_counted: "dealloc_loop ck a z i s = Inr (r, s') \<Longrightarrow> counted_only s \<Longrightarrow> counted_only s'"
  using dealloc_loop_cleared [of ck a z i s r s'] by (auto simp: cleared_def counted_only_def blank_def)

lemma event_ops_enter: "event_ops ev s = Inr (s', ops) \<Longrightarrow> \<exists>x. s' = s\<lparr>enter_args := x\<rparr> \<or> s' = s"
  by (auto simp: event_ops_def sample_ops_def Let_def rbind_Inr_iff split: ring_event.splits option.splits if_splits)

lemma other_step_inv:
  assumes "other_step env (f_sys f) y" "fine_inv f"
  shows "fine_inv (f\<lparr>f_sys := y\<rparr>)"
  using assms(1)
proof (cases rule: other_step.cases)
  case (Other_Monitor ms s')
  then show ?thesis
    using fine_inv_requests [OF assms(2) monitor_requests [OF _ fine_inv_total [OF assms(2)]], of "e_pm env" ms s' "y_count (f_sys f)"] by simp
next
  case (Other_Actuator junk cnt s')
  then show ?thesis using fine_inv_requests [OF assms(2) req.actuator_turn_R] by simp
next
  case (Other_Serve p')
  let ?n = "length (mbind_calls (y_pre (f_sys f)))" and ?y = "(f_sys f)\<lparr>y_sched := settle (f_pc f) (y_sched (f_sys f))\<rparr>"
  have "sys_step env ?y (?y\<lparr>y_pre := p'\<rparr>)" using Other_Serve by (intro sys_step.Serve) simp_all
  then have "sys_inv (?y\<lparr>y_pre := p'\<rparr>)" using assms(2) sys_step_inv by (auto simp: fine_inv_def)
  then show ?thesis using Other_Serve assms(2) by (cases "f_sys f") (simp add: fine_inv_def)
next
  case Other_Signal
  then show ?thesis
    using fine_inv_requests [OF assms(2) quiet_requests [OF close_quiet], of "y_count (f_sys f)"] by simp
qed

lemma fine_inv_rec: "fine_inv f \<Longrightarrow> rec_inv (settle (f_pc f) (y_sched (f_sys f)))"
  by (simp add: fine_inv_def sys_inv_def)

lemma fine_step_inv:
  assumes "fine_step env f f'" "fine_inv f"
  shows "fine_inv f'"
proof -
  have counted: "counted_only (y_sched (f_sys f))" using assms(2) by (simp add: fine_inv_def)
  from assms(1) show ?thesis
  proof (cases rule: fine_step.cases)
  case (Fetch ev s' ops)
  have "tab_step (y_sched (f_sys f)) s'" "counted_only s'"
    using event_ops_enter [OF Fetch(5)] tab_step_refl counted by (auto simp: counted_only_def)
  then show ?thesis using fine_inv_tab [OF assms(2), of Idle s' "y_count (f_sys f)" ops] Fetch by (cases f) simp
next
  case (Fill pid a z sl ops s')
  have "rec_inv (y_sched (f_sys f))" using fine_inv_rec [OF assms(2)] Fill by simp
  then show ?thesis
    using fine_inv_tab [OF assms(2), of "Filled a z" s' "y_count (f_sys f)" ops] fill_tab [OF Fill(4) _ counted] Fill(1,2) by (cases f) simp
next
  case (Stamp a z s')
  then have "pending_ok (Filled a z) (y_sched (f_sys f))" using assms(2) by (simp add: fine_inv_def)
  from stamp_tab [OF Stamp(3) this counted] show ?thesis
    using fine_inv_tab [OF assms(2), of "Stamped a z" s' "y_count (f_sys f)" "f_ops f"] Stamp(1,2) by (cases f) simp
next
  case (Bind a z s')
  then have "pending_ok (Stamped a z) (y_sched (f_sys f))" using assms(2) by (simp add: fine_inv_def)
  then show ?thesis
    using fine_inv_tab [OF assms(2), of Idle s' "y_count (f_sys f)" "f_ops f"] bind_tab [OF Bind(3) _ counted] Bind(1,2) by (cases f) simp
next
  case (Clear pid a z sl ops r s')
  have "tab_step (y_sched (f_sys f)) s'" "counted_only s'"
    using Clear(4) tab_step_dealloc dealloc_counted [OF _ counted] by (auto simp: deallocate_object1_def)
  then show ?thesis using fine_inv_tab [OF assms(2), of Idle s' "y_count (f_sys f)" ops] Clear by (cases f) simp
next
  case (Other y)
  then show ?thesis using other_step_inv [OF _ assms(2)] by simp
  qed
qed

lemma fine_run_inv: "fine_run env f f' \<Longrightarrow> fine_inv f \<Longrightarrow> fine_inv f'"
  by (induction rule: rtranclp_induct) (auto intro: fine_step_inv)

lemma fine_inv_rest: "fine_inv (at_rest y) \<longleftrightarrow> sys_inv y \<and> counted_only (y_sched y)"
  by (simp add: fine_inv_def)

lemma sys_inv_calls: "sys_inv y \<Longrightarrow> set (mbind_calls (y_pre y)) \<subseteq> set (migration_pipe (y_sched y))"
  by (metis set_take_subset sys_inv_def)

lemma fine_inv_calls: "fine_inv f \<Longrightarrow> set (mbind_calls (y_pre (f_sys f))) \<subseteq> set (migration_pipe (y_sched (f_sys f)))"
  using sys_inv_calls [of "(f_sys f)\<lparr>y_sched := settle (f_pc f) (y_sched (f_sys f))\<rparr>"] by (simp add: fine_inv_def)

lemma start_main_blank:
  assumes "start_main scn getenv sig reading s = Inr (0, s0)" "\<forall>k j. o_page_status (obj_vector (tm s) k) j = Fin 0"
  shows "blank (tm s0)"
proof -
  obtain s1 where s1: "read_enviroment_variables scn getenv s = Inr s1"
    using assms(1) by (cases "read_enviroment_variables scn getenv s") (simp_all add: start_main_def)
  then have "tm s1 = tm s"
    by (auto simp: read_enviroment_variables_def sscanf_def Let_def rbind_Inr_iff split: option.splits if_splits)
  moreover have "tm s0 = initialize_recorder (tm s1)"
    using assms(1) by (auto simp: start_main_def s1 set_current_free_dram_def start_threads_open_pipes_def Let_def split: option.splits if_splits)
  ultimately show ?thesis using assms(2) by (simp add: blank_def initialize_recorder_def initialize_object_def)
qed

end
