(* ===== verification/Hashmap_Tests.thy ===== *)
theory Hashmap_Tests
  imports Hashmap_Map
begin

text \<open>
  The test program at the end of \<open>hashmap.c\<close> (compiled with \<open>HASHMAP_TEST\<close>): its allocator, which fails at random, its
  helpers, and the part of \<open>all\<close> that works on a map of integers. A failed \<open>assert\<close> is a \<open>Panic\<close> with the condition. The
  values of \<open>rand\<close> are part of the state, as a function of the number of calls; \<open>malloc\<close> itself has memory. The number
  of live allocations is counted; \<open>total_mem\<close> is only printed by the benchmarks.
\<close>

section \<open>State\<close>

record tests =
  rand_alloc_fail :: bool
  te_rand :: "nat \<Rightarrow> nat"
  te_pos :: nat
  total_allocs :: int
  te_map :: hashmap

abbreviation (input) RAND_MAX :: nat where "RAND_MAX \<equiv> 2147483647"

definition c_assert :: "string \<Rightarrow> bool \<Rightarrow> unit res" where
  "c_assert msg b = (if b then Inr () else Inl (Panic msg))"

section \<open>Helpers\<close>

definition rand :: "tests \<Rightarrow> nat \<times> tests" where
  "rand t = (te_rand t (te_pos t), t\<lparr>te_pos := te_pos t + 1\<rparr>)"

definition deepcount :: "hashmap \<Rightarrow> size_t" where
  "deepcount m = fold (\<lambda>b c. if b_dib b \<noteq> 0 then c + 1 else c) (hm_buckets m) 0"

text \<open>\<open>rand_alloc_fail_odds\<close> is 3. The first result tells whether the allocation succeeds; \<open>rand\<close> is only called when failures
  are wanted.\<close>

definition xmalloc :: "tests \<Rightarrow> bool \<times> tests" where
  "xmalloc t = (let (failed, t) = (if rand_alloc_fail t then let (r, t) = rand t in (r mod 3 = 0, t) else (False, t))
     in if failed then (False, t) else (True, t\<lparr>total_allocs := total_allocs t + 1\<rparr>))"

definition xfree :: "tests \<Rightarrow> tests" where
  "xfree t = t\<lparr>total_allocs := total_allocs t - 1\<rparr>"

text \<open>The loop of \<open>shuffle\<close> over the given indices, and \<open>shuffle\<close>: for an empty array \<open>numels - 1\<close> wraps around and the first
  step divides by \<open>numels - 0\<close>.\<close>

fun shuffle_steps :: "nat \<Rightarrow> nat list \<Rightarrow> 'a list \<Rightarrow> tests \<Rightarrow> ('a list \<times> tests) res" where
  "shuffle_steps numels [] arr t = Inr (arr, t)"
| "shuffle_steps numels (i # is) arr t =
     (let (r, t) = rand t; j = i + r div (RAND_MAX div (numels - i) + 1)
      in if length arr \<le> i \<or> length arr \<le> j then Inl Out_of_bounds
         else shuffle_steps numels is (arr[j := arr ! i, i := arr ! j]) t)"

definition shuffle :: "'a list \<Rightarrow> tests \<Rightarrow> ('a list \<times> tests) res" where
  "shuffle arr t = (if arr = [] then Inl Div_by_zero else shuffle_steps (length arr) [0..<length arr - 1] arr t)"

text \<open>The array the callback writes to is part of its state; it returns true always.\<close>

definition iter_ints :: "bytes \<Rightarrow> int list res \<Rightarrow> bool \<times> int list res" where
  "iter_ints item vals = (True,
     rbind vals (\<lambda>vals. let i = sint (u8to32_le item)
     in if i < 0 \<or> int (length vals) \<le> i then Inl Out_of_bounds else Inr (vals[nat i := 1])))"

definition compare_ints_udata :: "iptr \<Rightarrow> iptr \<Rightarrow> int" where
  "compare_ints_udata a b = sint (u8to32_le (snd a)) - sint (u8to32_le (snd b))"

definition hash_int :: "bytes \<Rightarrow> u64 \<Rightarrow> u64 \<Rightarrow> u64" where
  "hash_int item seed0 seed1 = hashmap_murmur item seed0 seed1"

section \<open>The operations with their allocations\<close>

text \<open>\<open>hashmap_new\<close> allocates the structure and then the buckets, and frees the structure if there is no memory for them.\<close>

definition new_allocs :: "tests \<Rightarrow> (bool \<times> bool) \<times> tests" where
  "new_allocs t = (let (a, t) = xmalloc t
     in if \<not> a then ((False, False), t)
        else let (b, t) = xmalloc t in if b then ((True, True), t) else ((True, False), xfree t))"

text \<open>\<open>resize\<close> creates a map and frees the old buckets and the new structure.\<close>

definition resize_allocs :: "tests \<Rightarrow> (bool \<times> bool) \<times> tests" where
  "resize_allocs t = (let (ok, t) = new_allocs t in (ok, if ok = (True, True) then xfree (xfree t) else t))"

text \<open>The first result tells whether the map was created.\<close>

definition new_map :: "size_t \<Rightarrow> size_t \<Rightarrow> u64 \<Rightarrow> (bytes \<Rightarrow> u64 \<Rightarrow> u64 \<Rightarrow> u64) \<Rightarrow> (iptr \<Rightarrow> iptr \<Rightarrow> int) \<Rightarrow> bool \<Rightarrow> tests \<Rightarrow> (bool \<times> tests) res" where
  "new_map elsize cap seed hash compare elfree t = (let (ok, t) = new_allocs t
     in rbind (hashmap_new ok elsize cap seed seed hash compare elfree) (\<lambda>r.
        Inr (case r of None \<Rightarrow> (False, t) | Some m \<Rightarrow> (True, t\<lparr>te_map := m\<rparr>))))"

definition t_new :: "size_t \<Rightarrow> u64 \<Rightarrow> tests \<Rightarrow> (bool \<times> tests) res" where
  "t_new cap seed t = new_map 4 cap seed hash_int compare_ints_udata False t"

definition t_get :: "u32 \<Rightarrow> tests \<Rightarrow> bytes option res" where
  "t_get x t = hashmap_get (te_map t) (Some (u32to8_le x))"

definition set_item :: "bytes \<Rightarrow> tests \<Rightarrow> (bytes option \<times> tests) res" where
  "set_item it t =
     (let m = te_map t; (ok, t) = (if hm_count m = hm_growat m then resize_allocs t else ((True, True), t))
      in rbind (hashmap_set ok m (Some it)) (\<lambda>(m, v). Inr (v, t\<lparr>te_map := m\<rparr>)))"

definition t_set :: "u32 \<Rightarrow> tests \<Rightarrow> (bytes option \<times> tests) res" where
  "t_set x t = set_item (u32to8_le x) t"

definition t_delete :: "u32 \<Rightarrow> tests \<Rightarrow> (bytes option \<times> tests) res" where
  "t_delete x t =
     (let m = te_map t
      in rbind (t_get x t) (\<lambda>r.
         let (ok, t) = (if r \<noteq> None \<and> hm_cap m < hm_nbuckets m \<and> hm_count m - 1 \<le> hm_shrinkat m then resize_allocs t
                        else ((True, True), t))
         in rbind (hashmap_delete ok m (Some (u32to8_le x))) (\<lambda>(m, v). Inr (v, t\<lparr>te_map := m\<rparr>))))"

text \<open>When the buckets of \<open>hashmap_clear\<close> can be allocated anew the old ones are freed.\<close>

definition t_clear :: "bool \<Rightarrow> tests \<Rightarrow> tests res" where
  "t_clear update_cap t =
     (let m = te_map t;
          (ok, t) = (if \<not> update_cap \<and> hm_nbuckets m \<noteq> hm_cap m
                     then let (a, t) = xmalloc t in (a, if a then xfree t else t) else (True, t))
      in rbind (hashmap_clear ok m update_cap) (\<lambda>(m, freed). Inr (t\<lparr>te_map := m\<rparr>)))"

text \<open>The buckets and the structure.\<close>

definition t_free :: "tests \<Rightarrow> tests" where
  "t_free t = xfree (xfree t)"

section \<open>The test\<close>

text \<open>A loop that repeats its body until it tells to stop.\<close>

partial_function (option) retry :: "(tests \<Rightarrow> (bool \<times> tests) res) \<Rightarrow> tests \<Rightarrow> tests res option" where
  "retry body t = (case body t of Inl e \<Rightarrow> Some (Inl e) | Inr (stop, t) \<Rightarrow> if stop then Some (Inr t) else retry body t)"

definition repeatedly :: "(tests \<Rightarrow> (bool \<times> tests) res) \<Rightarrow> tests \<Rightarrow> tests res" where
  "repeatedly body t = rbind (of_loop (retry body t)) (\<lambda>r. r)"

text \<open>\<open>v && *v == x\<close>\<close>

definition points_to :: "bytes option \<Rightarrow> u32 \<Rightarrow> bool" where
  "points_to v x = (case v of None \<Rightarrow> False | Some b \<Rightarrow> u8to32_le b = x)"

definition check_counts :: "nat \<Rightarrow> tests \<Rightarrow> unit res" where
  "check_counts n t =
     rbind (c_assert ''map->count == n'' (hm_count (te_map t) = of_nat n)) (\<lambda>_.
     rbind (c_assert ''map->count == hashmap_count(map)'' (hm_count (te_map t) = hashmap_count (te_map t))) (\<lambda>_.
     c_assert ''map->count == deepcount(map)'' (hm_count (te_map t) = deepcount (te_map t))))"

text \<open>The inner loops: the given items are in the map.\<close>

fun check_items :: "u32 list \<Rightarrow> tests \<Rightarrow> unit res" where
  "check_items [] t = Inr ()"
| "check_items (x # xs) t =
     rbind (t_get x t) (\<lambda>v. rbind (c_assert ''v && *v == vals[j]'' (points_to v x)) (\<lambda>_. check_items xs t))"

definition set_new :: "u32 \<Rightarrow> tests \<Rightarrow> (bool \<times> tests) res" where
  "set_new x t =
     rbind (t_set x t) (\<lambda>(v, t).
     rbind (c_assert ''!hashmap_set(map, &vals[i])'' (v = None)) (\<lambda>_.
     Inr (\<not> hashmap_oom (te_map t), t)))"

definition set_again :: "u32 \<Rightarrow> tests \<Rightarrow> (bool \<times> tests) res" where
  "set_again x t =
     rbind (t_set x t) (\<lambda>(v, t).
     if v = None then rbind (c_assert ''hashmap_oom(map)'' (hashmap_oom (te_map t))) (\<lambda>_. Inr (False, t))
     else rbind (c_assert ''!hashmap_oom(map)'' (\<not> hashmap_oom (te_map t))) (\<lambda>_.
          rbind (c_assert ''v && *v == vals[i]'' (points_to v x)) (\<lambda>_. Inr (True, t))))"

text \<open>One iteration of the first loop; \<open>ys\<close> are the items before \<open>x\<close>.\<close>

definition insert_step :: "u32 list \<Rightarrow> u32 \<Rightarrow> tests \<Rightarrow> tests res" where
  "insert_step ys x t =
     rbind (check_counts (length ys) t) (\<lambda>_.
     rbind (t_get x t) (\<lambda>v.
     rbind (c_assert ''!hashmap_get(map, &vals[i])'' (v = None)) (\<lambda>_.
     rbind (t_delete x t) (\<lambda>(v, t).
     rbind (c_assert ''!hashmap_delete(map, &vals[i])'' (v = None)) (\<lambda>_.
     rbind (repeatedly (set_new x) t) (\<lambda>t.
     rbind (check_items ys t) (\<lambda>_.
     rbind (repeatedly (set_again x) t) (\<lambda>t.
     rbind (check_items [x] t) (\<lambda>_.
     rbind (t_delete x t) (\<lambda>(v, t).
     rbind (c_assert ''v && *v == vals[i]'' (points_to v x)) (\<lambda>_.
     rbind (t_get x t) (\<lambda>v.
     rbind (c_assert ''!hashmap_get(map, &vals[i])'' (v = None)) (\<lambda>_.
     rbind (t_delete x t) (\<lambda>(v, t).
     rbind (c_assert ''!hashmap_delete(map, &vals[i])'' (v = None)) (\<lambda>_.
     rbind (t_set x t) (\<lambda>(v, t).
     rbind (c_assert ''!hashmap_set(map, &vals[i])'' (v = None)) (\<lambda>_.
     rbind (check_counts (length ys + 1) t) (\<lambda>_. Inr t))))))))))))))))))"

fun insert_phase :: "u32 list \<Rightarrow> u32 list \<Rightarrow> tests \<Rightarrow> tests res" where
  "insert_phase ys [] t = Inr t"
| "insert_phase ys (x # xs) t = rbind (insert_step ys x t) (\<lambda>t. insert_phase (ys @ [x]) xs t)"

text \<open>Both ways of visiting the items mark each of the \<open>n\<close> integers.\<close>

definition visit_phase :: "nat \<Rightarrow> tests \<Rightarrow> unit res" where
  "visit_phase n t =
     (let (complete, vals2) = hashmap_scan (te_map t) iter_ints (Inr (replicate n 0))
      in rbind vals2 (\<lambda>vals2.
         rbind (c_assert ''hashmap_scan(map, iter_ints, &vals2)'' complete) (\<lambda>_.
         rbind (fold (\<lambda>item v. snd (iter_ints item v)) (iter_all (te_map t) 0) (Inr vals2)) (\<lambda>vals2.
         c_assert ''vals2[i] == 1'' (\<forall>v \<in> set vals2. v = 1)))))"

text \<open>The items are deleted one by one; the ones that are left are looked up from the last to the next.\<close>

fun delete_phase :: "u32 list \<Rightarrow> tests \<Rightarrow> tests res" where
  "delete_phase [] t = Inr t"
| "delete_phase (x # xs) t =
     rbind (t_delete x t) (\<lambda>(v, t).
     rbind (c_assert ''v && *v == vals[i]'' (points_to v x)) (\<lambda>_.
     rbind (t_get x t) (\<lambda>v.
     rbind (c_assert ''!hashmap_get(map, &vals[i])'' (v = None)) (\<lambda>_.
     rbind (check_counts (length xs) t) (\<lambda>_.
     rbind (check_items (rev xs) t) (\<lambda>_. delete_phase xs t))))))"

fun refill :: "u32 list \<Rightarrow> tests \<Rightarrow> tests res" where
  "refill [] t = Inr t"
| "refill (x # xs) t = rbind (repeatedly (set_new x) t) (\<lambda>t. refill xs t)"

text \<open>The rest of the part, from the second filling on.\<close>

definition clear_phase :: "u32 list \<Rightarrow> tests \<Rightarrow> tests res" where
  "clear_phase vals t =
     rbind (refill vals t) (\<lambda>t.
     rbind (c_assert ''map->count != 0'' (hm_count (te_map t) \<noteq> 0)) (\<lambda>_.
     let prev_cap = hm_cap (te_map t)
     in rbind (t_clear True t) (\<lambda>t.
     rbind (c_assert ''prev_cap < map->cap'' (prev_cap < hm_cap (te_map t))) (\<lambda>_.
     rbind (c_assert ''map->count == 0'' (hm_count (te_map t) = 0)) (\<lambda>_.
     rbind (refill vals t) (\<lambda>t.
     let prev_cap = hm_cap (te_map t)
     in rbind (t_clear False t) (\<lambda>t.
     rbind (c_assert ''prev_cap == map->cap'' (prev_cap = hm_cap (te_map t))) (\<lambda>_.
     Inr (t_free t)))))))))"

text \<open>\<open>all\<close> up to the test of strings, for \<open>n\<close> integers.\<close>

definition test_ints :: "u64 \<Rightarrow> nat \<Rightarrow> tests \<Rightarrow> tests res" where
  "test_ints seed n t =
     (let t = t\<lparr>rand_alloc_fail := True\<rparr> in
     rbind (c_assert ''hashmap_sip'' (hashmap_sip [0x68, 0x65, 0x6c, 0x6c, 0x6f] 1 2 = 2957200328589801622)) (\<lambda>_.
     rbind (c_assert ''hashmap_murmur'' (hashmap_murmur [0x68, 0x65, 0x6c, 0x6c, 0x6f] 1 2 = 1682575153221130884)) (\<lambda>_.
     rbind (repeatedly (\<lambda>t. Inr (xmalloc t)) t) (\<lambda>t.
     rbind (repeatedly (t_new 0 seed) t) (\<lambda>t.
     rbind (shuffle (map of_nat [0..<n]) t) (\<lambda>(vals, t).
     rbind (insert_phase [] vals t) (\<lambda>t.
     rbind (repeatedly (\<lambda>t. Inr (xmalloc t)) t) (\<lambda>t.
     rbind (visit_phase n t) (\<lambda>_.
     rbind (shuffle vals (xfree t)) (\<lambda>(vals, t).
     rbind (delete_phase vals t) (\<lambda>t.
     rbind (clear_phase vals t) (\<lambda>t. Inr (xfree t)))))))))))))"

section \<open>The benchmarks\<close>

text \<open>The loop of the macro \<open>bench\<close>; the times that it prints are left out.\<close>

fun bench :: "('a \<Rightarrow> tests \<Rightarrow> tests res) \<Rightarrow> 'a list \<Rightarrow> tests \<Rightarrow> tests res" where
  "bench code [] t = Inr t"
| "bench code (x # xs) t = rbind (code x t) (\<lambda>t. bench code xs t)"

definition bench_set :: "u32 \<Rightarrow> tests \<Rightarrow> tests res" where
  "bench_set x t = rbind (t_set x t) (\<lambda>(v, t). rbind (c_assert ''!v'' (v = None)) (\<lambda>_. Inr t))"

definition bench_get :: "u32 \<Rightarrow> tests \<Rightarrow> tests res" where
  "bench_get x t = rbind (t_get x t) (\<lambda>v. rbind (c_assert ''v && *v == vals[i]'' (points_to v x)) (\<lambda>_. Inr t))"

definition bench_delete :: "u32 \<Rightarrow> tests \<Rightarrow> tests res" where
  "bench_delete x t = rbind (t_delete x t) (\<lambda>(v, t). rbind (c_assert ''v && *v == vals[i]'' (points_to v x)) (\<lambda>_. Inr t))"

text \<open>A map that could not be allocated is used all the same.\<close>

definition bench_map :: "size_t \<Rightarrow> u64 \<Rightarrow> u32 list \<Rightarrow> tests \<Rightarrow> (u32 list \<times> tests) res" where
  "bench_map cap seed vals t =
     rbind (t_new cap seed t) (\<lambda>(created, t).
     if \<not> created then Inl Null_deref
     else rbind (bench bench_set vals t) (\<lambda>t.
          rbind (shuffle vals t) (\<lambda>(vals, t).
          rbind (bench bench_get vals t) (\<lambda>t.
          rbind (shuffle vals t) (\<lambda>(vals, t).
          rbind (bench bench_delete vals t) (\<lambda>t. Inr (vals, t_free t)))))))"

text \<open>\<open>benchmarks\<close> for \<open>n\<close> integers: a map that grows and one with the capacity given. A null \<open>vals\<close> is written to.\<close>

definition benchmarks :: "u64 \<Rightarrow> nat \<Rightarrow> tests \<Rightarrow> tests res" where
  "benchmarks seed n t =
     (let (ok, t) = xmalloc t
      in if \<not> ok \<and> n \<noteq> 0 then Inl Null_deref
         else rbind (shuffle (map of_nat [0..<n]) t) (\<lambda>(vals, t).
              rbind (shuffle vals t) (\<lambda>(vals, t).
              rbind (bench_map 0 seed vals t) (\<lambda>(vals, t).
              rbind (bench_map (of_nat n) seed vals t) (\<lambda>(vals, t).
              let t = xfree t in if total_allocs t \<noteq> 0 then Inl (Exit 1) else Inr t)))))"

end
