(* ===== verification/Hashmap_Tests_Ops.thy ===== *)
theory Hashmap_Tests_Ops
  imports Hashmap_Tests
begin

text \<open>
  What the operations that the test program calls do to a map of integers, with the allocations they make: the test vectors of the
  hash functions, the loops that wait for memory, and insertion, lookup and deletion at the size of the table.
\<close>

unbundle bit_operations_syntax

section \<open>The test vectors\<close>

lemma sip_rounds:
  "sipround (0x736f6d6570736574, 0x646f72616e646f6f, 0x6c7967656e657260, 0x7165640d15180019)
    = (0x98abb34e5b42e2e2, 0xf3651b08a66bd9c2, 0xd6b7aae71771bd7c, 0x55fbdfce38d5d899)"
  "sipround (0x98abb34e5b42e2e2, 0xf3651b08a66bd9c2, 0xd6b7aae71771bd7c, 0x55fbdfce38d5d899)
    = (0xf52c6f0514ef9245, 0xe91190620f4e263e, 0xcade78dd5c25654f, 0xb93d74dd6931fdf3)"
  "sipround (0xf02c6f6a7883f72d, 0xe91190620f4e263e, 0xcade78dd5c2565b0, 0xb93d74dd6931fdf3)
    = (0x7898a1f711e2da6a, 0x13072dcb88fef58f, 0x86d23ec6f4dabe0, 0xe9ffb56c423cc2ba)"
  "sipround (0x7898a1f711e2da6a, 0x13072dcb88fef58f, 0x86d23ec6f4dabe0, 0xe9ffb56c423cc2ba)
    = (0xe1e26b5dfed05727, 0x1d291095aee8407e, 0xf5da9c3360939835, 0x8d6c0d4d1278b734)"
  "sipround (0xe1e26b5dfed05727, 0x1d291095aee8407e, 0xf5da9c3360939835, 0x8d6c0d4d1278b734)
    = (0x3bc4539ec3443df8, 0xfc3d3cc1b0c2195a, 0x18c3a369606077af, 0x44dcd48683f5fc8f)"
  "sipround (0x3bc4539ec3443df8, 0xfc3d3cc1b0c2195a, 0x18c3a369606077af, 0x44dcd48683f5fc8f)
    = (0xfd2d4b6c50dac142, 0xb1ca70320a284220, 0x1b837d13fd3a1e68, 0x7e6e504a4c8be59c)"
  by (simp_all add: rotl_def)

lemma sip_vector: "hashmap_sip [0x68, 0x65, 0x6c, 0x6c, 0x6f] 1 2 = 2957200328589801622"
proof -
  have "sip_tail [0x68, 0x65, 0x6c, 0x6c, 0x6f] (Suc (Suc (Suc (Suc (Suc 0))))) = 0x500006f6c6c6568" by (simp add: sip_tail_def)
  moreover have "sip_compress (0x736f6d6570736574, 0x646f72616e646f6f, 0x6c7967656e657260, 0x7465646279746571) 0x500006f6c6c6568
      = (0xf02c6f6a7883f72d, 0xe91190620f4e263e, 0xcade78dd5c25654f, 0xb93d74dd6931fdf3)"
    by (simp add: sip_rounds del: sipround.simps)
  ultimately show ?thesis
    by (simp add: hashmap_sip_def sip64_def sip_blocks.simps u8to64_le_inverse sip_rounds del: sipround.simps sip_compress.simps)
qed

lemma murmur_steps:
  "mm_k1 0x6c6c6568 = 0x136817a8" "mm_k2 0x6f = 0xa5d8bf3f"
  "fmix32 0xb940d6ef = 0x9f183aaf" "fmix32 0x15f19962a = 0x2bb4daab" "fmix32 0xb940d6f3 = 0x906be295"
  by (simp_all add: mm_k1_def mm_k2_def rotl32_def fmix32_def)

lemma murmur_state: "mm86128 [0x68, 0x65, 0x6c, 0x6c, 0x6f] 1 = (0xeba4da84, 0x1759b52f, 0x7c10bd19, 0x7c10bd19)"
proof -
  have "mm_tail_word [0x68, 0x65, 0x6c, 0x6c, 0x6f] 5 0 = 0x6c6c6568" "mm_tail_word [0x68, 0x65, 0x6c, 0x6c, 0x6f] 5 4 = 0x6f"
    by (simp_all add: mm_tail_word_def Let_def)
  then have "mm_tail (1, 1, 1, 1) [0x68, 0x65, 0x6c, 0x6c, 0x6f] 5 = (0x136817a9, 0xa5d8bf3e, 1, 1)"
    by (simp add: mm_tail_def murmur_steps)
  then show ?thesis by (simp add: mm86128_def mm_blocks.simps Let_def murmur_steps)
qed

lemma murmur_vector: "hashmap_murmur [0x68, 0x65, 0x6c, 0x6c, 0x6f] 1 2 = 1682575153221130884"
  by (simp add: hashmap_murmur_def murmur_state u8to64_le_def u32to8_le_def)

section \<open>Waiting for memory\<close>

text \<open>The numbers with which two allocations in a row succeed. The loops end if there are such numbers again and again.\<close>

definition lucky :: "(nat \<Rightarrow> nat) \<Rightarrow> nat \<Rightarrow> bool" where
  "lucky r k \<longleftrightarrow> r k mod 3 \<noteq> 0 \<and> r (Suc k) mod 3 \<noteq> 0"

definition fair_rand :: "(nat \<Rightarrow> nat) \<Rightarrow> bool" where
  "fair_rand r \<longleftrightarrow> (\<forall>n. r n \<le> RAND_MAX) \<and> (\<forall>n. \<exists>k \<ge> n. lucky r k)"

lemma retry_returns:
  assumes "P t" "te_pos t \<le> k"
    "\<And>t. P t \<Longrightarrow> te_pos t \<le> k \<Longrightarrow>
      \<exists>b t'. body t = Inr (b, t') \<and> (if b then Q t' else P t' \<and> te_pos t < te_pos t' \<and> te_pos t' \<le> k)"
  shows "\<exists>t'. repeatedly body t = Inr t' \<and> Q t'"
  using assms(1,2)
proof (induction "k - te_pos t" arbitrary: t rule: less_induct)
  case less
  obtain b t1 where t1: "body t = Inr (b, t1)" "if b then Q t1 else P t1 \<and> te_pos t < te_pos t1 \<and> te_pos t1 \<le> k"
    using assms(3) [OF less.prems] by blast
  show ?case
  proof (cases b)
    case False
    then have "\<exists>t'. repeatedly body t1 = Inr t' \<and> Q t'" using t1(2) by (intro less.hyps) auto
    with t1(1) False show ?thesis by (simp add: repeatedly_def retry.simps [of body t])
  qed (use t1 in \<open>simp add: repeatedly_def retry.simps\<close>)
qed

text \<open>The state is the same but for the position in the random numbers.\<close>

definition moved :: "tests \<Rightarrow> tests \<Rightarrow> bool" where
  "moved t t' \<longleftrightarrow> (\<exists>n. t' = t\<lparr>te_pos := n\<rparr>)"

lemma moved_refl [simp]: "moved t t"
  unfolding moved_def by (rule exI [of _ "te_pos t"]) simp

lemma moved_trans: "moved t t1 \<Longrightarrow> moved t1 t2 \<Longrightarrow> moved t t2"
  by (auto simp: moved_def)

lemma moved_fields: "moved t t' \<Longrightarrow> te_map t' = te_map t \<and> te_rand t' = te_rand t \<and> total_allocs t' = total_allocs t
    \<and> rand_alloc_fail t' = rand_alloc_fail t"
  by (auto simp: moved_def)

lemma xmalloc_cases:
  obtains t' where "xmalloc t = (True, t'\<lparr>total_allocs := total_allocs t + 1\<rparr>)" "moved t t'"
  | t' where "xmalloc t = (False, t')" "moved t t'" "te_pos t < te_pos t'" "rand_alloc_fail t"
      "\<And>k. te_pos t \<le> k \<Longrightarrow> lucky (te_rand t) k \<Longrightarrow> te_pos t' \<le> k"
proof (cases "rand_alloc_fail t \<and> te_rand t (te_pos t) mod 3 = 0")
  case True
  then have "te_pos t + 1 \<le> k" if "te_pos t \<le> k" "lucky (te_rand t) k" for k
    using that by (cases "te_pos t = k") (auto simp: lucky_def)
  with True show ?thesis
    by (intro that(2) [of "t\<lparr>te_pos := te_pos t + 1\<rparr>"]) (auto simp: xmalloc_def rand_def moved_def)
next
  case False
  let ?t = "if rand_alloc_fail t then t\<lparr>te_pos := te_pos t + 1\<rparr> else t"
  have "moved t ?t" by (cases "rand_alloc_fail t") (auto simp: moved_def [of t "t\<lparr>te_pos := _\<rparr>"])
  with False show ?thesis by (intro that(1) [of ?t]) (auto simp: xmalloc_def rand_def)
qed

lemma xmalloc_returns:
  assumes "fair_rand (te_rand t)"
  shows "\<exists>t1. repeatedly (\<lambda>t. Inr (xmalloc t)) t = Inr (t1\<lparr>total_allocs := total_allocs t + 1\<rparr>) \<and> moved t t1"
proof -
  obtain k where k: "te_pos t \<le> k" "lucky (te_rand t) k" using assms by (auto simp: fair_rand_def)
  have "\<exists>t'. repeatedly (\<lambda>t. Inr (xmalloc t)) t = Inr t' \<and> (\<exists>t1. t' = t1\<lparr>total_allocs := total_allocs t + 1\<rparr> \<and> moved t t1)"
  proof (rule retry_returns [where P = "moved t" and k = k])
    fix t' assume t': "moved t t'" "te_pos t' \<le> k"
    show "\<exists>b t1. Inr (xmalloc t') = (Inr (b, t1) :: (bool \<times> tests) res) \<and>
        (if b then \<exists>t2. t1 = t2\<lparr>total_allocs := total_allocs t + 1\<rparr> \<and> moved t t2
         else moved t t1 \<and> te_pos t' < te_pos t1 \<and> te_pos t1 \<le> k)"
    proof (cases rule: xmalloc_cases [of t'])
      case (1 t1)
      then have "moved t t1" "total_allocs t' = total_allocs t" using moved_trans [OF t'(1)] moved_fields [OF t'(1)] by auto
      with 1(1) show ?thesis by auto
    next
      case (2 t1)
      have "te_pos t1 \<le> k" using 2(5) [OF t'(2)] k(2) moved_fields [OF t'(1)] by simp
      with 2 moved_trans [OF t'(1)] show ?thesis by auto
    qed
  qed (use k in simp_all)
  then show ?thesis by blast
qed

lemma new_allocs_cases:
  obtains t' where "new_allocs t = ((True, True), t'\<lparr>total_allocs := total_allocs t + 2\<rparr>)" "moved t t'"
  | ok t' where "new_allocs t = (ok, t')" "\<not> (fst ok \<and> snd ok)" "moved t t'" "te_pos t < te_pos t'" "rand_alloc_fail t"
      "\<And>k. te_pos t \<le> k \<Longrightarrow> lucky (te_rand t) k \<Longrightarrow> te_pos t' \<le> k"
proof (cases "rand_alloc_fail t")
  case False
  then show ?thesis by (intro that(1) [of t]) (simp_all add: new_allocs_def xmalloc_def)
next
  case fail: True
  show ?thesis
  proof (cases "te_rand t (te_pos t) mod 3 = 0")
    case True
    then have "te_pos t + 1 \<le> k" if "te_pos t \<le> k" "lucky (te_rand t) k" for k
      using that by (cases "te_pos t = k") (auto simp: lucky_def)
    with True fail show ?thesis
      by (intro that(2) [of "(False, False)" "t\<lparr>te_pos := te_pos t + 1\<rparr>"]) (auto simp: new_allocs_def xmalloc_def rand_def moved_def)
  next
    case 1: False
    show ?thesis
    proof (cases "te_rand t (te_pos t + 1) mod 3 = 0")
      case True
      have "te_pos t + 2 \<le> k" if "te_pos t \<le> k" "lucky (te_rand t) k" for k
        using that 1 True by (cases "te_pos t = k"; cases "te_pos t + 1 = k") (auto simp: lucky_def)
      with 1 True fail show ?thesis
        by (intro that(2) [of "(True, False)" "t\<lparr>te_pos := te_pos t + 2\<rparr>"])
          (auto simp: new_allocs_def xmalloc_def rand_def moved_def xfree_def)
    next
      case False
      with 1 fail show ?thesis
        by (intro that(1) [of "t\<lparr>te_pos := te_pos t + 2\<rparr>"]) (auto simp: new_allocs_def xmalloc_def rand_def moved_def)
    qed
  qed
qed

lemma resize_allocs_cases:
  obtains ok t' where "resize_allocs t = (ok, t')" "moved t t'" "ok = (True, True) \<or> \<not> (fst ok \<and> snd ok) \<and> te_pos t < te_pos t' \<and> rand_alloc_fail t"
    "\<And>k. ok \<noteq> (True, True) \<Longrightarrow> te_pos t \<le> k \<Longrightarrow> lucky (te_rand t) k \<Longrightarrow> te_pos t' \<le> k"
proof (cases rule: new_allocs_cases [of t])
  case (1 t')
  then show ?thesis by (intro that [of "(True, True)" t']) (auto simp: resize_allocs_def xfree_def moved_def)
next
  case (2 ok t')
  then show ?thesis by (intro that [of ok t']) (auto simp: resize_allocs_def)
qed

section \<open>Insertion into any map\<close>

text \<open>The number of buckets after an insertion at \<open>n\<close> items.\<close>

definition grown :: "nat \<Rightarrow> nat \<Rightarrow> nat" where
  "grown p n = (if n = 3 * 2 ^ (p - 2) then Suc p else p)"

text \<open>Either there was no memory, or the item is in the map.\<close>

lemma set_item_cases:
  assumes m: "hm_shape (te_map t) p" "hm_data ceq (te_map t)" and small: "size (hm_items (te_map t)) < hm_limit"
  obtains t1 where "set_item it t = Inr (None, t1\<lparr>te_map := (te_map t)\<lparr>hm_oom := True\<rparr>\<rparr>)" "moved t t1" "te_pos t < te_pos t1" "rand_alloc_fail t"
      "\<And>k. te_pos t \<le> k \<Longrightarrow> lucky (te_rand t) k \<Longrightarrow> te_pos t1 \<le> k" "size (hm_items (te_map t)) = 3 * 2 ^ (p - 2)"
  | t1 m' old where "set_item it t = Inr (old, t1\<lparr>te_map := m'\<rparr>)" "moved t t1" "hm_shape m' (grown p (size (hm_items (te_map t))))"
      "hm_data ceq m'" "set_effect ceq (te_map t) it m' old" "same_client (te_map t) m'" "\<not> hm_oom m'"
proof -
  let ?m = "te_map t"
  have "unat (hm_count ?m) = size (hm_items ?m)" "unat (hm_growat ?m) = 3 * 2 ^ (p - 2)"
    using m by (simp_all add: hm_data_def hm_items_def hm_shape_def)
  then have full: "hm_count ?m = hm_growat ?m \<longleftrightarrow> size (hm_items ?m) = 3 * 2 ^ (p - 2)" by (auto simp: word_unat_eq_iff)
  have "p < 15" if "hm_count ?m = hm_growat ?m"
  proof -
    have "(2 :: nat) ^ (p - 2) < 2 ^ 13" using small that full by (simp add: hm_limit_def)
    then show ?thesis by (simp only: power_strict_increasing_iff)
  qed
  from hashmap_set_shape [OF m this, of it] obtain m' old where m': "hashmap_set (True, True) ?m (Some it) = Inr (m', old)"
      "hm_shape m' (grown p (size (hm_items ?m)))" "hm_data ceq m'" "set_effect ceq ?m it m' old" "same_client ?m m'" "\<not> hm_oom m'"
    by (auto simp: grown_def full)
  show thesis
  proof (cases "hm_count ?m = hm_growat ?m")
    case False
    then have "set_item it t = Inr (old, t\<lparr>te_map := m'\<rparr>)" using m'(1) by (simp add: set_item_def)
    then show thesis using m' by (intro that(2) [of old m' t]) simp_all
  next
    case True
    obtain ok t1 where 1: "resize_allocs t = (ok, t1)" "moved t t1" "ok = (True, True) \<or> \<not> (fst ok \<and> snd ok) \<and> te_pos t < te_pos t1 \<and> rand_alloc_fail t"
      "\<And>k. ok \<noteq> (True, True) \<Longrightarrow> te_pos t \<le> k \<Longrightarrow> lucky (te_rand t) k \<Longrightarrow> te_pos t1 \<le> k"
      using resize_allocs_cases [of t] by metis
    show thesis
    proof (cases "ok = (True, True)")
      case False
      have shape: "unat (hm_nbuckets ?m) = 2 ^ p" "4 \<le> p" "p \<le> 29" using m(1) by (simp_all add: hm_shape_def)
      have "hashmap_set ok ?m (Some it) = Inr (?m\<lparr>hm_oom := True\<rparr>, None)"
        using False 1(3) by (intro hashmap_set_oom [OF shape True]) auto
      then have "set_item it t = Inr (None, t1\<lparr>te_map := ?m\<lparr>hm_oom := True\<rparr>\<rparr>)" using True 1(1) by (simp add: set_item_def Let_def)
      then show thesis using 1 False True full by (intro that(1) [of t1]) simp_all
    next
      case ok: True
      then have "set_item it t = Inr (old, t1\<lparr>te_map := m'\<rparr>)" using m'(1) 1(1) True by (simp add: set_item_def Let_def)
      then show thesis using m' 1(2) by (intro that(2) [of old m' t1]) simp_all
    qed
  qed
qed

section \<open>A map of integers\<close>

lemma push_u8_bit32:
  "k \<le> 24 \<Longrightarrow> bit (push_bit k (ucast (b :: u8)) :: u32) n \<longleftrightarrow> k \<le> n \<and> n < k + 8 \<and> bit b (n - k)"
  by (auto simp: bit_simps dest: bit_imp_le_length)

lemma four_bytes: "(i :: nat) < 4 \<Longrightarrow> i = 0 \<or> i = 1 \<or> i = 2 \<or> i = 3"
  by auto

lemma u8to32_le_bit: "i < 4 \<Longrightarrow> j < 8 \<Longrightarrow> bit (u8to32_le p) (8 * i + j) = bit (p ! i) j"
  using push_u8_bit32 [of 0] by (elim disjE [OF four_bytes] disjE) (simp_all add: u8to32_le_def bit_or_iff push_u8_bit32)

lemma u32to8_le_bit: "i < 4 \<Longrightarrow> j < 8 \<Longrightarrow> bit (u32to8_le v ! i) j = bit v (8 * i + j)"
  by (drule four_bytes) (auto simp: u32to8_le_def bit_simps)

lemma u8to32_le_inverse [simp]: "u8to32_le (u32to8_le v) = v"
proof (rule bit_word_eqI)
  fix n assume "n < LENGTH(32)"
  then have "n = 8 * (n div 8) + n mod 8" "n div 8 < 4" by simp_all
  then show "bit (u8to32_le (u32to8_le v)) n = bit v n"
    by (metis mod_less_divisor u8to32_le_bit u32to8_le_bit zero_less_numeral)
qed

lemma item_inj [simp]: "u32to8_le x = u32to8_le y \<longleftrightarrow> x = y"
  by (metis u8to32_le_inverse)

definition int_eq :: "bytes \<Rightarrow> bytes \<Rightarrow> bool" where
  "int_eq a b \<longleftrightarrow> u8to32_le a = u8to32_le b"

lemma int_eq_equivp: "equivp int_eq"
  by (rule equivpI) (auto simp: int_eq_def reflp_def symp_def transp_def)

lemma compare_ints_decides: "cmp_decides compare_ints_udata int_eq"
  by (auto simp: cmp_decides_def compare_ints_udata_def int_eq_def intro: signed_word_eqI)

lemma key_int [simp]: "key_eq int_eq m (u32to8_le x) (u32to8_le y) \<longleftrightarrow> x = y"
  by (auto simp: key_eq_def int_eq_def)

text \<open>A map of \<open>2 ^ p\<close> buckets with the given integers.\<close>

definition ints :: "u32 list \<Rightarrow> nat \<Rightarrow> hashmap \<Rightarrow> bool" where
  "ints xs p m \<longleftrightarrow> hm_shape m p \<and> hm_data int_eq m \<and> hm_items m = mset (map u32to8_le xs) \<and> distinct xs"

lemma ints_perm: "mset xs = mset ys \<Longrightarrow> ints xs p m = ints ys p m"
  by (auto simp: ints_def dest: mset_eq_imp_distinct_iff)

lemma ints_oom [simp]: "ints xs p (m\<lparr>hm_oom := b\<rparr>) = ints xs p m"
  by (auto simp: ints_def hm_shape_def hm_data_def hm_items_def h48_def)

lemma ints_inv: "ints xs p m \<Longrightarrow> hm_inv int_eq m"
  by (auto simp: ints_def hm_inv_def)

lemma ints_items: "ints xs p m \<Longrightarrow> z \<in># hm_items m \<longleftrightarrow> (\<exists>x \<in> set xs. z = u32to8_le x)"
  by (auto simp: ints_def)

lemma ints_lookup:
  assumes "ints xs p m"
  shows "hashmap_get m (Some (u32to8_le x)) = Inr (if x \<in> set xs then Some (u32to8_le x) else None)"
  unfolding get_lookup [OF ints_inv [OF assms]] sum.inject
  by (rule hm_lookup_eqI [OF ints_inv [OF assms]]) (auto simp: ints_items [OF assms])

lemma ints_count:
  assumes "ints xs p m"
  shows "unat (hm_count m) = length xs" "hm_count m = of_nat (length xs)" "length xs \<le> 3 * 2 ^ (p - 2)"
    "hm_count m = hm_growat m \<longleftrightarrow> length xs = 3 * 2 ^ (p - 2)"
proof -
  have "size (hm_items m) = length xs" using assms by (simp add: ints_def)
  then show n: "unat (hm_count m) = length xs" using assms by (simp add: ints_def hm_data_def hm_items_def)
  show "hm_count m = of_nat (length xs)" unfolding n [symmetric] by simp
  have g: "unat (hm_growat m) = 3 * 2 ^ (p - 2)" "hm_count m \<le> hm_growat m"
    using assms by (simp_all add: ints_def hm_shape_def hm_data_def)
  show "length xs \<le> 3 * 2 ^ (p - 2)" using g n by (simp add: word_le_nat_alt)
  show "hm_count m = hm_growat m \<longleftrightarrow> length xs = 3 * 2 ^ (p - 2)"
    using n g(1) by (auto simp: word_unat_eq_iff)
qed

lemma deepcount_fold:
  "fold (\<lambda>b c. if b_dib b \<noteq> 0 then c + 1 else c) bs (c :: size_t) = c + of_nat (length (filter (\<lambda>b. b_dib b \<noteq> 0) bs))"
  by (induction bs arbitrary: c) (simp_all add: algebra_simps)

lemma ints_deepcount:
  assumes "ints xs p m"
  shows "deepcount m = of_nat (length xs)"
proof -
  have "length (filter (\<lambda>b. b_dib b \<noteq> 0) (hm_buckets m)) = size (hm_items m)" by (simp only: items_list size_mset length_map)
  also have "\<dots> = length xs" using assms by (simp add: ints_def)
  finally show ?thesis by (simp only: deepcount_def deepcount_fold) simp
qed

lemma ints_delete:
  assumes "ints xs p m"
  shows "\<exists>m' p'. hashmap_delete ok m (Some (u32to8_le x)) = Inr (m', if x \<in> set xs then Some (u32to8_le x) else None)
    \<and> ints (remove1 x xs) p' m' \<and> hm_cap m' = hm_cap m
    \<and> (x \<notin> set xs \<or> \<not> (hm_cap m < hm_nbuckets m \<and> hm_count m - 1 \<le> hm_shrinkat m) \<longrightarrow> p' = p)"
proof -
  have m: "hm_shape m p" "hm_data int_eq m" "hm_items m = mset (map u32to8_le xs)" "distinct xs" using assms by (simp_all add: ints_def)
  obtain m' old p' where m': "hashmap_delete ok m (Some (u32to8_le x)) = Inr (m', old)" "hm_shape m' p'" "hm_data int_eq m'"
      "delete_effect int_eq m (u32to8_le x) m' old" "same_client m m'"
      "old = None \<or> \<not> (hm_cap m < hm_nbuckets m \<and> hm_count m - 1 \<le> hm_shrinkat m) \<longrightarrow> p' = p"
    using hashmap_delete_shape [OF m(1,2)] by metis
  have "old = (if x \<in> set xs then Some (u32to8_le x) else None) \<and> hm_items m' = mset (map u32to8_le (remove1 x xs))"
  proof (cases old)
    case None
    then have "x \<notin> set xs" "hm_items m' = hm_items m" using m'(4) m(3) by (auto simp: delete_effect_def)
    with None m(3) show ?thesis by (simp add: remove1_idem)
  next
    case (Some z)
    then have z: "z \<in># hm_items m" "key_eq int_eq m (u32to8_le x) z" "hm_items m' = hm_items m - {#z#}"
      using m'(4) by (auto simp: delete_effect_def)
    then have x: "z = u32to8_le x" "x \<in> set xs" using ints_items [OF assms] by auto
    then have "hm_items m' = image_mset u32to8_le (mset xs - {#x#})" using z(3) m(3) by (simp add: image_mset_Diff)
    with x Some show ?thesis by simp
  qed
  with m' m(4) show ?thesis by (intro exI [of _ m'] exI [of _ p']) (auto simp: ints_def same_client_def)
qed

text \<open>A map of the initial size is never shrunk, and neither is one with more items than a tenth of its buckets.\<close>

lemma no_shrink:
  assumes "ints xs p m" "p = 4 \<and> hm_cap m = 16 \<or> 2 ^ (p - 3) + 1 < length xs"
  shows "\<not> (hm_cap m < hm_nbuckets m \<and> hm_count m - 1 \<le> hm_shrinkat m)"
proof -
  have m: "unat (hm_nbuckets m) = 2 ^ p" "unat (hm_shrinkat m) \<le> 2 ^ (p - 3)" using assms(1) by (simp_all add: ints_def hm_shape_def)
  show ?thesis
  proof (cases "p = 4 \<and> hm_cap m = 16")
    case True
    with m(1) show ?thesis by (simp add: word_less_nat_alt)
  next
    case False
    then have n: "2 ^ (p - 3) + 1 < unat (hm_count m)" using assms ints_count(1) [OF assms(1)] by auto
    then have "(1 :: size_t) \<le> hm_count m" by (simp add: word_le_nat_alt)
    then have "unat (hm_count m - 1) = unat (hm_count m) - 1" by (simp add: unat_sub)
    with n m(2) have "unat (hm_shrinkat m) < unat (hm_count m - 1)" by linarith
    then show ?thesis by (simp add: word_le_nat_alt)
  qed
qed

lemma ints_new:
  "\<exists>m. hashmap_new (True, True) 4 0 s0 s1 h compare_ints_udata ef = Inr (Some m) \<and> ints [] 4 m \<and> hm_cap m = 16"
proof -
  obtain m where m: "hashmap_new (True, True) 4 0 s0 s1 h compare_ints_udata ef = Inr (Some m)" "hm_inv int_eq m" "hm_items m = {#}"
    using hashmap_new_inv [OF compare_ints_decides int_eq_equivp, of 0 4 s0 s1 h ef] by auto
  then have cap: "hm_cap m = 16" "hm_nbuckets m = 16"
    by (auto simp: hashmap_new_def hashmap_new_with_allocator_def round_cap_def rbind_Inr_iff)
  obtain p where p: "hm_shape m p" using m(2) by (auto simp: hm_inv_def)
  then have "(2 :: nat) ^ p = 2 ^ 4" using cap(2) by (simp add: hm_shape_def)
  then have "p = 4" by (simp only: power_inject_exp)
  with p m cap show ?thesis by (simp add: ints_def hm_inv_def)
qed

section \<open>The operations of the test\<close>

text \<open>Whether allocations may fail, the random numbers, the number of live allocations, the capacity and the integers in the map.\<close>

definition ready :: "bool \<Rightarrow> (nat \<Rightarrow> nat) \<Rightarrow> int \<Rightarrow> size_t \<Rightarrow> u32 list \<Rightarrow> nat \<Rightarrow> tests \<Rightarrow> bool" where
  "ready f r a c xs p t \<longleftrightarrow> ints xs p (te_map t) \<and> hm_cap (te_map t) = c \<and> rand_alloc_fail t = f \<and> te_rand t = r \<and> total_allocs t = a"

lemma ready_perm: "mset xs = mset ys \<Longrightarrow> ready f r a c xs p t = ready f r a c ys p t"
  unfolding ready_def by (drule ints_perm) (rule arg_cong)

lemma ready_moved: "moved t t' \<Longrightarrow> ready f r a c xs p t' = ready f r a c xs p t"
  by (drule moved_fields) (simp add: ready_def)

lemma ready_map: "ready f r a c xs p t \<Longrightarrow> ints ys q m \<Longrightarrow> hm_cap m = c \<Longrightarrow> ready f r a c ys q (t\<lparr>te_map := m\<rparr>)"
  by (simp add: ready_def)

lemma t_get_ready: "ready f r a c xs p t \<Longrightarrow> t_get x t = Inr (if x \<in> set xs then Some (u32to8_le x) else None)"
  unfolding t_get_def ready_def by (elim conjE) (rule ints_lookup)

lemma check_counts_ready: "ready f r a c xs p t \<Longrightarrow> n = length xs \<Longrightarrow> check_counts n t = Inr ()"
  unfolding ready_def
  by (elim conjE) (frule ints_deepcount, drule ints_count(2), simp add: check_counts_def c_assert_def hashmap_count_def)

lemma check_items_ready: "ready f r a c xs p t \<Longrightarrow> set ys \<subseteq> set xs \<Longrightarrow> check_items ys t = Inr ()"
  by (induction ys) (simp_all add: t_get_ready c_assert_def points_to_def)

lemma t_set_cases:
  assumes "ready f r a c xs p t" "length xs < hm_limit"
  obtains t' where "t_set x t = Inr (None, t')" "hm_oom (te_map t')" "ready f r a c xs p t'" "te_pos t < te_pos t'" "rand_alloc_fail t"
      "\<And>k. te_pos t \<le> k \<Longrightarrow> lucky r k \<Longrightarrow> te_pos t' \<le> k" "length xs = 3 * 2 ^ (p - 2)"
  | t' where "t_set x t = Inr (if x \<in> set xs then Some (u32to8_le x) else None, t')" "\<not> hm_oom (te_map t')"
      "ready f r a c (List.insert x xs) (grown p (length xs)) t'"
proof -
  let ?m = "te_map t"
  have i: "ints xs p ?m" "te_rand t = r" using assms(1) by (simp_all add: ready_def)
  then have m: "hm_shape ?m p" "hm_data int_eq ?m" "hm_items ?m = mset (map u32to8_le xs)" "distinct xs" by (simp_all add: ints_def)
  have size: "size (hm_items ?m) = length xs" using m(3) by simp
  then have small: "size (hm_items ?m) < hm_limit" using assms(2) by simp
  show thesis
  proof (cases rule: set_item_cases [OF m(1,2) small, of "u32to8_le x"])
    case (1 t1)
    have "ready f r a c xs p (t1\<lparr>te_map := ?m\<lparr>hm_oom := True\<rparr>\<rparr>)"
      using assms(1) i(1) by (intro ready_map [of f r a c xs p]) (simp_all add: ready_moved [OF 1(2)], simp add: ready_def)
    with 1 i(2) size show thesis by (intro that(1) [of "t1\<lparr>te_map := ?m\<lparr>hm_oom := True\<rparr>\<rparr>"]) (simp_all add: t_set_def)
  next
    case (2 t1 m' old)
    have eff: "old = (if x \<in> set xs then Some (u32to8_le x) else None) \<and> hm_items m' = mset (map u32to8_le (List.insert x xs))"
    proof (cases old)
      case None
      then have "x \<notin> set xs" "hm_items m' = add_mset (u32to8_le x) (hm_items ?m)" using 2(5) m(3) by (auto simp: set_effect_def)
      with None m(3) show ?thesis by simp
    next
      case (Some z)
      then have z: "z \<in># hm_items ?m" "key_eq int_eq ?m (u32to8_le x) z" "hm_items m' = add_mset (u32to8_le x) (hm_items ?m - {#z#})"
        using 2(5) by (auto simp: set_effect_def)
      then have "z = u32to8_le x" "x \<in> set xs" using ints_items [OF i(1)] by auto
      with z Some m(3) show ?thesis by (simp del: mset_map)
    qed
    have "ints (List.insert x xs) (grown p (length xs)) m'" using 2(3,4) eff m(4) size by (simp add: ints_def)
    then have "ready f r a c (List.insert x xs) (grown p (length xs)) (t1\<lparr>te_map := m'\<rparr>)"
      using assms(1) 2(6) by (intro ready_map [of f r a c xs p]) (simp_all add: ready_moved [OF 2(2)], simp add: ready_def same_client_def)
    with 2 eff show thesis by (intro that(2) [of "t1\<lparr>te_map := m'\<rparr>"]) (simp_all add: t_set_def)
  qed
qed

lemma t_set_no_growth:
  assumes "ready f r a c xs p t" "length xs < hm_limit" "length xs \<noteq> 3 * 2 ^ (p - 2)"
  shows "\<exists>t'. t_set x t = Inr (if x \<in> set xs then Some (u32to8_le x) else None, t') \<and> ready f r a c (List.insert x xs) p t'
    \<and> \<not> hm_oom (te_map t')"
  by (cases rule: t_set_cases [OF assms(1,2), of x]) (use assms(3) in \<open>auto simp: grown_def\<close>)

lemma set_new_returns:
  assumes "ready f r a c xs p t" "length xs < hm_limit" "x \<notin> set xs" "fair_rand r"
  shows "\<exists>t'. repeatedly (set_new x) t = Inr t' \<and> ready f r a c (x # xs) (grown p (length xs)) t'"
proof -
  obtain k where k: "te_pos t \<le> k" "lucky r k" using assms(4) by (auto simp: fair_rand_def)
  show ?thesis
  proof (rule retry_returns [where P = "ready f r a c xs p" and k = k])
    fix t1 assume t1: "ready f r a c xs p t1" "te_pos t1 \<le> k"
    show "\<exists>b t'. set_new x t1 = Inr (b, t') \<and> (if b then ready f r a c (x # xs) (grown p (length xs)) t'
        else ready f r a c xs p t' \<and> te_pos t1 < te_pos t' \<and> te_pos t' \<le> k)"
      by (cases rule: t_set_cases [OF t1(1) assms(2), of x])
        (use assms(3) t1(2) k(2) in \<open>auto simp: set_new_def c_assert_def hashmap_oom_def\<close>)
  qed (use assms(1) k in simp_all)
qed

lemma set_again_returns:
  assumes "ready f r a c xs p t" "length xs < hm_limit" "x \<in> set xs" "fair_rand r"
  shows "\<exists>t'. repeatedly (set_again x) t = Inr t' \<and> ready f r a c xs (grown p (length xs)) t'"
proof -
  obtain k where k: "te_pos t \<le> k" "lucky r k" using assms(4) by (auto simp: fair_rand_def)
  show ?thesis
  proof (rule retry_returns [where P = "ready f r a c xs p" and k = k])
    fix t1 assume t1: "ready f r a c xs p t1" "te_pos t1 \<le> k"
    show "\<exists>b t'. set_again x t1 = Inr (b, t') \<and> (if b then ready f r a c xs (grown p (length xs)) t'
        else ready f r a c xs p t' \<and> te_pos t1 < te_pos t' \<and> te_pos t' \<le> k)"
      by (cases rule: t_set_cases [OF t1(1) assms(2), of x])
        (use assms(3) t1(2) k(2) in \<open>auto simp: set_again_def c_assert_def hashmap_oom_def points_to_def\<close>)
  qed (use assms(1) k in simp_all)
qed

lemma t_delete_ready:
  assumes "ready f r a c xs p t"
  shows "\<exists>t' p'. t_delete x t = Inr (if x \<in> set xs then Some (u32to8_le x) else None, t') \<and> ready f r a c (remove1 x xs) p' t'
    \<and> (x \<notin> set xs \<or> p = 4 \<and> c = 16 \<or> 2 ^ (p - 3) + 1 < length xs \<longrightarrow> p' = p)"
proof -
  let ?m = "te_map t" and ?v = "if x \<in> set xs then Some (u32to8_le x) else None"
  have i: "ints xs p ?m" "hm_cap ?m = c" using assms by (simp_all add: ready_def)
  obtain ok t1 where 1: "(if ?v \<noteq> None \<and> hm_cap ?m < hm_nbuckets ?m \<and> hm_count ?m - 1 \<le> hm_shrinkat ?m then resize_allocs t
      else ((True, True), t)) = (ok, t1)" "moved t t1"
    using resize_allocs_cases [of t] moved_refl [of t] by (metis (lifting))
  obtain m' p' where m': "hashmap_delete ok ?m (Some (u32to8_le x)) = Inr (m', ?v)" "ints (remove1 x xs) p' m'"
      "hm_cap m' = hm_cap ?m" "x \<notin> set xs \<or> \<not> (hm_cap ?m < hm_nbuckets ?m \<and> hm_count ?m - 1 \<le> hm_shrinkat ?m) \<longrightarrow> p' = p"
    using ints_delete [OF i(1), of ok x] by blast
  have "t_delete x t = Inr (?v, t1\<lparr>te_map := m'\<rparr>)"
    unfolding t_delete_def t_get_ready [OF assms] Let_def rbind_simps 1(1) prod.case m'(1) ..
  moreover have "ready f r a c (remove1 x xs) p' (t1\<lparr>te_map := m'\<rparr>)"
    using assms m'(2,3) i(2) by (intro ready_map [of f r a c xs p]) (simp_all add: ready_moved [OF 1(2)])
  moreover have "p' = p" if "x \<notin> set xs \<or> p = 4 \<and> c = 16 \<or> 2 ^ (p - 3) + 1 < length xs"
    using that m'(4) no_shrink [OF i(1)] i(2) by blast
  ultimately show ?thesis by blast
qed

end
