(* ===== verification/Hashmap_Tests_Correct.thy ===== *)
theory Hashmap_Tests_Correct
  imports Hashmap_Tests_Ops
begin

text \<open>
  The assertions of the test program hold for every seed and every order of the items, whatever the allocator does, as long as
  the loops that wait for memory end: the phases of the test one after the other, and the benchmarks.
\<close>

section \<open>The phases\<close>

text \<open>The table is not larger than the insertions made it.\<close>

definition snug :: "nat \<Rightarrow> nat \<Rightarrow> bool" where
  "snug p n \<longleftrightarrow> p = 4 \<or> 3 * 2 ^ (p - 3) \<le> n"

lemma snug_grown: "snug p n \<Longrightarrow> 4 \<le> p \<Longrightarrow> snug (grown p n) n"
  by (auto simp: snug_def grown_def numeral_3_eq_3 numeral_2_eq_2 Suc_diff_Suc)

lemma snug_Suc: "snug p n \<Longrightarrow> snug p (Suc n)"
  by (auto simp: snug_def)

lemma snug_roomy:
  assumes "snug p (Suc n)" "4 \<le> p"
  shows "p = 4 \<or> 2 ^ (p - 3) + 1 < Suc n"
proof (cases "p = 4")
  case False
  then have "(2 :: nat) ^ 1 \<le> 2 ^ (p - 3)" using assms(2) by (intro power_increasing) auto
  with assms(1) False show ?thesis by (auto simp: snug_def)
qed simp

lemma grown_room: "4 \<le> p \<Longrightarrow> n \<le> 3 * 2 ^ (p - 2) \<Longrightarrow> n < 3 * 2 ^ (grown p n - 2)"
  by (auto simp: grown_def Suc_diff_le)

lemma ready_size: "ready f r a c xs p t \<Longrightarrow> 4 \<le> p \<and> length xs \<le> 3 * 2 ^ (p - 2) \<and> distinct xs"
  using ints_count(3) by (auto simp: ready_def ints_def hm_shape_def)

text \<open>An iteration of the first loop: in the end the item is in the map, in a table that grew at most.\<close>

lemma insert_step_returns:
  assumes "ready f r a 16 ys p t" "x \<notin> set ys" "Suc (length ys) < hm_limit" "snug p (length ys)" "fair_rand r"
  shows "\<exists>t' p'. insert_step ys x t = Inr t' \<and> ready f r a 16 (ys @ [x]) p' t' \<and> snug p' (Suc (length ys))
    \<and> (p = 4 \<and> Suc (length ys) < 12 \<longrightarrow> p' = 4)"
proof -
  let ?n = "length ys"
  define p1 where "p1 = grown p ?n"
  define p2 where "p2 = grown p1 (Suc ?n)"
  have p: "4 \<le> p" "?n \<le> 3 * 2 ^ (p - 2)" using ready_size [OF assms(1)] by auto
  have p1: "4 \<le> p1" "snug p1 (Suc ?n)" using snug_grown [OF assms(4) p(1)] p(1) by (auto simp: p1_def grown_def intro: snug_Suc)
  have p2: "4 \<le> p2" "snug p2 (Suc ?n)" using snug_grown [OF p1(2,1)] p1(1) by (auto simp: p2_def grown_def)
  obtain t1 where t1: "t_delete x t = Inr (None, t1)" "ready f r a 16 ys p t1"
    using t_delete_ready [OF assms(1), of x] assms(2) by (auto simp: remove1_idem)
  obtain t2 where t2: "repeatedly (set_new x) t1 = Inr t2" "ready f r a 16 (x # ys) p1 t2"
    using set_new_returns [OF t1(2) _ assms(2,5)] assms(3) by (auto simp: p1_def)
  obtain t3 where t3: "repeatedly (set_again x) t2 = Inr t3" "ready f r a 16 (x # ys) p2 t3"
    using set_again_returns [OF t2(2) _ _ assms(5), of x] assms(3) by (auto simp: p2_def)
  obtain t4 where t4: "t_delete x t3 = Inr (Some (u32to8_le x), t4)" "ready f r a 16 ys p2 t4"
    using t_delete_ready [OF t3(2), of x] snug_roomy [OF p2(2,1)] by fastforce
  obtain t5 where t5: "t_delete x t4 = Inr (None, t5)" "ready f r a 16 ys p2 t5"
    using t_delete_ready [OF t4(2), of x] assms(2) by (auto simp: remove1_idem)
  have "?n \<noteq> 3 * 2 ^ (p2 - 2)"
    using grown_room [OF p1(1), of "Suc ?n"] ready_size [OF t2(2)] by (simp add: p2_def)
  then obtain t6 where t6: "t_set x t5 = Inr (None, t6)" "ready f r a 16 (x # ys) p2 t6"
    using t_set_no_growth [OF t5(2), of x] assms(2,3) by auto
  have "insert_step ys x t = Inr t6"
    using t1(1) t2(1) t3(1) t4(1) t5(1) t6(1) assms(2) t_get_ready [OF assms(1), of x] t_get_ready [OF t4(2), of x]
      check_counts_ready [OF assms(1) refl] check_counts_ready [OF t6(2)] check_items_ready [OF t2(2), of ys]
      check_items_ready [OF t3(2), of "[x]"]
    by (simp add: insert_step_def c_assert_def points_to_def subset_insertI del: check_items.simps)
  moreover have "ready f r a 16 (ys @ [x]) p2 t6" using t6(2) ready_perm [of "x # ys" "ys @ [x]" f r a 16 p2 t6] by simp
  moreover have "p2 = 4" if "p = 4" "Suc ?n < 12" using that by (simp add: p2_def p1_def grown_def)
  ultimately show ?thesis using p2(2) by blast
qed

lemma insert_phase_returns:
  assumes "ready f r a 16 ys p t" "distinct (ys @ xs)" "length (ys @ xs) < hm_limit" "snug p (length ys)" "fair_rand r"
  shows "\<exists>t' p'. insert_phase ys xs t = Inr t' \<and> ready f r a 16 (ys @ xs) p' t' \<and> (p = 4 \<and> length (ys @ xs) < 12 \<longrightarrow> p' = 4)"
  using assms(1-4)
proof (induction xs arbitrary: ys p t)
  case (Cons x xs)
  obtain t1 p1 where 1: "insert_step ys x t = Inr t1" "ready f r a 16 (ys @ [x]) p1 t1" "snug p1 (Suc (length ys))"
      "p = 4 \<and> Suc (length ys) < 12 \<longrightarrow> p1 = 4"
    using insert_step_returns [OF Cons.prems(1) _ _ Cons.prems(4) assms(5), of x] Cons.prems(2,3) by auto
  have "\<exists>t' p'. insert_phase (ys @ [x]) xs t1 = Inr t' \<and> ready f r a 16 ((ys @ [x]) @ xs) p' t'
      \<and> (p1 = 4 \<and> length ((ys @ [x]) @ xs) < 12 \<longrightarrow> p' = 4)"
    using 1 Cons.prems(2,3) by (intro Cons.IH) simp_all
  with 1(1,4) show ?case by auto
qed auto

lemma delete_phase_returns:
  assumes "ready f r a 16 xs p t"
  shows "\<exists>t' p'. delete_phase xs t = Inr t' \<and> ready f r a 16 [] p' t' \<and> (p = 4 \<longrightarrow> p' = 4)"
  using assms
proof (induction xs arbitrary: p t)
  case (Cons x xs)
  have x: "x \<notin> set xs" using ready_size [OF Cons.prems] by simp
  obtain t1 p1 where 1: "t_delete x t = Inr (Some (u32to8_le x), t1)" "ready f r a 16 xs p1 t1" "p = 4 \<longrightarrow> p1 = 4"
    using t_delete_ready [OF Cons.prems, of x] by auto
  obtain t' p' where "delete_phase xs t1 = Inr t'" "ready f r a 16 [] p' t'" "p1 = 4 \<longrightarrow> p' = 4"
    using Cons.IH [OF 1(2)] by blast
  with 1 x show ?case
    by (auto simp: c_assert_def points_to_def t_get_ready [OF 1(2)] check_counts_ready [OF 1(2)] check_items_ready [OF 1(2)])
qed auto

lemma refill_returns:
  assumes "ready f r a c ys p t" "distinct (ys @ xs)" "length (ys @ xs) \<le> hm_limit" "fair_rand r"
  shows "\<exists>t' p'. refill xs t = Inr t' \<and> ready f r a c (ys @ xs) p' t' \<and> (p = 4 \<and> length (ys @ xs) \<le> 12 \<longrightarrow> p' = 4)"
  using assms(1-3)
proof (induction xs arbitrary: ys p t)
  case (Cons x xs)
  obtain t1 where 1: "repeatedly (set_new x) t = Inr t1" "ready f r a c (x # ys) (grown p (length ys)) t1"
    using set_new_returns [OF Cons.prems(1) _ _ assms(4), of x] Cons.prems(2,3) by auto
  have "ready f r a c (ys @ [x]) (grown p (length ys)) t1" using 1(2) ready_perm [of "x # ys" "ys @ [x]"] by simp
  then have "\<exists>t' p'. refill xs t1 = Inr t' \<and> ready f r a c ((ys @ [x]) @ xs) p' t'
      \<and> (grown p (length ys) = 4 \<and> length ((ys @ [x]) @ xs) \<le> 12 \<longrightarrow> p' = 4)"
    using Cons.prems(2,3) by (intro Cons.IH) simp_all
  with 1(1) show ?case by (auto simp: grown_def)
qed auto

subsection \<open>Visiting the items\<close>

lemma mark_items:
  assumes "\<And>x. x \<in> set xs \<Longrightarrow> x < of_nat (length vals)" "length vals < 2 ^ 31"
  shows "fold (\<lambda>item v. snd (iter_ints item v)) (map u32to8_le xs) (Inr vals) = Inr (fold (\<lambda>x v. v[unat x := 1]) xs vals)"
  using assms
proof (induction xs arbitrary: vals)
  case (Cons x xs)
  have "x < of_nat (length vals)" using Cons.prems(1) by simp
  then have x: "unat x < length vals"
    using Cons.prems(2) by (simp add: word_less_nat_alt unsigned_of_nat take_bit_nat_eq_self)
  then have "unat x < 2147483648" using Cons.prems(2) by simp
  then have "int (unat x) < int 2147483648" by (simp only: of_nat_less_iff)
  then have "uint x < 2 ^ 31" by (simp only: uint_nat of_nat_numeral) simp
  then have "signed_take_bit 31 (uint x) = uint x" by (intro signed_take_bit_int_eq_self) (simp_all add: order_trans [of _ 0])
  then have "sint x = uint x" by (simp add: sint_uint)
  then have "sint x = int (unat x)" by (simp only: uint_nat)
  then obtain i where i: "sint x = int i" "unat x = i" by blast
  with x have "snd (iter_ints (u32to8_le x) (Inr vals)) = Inr (vals[unat x := 1])" by (simp add: iter_ints_def Let_def)
  with Cons show ?case by simp
qed simp

lemma mark_length [simp]: "length (fold (\<lambda>x v. v[unat x := 1]) xs vals) = length vals"
  by (induction xs arbitrary: vals) simp_all

lemma mark_nth: "i < length vals \<Longrightarrow> fold (\<lambda>x v. v[unat x := 1]) xs vals ! i = (if \<exists>x \<in> set xs. unat x = i then 1 else vals ! i)"
  by (induction xs arbitrary: vals) (auto simp: nth_list_update)

lemma visit_phase_returns:
  assumes "ready f r a c xs p t" "set xs = of_nat ` {..<n}" "n < 2 ^ 31"
  shows "visit_phase n t = Inr ()"
proof -
  let ?m = "te_map t" and ?mark = "fold (\<lambda>x v. v[unat x := 1])"
  define zs where "zs = map u8to32_le (item_list ?m)"
  have m: "hm_items ?m = mset (map u32to8_le xs)" "hm_inv int_eq ?m" using assms(1) by (auto simp: ready_def ints_def hm_inv_def)
  have items: "item_list ?m = map u32to8_le zs"
    unfolding zs_def map_map by (rule map_idI [symmetric]) (use m(1) in auto)
  have "set zs = u8to32_le ` set_mset (hm_items ?m)" by (simp add: zs_def)
  also have "\<dots> = set xs" unfolding m(1) by (simp add: image_image)
  finally have zs: "set zs = of_nat ` {..<n}" using assms(2) by simp
  have lt: "z < of_nat n" if "z \<in> set zs" for z
    using that assms(3) unfolding zs by (auto simp: word_less_nat_alt unsigned_of_nat take_bit_nat_eq_self)
  have "hashmap_scan ?m iter_ints (Inr vals) = (True, Inr (?mark zs vals))" if "length vals = n" for vals
    using mark_items [of zs vals] lt that assms(3)
    by (simp add: hashmap_scan_def scan_all iter_ints_def [abs_def] flip: items item_list_def)
  moreover have "iter_all ?m 0 = item_list ?m"
    using m(2) by (simp add: iter_all_items hm_inv_def hm_data_def rh_ok_def item_list_def)
  moreover have "fold (\<lambda>item v. snd (iter_ints item v)) (item_list ?m) (Inr vals) = Inr (?mark zs vals)" if "length vals = n" for vals
    using mark_items [of zs vals] lt that assms(3) by (simp add: items)
  moreover have "?mark zs (?mark zs (replicate n 0)) ! i = 1" if "i < n" for i
  proof -
    have "of_nat i \<in> set zs" "unat (of_nat i :: u32) = i"
      using that assms(3) by (auto simp: zs unsigned_of_nat take_bit_nat_eq_self)
    then have "\<exists>x \<in> set zs. unat x = i" by blast
    with that show ?thesis by (simp add: mark_nth)
  qed
  ultimately show ?thesis by (auto simp: visit_phase_def c_assert_def in_set_conv_nth)
qed

subsection \<open>Shuffling\<close>

lemma swap_mset: "i < length xs \<Longrightarrow> j < length xs \<Longrightarrow> mset (xs[j := xs ! i, i := xs ! j]) = mset xs"
  by (cases "i = j") (auto simp: mset_swap list_update_swap)

lemma shuffle_index:
  assumes "r \<le> RAND_MAX" "i < n"
  shows "i + r div (RAND_MAX div (n - i) + 1) < n"
proof -
  let ?d = "n - i"
  have "r < ?d * (RAND_MAX div ?d + 1)"
    using assms dividend_less_times_div [of ?d RAND_MAX] by simp
  then have "r div (RAND_MAX div ?d + 1) < ?d" by (simp add: div_less_iff_less_mult)
  then show ?thesis using assms(2) by simp
qed

lemma shuffle_steps_returns:
  assumes "\<forall>n. te_rand t n \<le> RAND_MAX" "\<forall>i \<in> set is. i < length arr"
  shows "\<exists>arr' t'. shuffle_steps (length arr) is arr t = Inr (arr', t') \<and> mset arr' = mset arr \<and> moved t t'"
  using assms
proof (induction "is" arbitrary: arr t)
  case (Cons i "is")
  let ?j = "i + te_rand t (te_pos t) div (RAND_MAX div (length arr - i) + 1)"
  let ?arr = "arr[?j := arr ! i, i := arr ! ?j]" and ?t = "t\<lparr>te_pos := te_pos t + 1\<rparr>"
  have i: "i < length arr" "?j < length arr" using Cons.prems shuffle_index by auto
  obtain arr' t' where "shuffle_steps (length ?arr) is ?arr ?t = Inr (arr', t')" "mset arr' = mset ?arr" "moved ?t t'"
    using Cons.IH [of ?t ?arr] Cons.prems by auto
  moreover have "moved t ?t" by (auto simp: moved_def)
  ultimately show ?case using i swap_mset [OF i] moved_trans [of t ?t t'] by (simp add: rand_def Let_def not_le)
qed simp

lemma shuffle_returns:
  assumes "\<forall>n. te_rand t n \<le> RAND_MAX" "arr \<noteq> []"
  shows "\<exists>arr' t'. shuffle arr t = Inr (arr', t') \<and> mset arr' = mset arr \<and> moved t t'"
proof -
  have "\<forall>i \<in> set [0..<length arr - 1]. i < length arr" by auto
  with shuffle_steps_returns [OF _ this, of t] assms show ?thesis by (auto simp: shuffle_def)
qed

subsection \<open>Creating and clearing\<close>

text \<open>The map after \<open>hashmap_clear\<close>.\<close>

definition hashmap_clear_to :: "(bytes \<Rightarrow> bytes \<Rightarrow> bool) \<Rightarrow> bool \<Rightarrow> hashmap \<Rightarrow> hashmap \<Rightarrow> bool" where
  "hashmap_clear_to ceq u m m' \<longleftrightarrow> hm_inv ceq m' \<and> hm_items m' = {#} \<and> hm_cap m' = (if u then hm_nbuckets m else hm_cap m)
     \<and> hm_nbuckets m' = hm_cap m' \<and> hm_elfree m' = hm_elfree m"

lemma new_map_returns:
  assumes "fair_rand (te_rand t)" "hashmap_new (True, True) es 0 seed seed h cmp ef = Inr (Some m)"
  shows "\<exists>t1. repeatedly (new_map es 0 seed h cmp ef) t = Inr (t1\<lparr>total_allocs := total_allocs t + 2, te_map := m\<rparr>) \<and> moved t t1"
proof -
  obtain k where k: "te_pos t \<le> k" "lucky (te_rand t) k" using assms(1) by (auto simp: fair_rand_def)
  have "\<exists>t'. repeatedly (new_map es 0 seed h cmp ef) t = Inr t'
    \<and> (\<exists>t1. t' = t1\<lparr>total_allocs := total_allocs t + 2, te_map := m\<rparr> \<and> moved t t1)"
  proof (rule retry_returns [where P = "moved t" and k = k])
    fix t1 assume t1: "moved t t1" "te_pos t1 \<le> k"
    note same = moved_fields [OF t1(1)]
    show "\<exists>b t'. new_map es 0 seed h cmp ef t1 = Inr (b, t') \<and>
        (if b then \<exists>t2. t' = t2\<lparr>total_allocs := total_allocs t + 2, te_map := m\<rparr> \<and> moved t t2
        else moved t t' \<and> te_pos t1 < te_pos t' \<and> te_pos t' \<le> k)"
    proof (cases rule: new_allocs_cases [of t1])
      case (1 t2)
      with assms(2) same moved_trans [OF t1(1) 1(2)] show ?thesis by (auto simp: new_map_def)
    next
      case (2 ok t2)
      then have "hashmap_new ok es 0 seed seed h cmp ef = Inr None"
        by (cases ok) (auto simp: hashmap_new_def hashmap_new_with_allocator_def round_cap_def)
      with 2 t1 k(2) same moved_trans [OF t1(1) 2(3)] show ?thesis by (auto simp: new_map_def)
    qed
  qed (use k in simp_all)
  then show ?thesis by blast
qed

lemma new_returns:
  assumes "fair_rand (te_rand t)"
  shows "\<exists>t'. repeatedly (t_new 0 seed) t = Inr t' \<and> ready (rand_alloc_fail t) (te_rand t) (total_allocs t + 2) 16 [] 4 t'"
proof -
  obtain m where m: "hashmap_new (True, True) 4 0 seed seed hash_int compare_ints_udata False = Inr (Some m)" "ints [] 4 m" "hm_cap m = 16"
    using ints_new by blast
  have "t_new 0 seed = new_map 4 0 seed hash_int compare_ints_udata False" by (rule ext) (simp add: t_new_def)
  with new_map_returns [OF assms m(1)] m(2,3) show ?thesis by (auto simp: ready_def dest!: moved_fields)
qed

lemma t_clear_map:
  assumes "hm_inv ceq (te_map t)"
  shows "\<exists>t1 m'. t_clear u t = Inr (t1\<lparr>te_map := m'\<rparr>) \<and> moved t t1 \<and> hashmap_clear_to ceq u (te_map t) m'"
proof -
  let ?m = "te_map t"
  obtain ok t1 where 1: "(if \<not> u \<and> hm_nbuckets ?m \<noteq> hm_cap ?m then let (a, t) = xmalloc t in (a, if a then xfree t else t)
      else (True, t)) = (ok, t1)" "moved t t1"
  proof (cases rule: xmalloc_cases [of t])
    case (1 t')
    then have "t'\<lparr>total_allocs := total_allocs t' + 1 - 1\<rparr> = t'" "total_allocs t' = total_allocs t" using moved_fields [OF 1(2)] by simp_all
    with 1 show thesis
      by (intro that [of True "if \<not> u \<and> hm_nbuckets ?m \<noteq> hm_cap ?m then t' else t"]) (auto simp: xfree_def)
  next
    case (2 t')
    then show thesis
      by (intro that [of "\<not> (\<not> u \<and> hm_nbuckets ?m \<noteq> hm_cap ?m)" "if \<not> u \<and> hm_nbuckets ?m \<noteq> hm_cap ?m then t' else t"]) auto
  qed
  obtain m' where m': "hashmap_clear ok ?m u = Inr (m', free_elements ?m)" "hm_inv ceq m'" "hm_items m' = {#}"
      "hm_cap m' = (if u then hm_nbuckets ?m else hm_cap ?m)" "hm_nbuckets m' = hm_cap m'"
    using hashmap_clear_spec [OF assms] by auto
  then have "hm_elfree m' = hm_elfree ?m" by (auto simp: hashmap_clear_def Let_def rbind_Inr_iff split: if_splits)
  with m' have "hashmap_clear_to ceq u ?m m'" by (simp add: hashmap_clear_to_def)
  moreover have "t_clear u t = Inr (t1\<lparr>te_map := m'\<rparr>)" unfolding t_clear_def Let_def [of "te_map t"] 1(1) by (simp add: m'(1))
  ultimately show ?thesis using 1(2) by blast
qed

lemma t_clear_returns:
  assumes "ready f r a c xs p t"
  shows "\<exists>t' p'. t_clear u t = Inr t' \<and> ready f r a (if u then hm_nbuckets (te_map t) else c) [] p' t'"
proof -
  have m: "hm_inv int_eq (te_map t)" "hm_cap (te_map t) = c" using assms by (auto simp: ready_def ints_def hm_inv_def)
  obtain t1 m' where 1: "t_clear u t = Inr (t1\<lparr>te_map := m'\<rparr>)" "moved t t1" "hashmap_clear_to int_eq u (te_map t) m'"
    using t_clear_map [OF m(1)] by blast
  then obtain p' where "ints [] p' m'" by (auto simp: hashmap_clear_to_def ints_def hm_inv_def)
  with 1(3) m(2) moved_fields [OF 1(2)] assms have "ready f r a (if u then hm_nbuckets (te_map t) else c) [] p' (t1\<lparr>te_map := m'\<rparr>)"
    by (auto simp: ready_def hashmap_clear_to_def)
  with 1(1) show ?thesis by blast
qed

text \<open>The capacity grows in \<open>hashmap_clear(map, true)\<close> exactly when the table did.\<close>

lemma clear_phase_returns:
  assumes "ready f r a 16 [] p t" "distinct vals" "vals \<noteq> []" "length vals \<le> hm_limit" "fair_rand r"
  shows "12 < length vals \<Longrightarrow> \<exists>t'. clear_phase vals t = Inr t' \<and> total_allocs t' = a - 2 \<and> te_rand t' = r \<and> rand_alloc_fail t' = f"
    "p = 4 \<Longrightarrow> length vals \<le> 12 \<Longrightarrow> clear_phase vals t = Inl (Panic ''prev_cap < map->cap'')"
proof -
  obtain t1 p1 where t1: "refill vals t = Inr t1" "ready f r a 16 vals p1 t1" "p = 4 \<and> length vals \<le> 12 \<longrightarrow> p1 = 4"
    using refill_returns [OF assms(1), of vals] assms(2-5) by auto
  have i1: "ints vals p1 (te_map t1)" "hm_cap (te_map t1) = 16" using t1(2) by (simp_all add: ready_def)
  then have nb: "unat (hm_nbuckets (te_map t1)) = 2 ^ p1" by (simp add: ints_def hm_shape_def)
  have "unat (hm_count (te_map t1)) \<noteq> 0" using ints_count(1) [OF i1(1)] assms(3) by simp
  then have count: "hm_count (te_map t1) \<noteq> 0" by auto
  obtain t2 p2 where t2: "t_clear True t1 = Inr t2" "ready f r a (hm_nbuckets (te_map t1)) [] p2 t2"
    using t_clear_returns [OF t1(2), of True] by auto
  have cap: "hm_cap (te_map t2) = hm_nbuckets (te_map t1)" using t2(2) by (simp add: ready_def)
  show "clear_phase vals t = Inl (Panic ''prev_cap < map->cap'')" if "p = 4" "length vals \<le> 12"
  proof -
    have "hm_nbuckets (te_map t1) = 16" using nb t1(3) that by (simp add: word_unat_eq_iff)
    then show ?thesis using t1(1) t2(1) count cap i1(2) by (simp add: clear_phase_def c_assert_def Let_def)
  qed
  show "\<exists>t'. clear_phase vals t = Inr t' \<and> total_allocs t' = a - 2 \<and> te_rand t' = r \<and> rand_alloc_fail t' = f" if "12 < length vals"
  proof -
    have p1: "4 \<le> p1" "length vals \<le> 3 * 2 ^ (p1 - 2)" using ready_size [OF t1(2)] by auto
    then have "p1 \<noteq> 4" using that by auto
    then have "(2 :: nat) ^ 4 < 2 ^ p1" using p1(1) by (intro power_strict_increasing) auto
    then have grown: "(16 :: size_t) < hm_nbuckets (te_map t1)" using nb by (simp add: word_less_nat_alt)
    have "ints [] p2 (te_map t2)" using t2(2) by (simp add: ready_def)
    then have zero: "hm_count (te_map t2) = 0" using ints_count(2) by fastforce
    obtain t3 p3 where t3: "refill vals t2 = Inr t3" "ready f r a (hm_nbuckets (te_map t1)) vals p3 t3"
      using refill_returns [OF t2(2), of vals] assms(2-5) by auto
    obtain t4 p4 where t4: "t_clear False t3 = Inr t4" "ready f r a (hm_nbuckets (te_map t1)) [] p4 t4"
      using t_clear_returns [OF t3(2), of False] by auto
    have "hm_cap (te_map t3) = hm_cap (te_map t4)" "total_allocs t4 = a" "te_rand t4 = r" "rand_alloc_fail t4 = f" using t3(2) t4(2) by (simp_all add: ready_def)
    then show ?thesis using t1(1) t2(1) t3(1) t4(1) count cap i1(2) grown zero
      by (simp add: clear_phase_def c_assert_def Let_def t_free_def xfree_def)
  qed
qed

section \<open>The test program\<close>

lemma ready_allocs: "ready f r a c xs p t \<Longrightarrow> ready f r b c xs p (t\<lparr>total_allocs := b\<rparr>)"
  by (simp add: ready_def)

text \<open>The phases up to the last one.\<close>

lemma phases_before_clear:
  assumes "fair_rand (te_rand t)" "0 < n" "n < hm_limit"
  obtains t' p vals where "test_ints seed n t = rbind (clear_phase vals t') (\<lambda>t. Inr (xfree t))" "distinct vals" "length vals = n"
    "ready True (te_rand t) (total_allocs t + 3) 16 [] p t'" "n < 12 \<longrightarrow> p = 4"
proof -
  let ?r = "te_rand t" and ?a = "total_allocs t" and ?ints = "map of_nat [0..<n] :: u32 list" and ?t = "t\<lparr>rand_alloc_fail := True\<rparr>"
  have n: "n < 2 ^ 31" using assms(3) by (simp add: hm_limit_def)
  have "inj_on (of_nat :: nat \<Rightarrow> u32) {0..<n}"
    using n by (intro inj_onI) (auto simp: word_of_nat_eq_iff take_bit_nat_eq_self)
  then have "distinct ?ints" by (simp add: distinct_map)
  obtain t1 where t1: "repeatedly (\<lambda>t. Inr (xmalloc t)) ?t = Inr (t1\<lparr>total_allocs := ?a + 1\<rparr>)" "moved ?t t1"
    using xmalloc_returns [of ?t] assms(1) by auto
  let ?t1 = "t1\<lparr>total_allocs := ?a + 1\<rparr>"
  have r1: "te_rand ?t1 = ?r" "rand_alloc_fail ?t1" using moved_fields [OF t1(2)] by simp_all
  obtain t2 where t2: "repeatedly (t_new 0 seed) ?t1 = Inr t2" "ready True ?r (?a + 3) 16 [] 4 t2"
    using new_returns [of ?t1 seed] assms(1) r1 by (auto simp: algebra_simps)
  obtain vals t3 where t3: "shuffle ?ints t2 = Inr (vals, t3)" "mset vals = mset ?ints" "moved t2 t3"
    using shuffle_returns [of t2 ?ints] t2(2) assms(1,2) by (auto simp: ready_def fair_rand_def)
  have vals: "distinct vals" "length vals = n" "set vals = of_nat ` {..<n}"
    using \<open>distinct ?ints\<close> mset_eq_imp_distinct_iff [OF t3(2)] mset_eq_length [OF t3(2)] mset_eq_setD [OF t3(2)]
    by (simp_all add: atLeast0LessThan)
  have r3: "ready True ?r (?a + 3) 16 [] 4 t3" using t2(2) ready_moved [OF t3(3)] by blast
  obtain t4 p4 where t4: "insert_phase [] vals t3 = Inr t4" "ready True ?r (?a + 3) 16 vals p4 t4" "n < 12 \<longrightarrow> p4 = 4"
    using insert_phase_returns [OF r3, of vals] vals assms(1,3) by (auto simp: snug_def)
  have "te_rand t4 = ?r" "total_allocs t4 = ?a + 3" using t4(2) by (simp_all add: ready_def)
  then obtain t5 where t5: "repeatedly (\<lambda>t. Inr (xmalloc t)) t4 = Inr (t5\<lparr>total_allocs := ?a + 4\<rparr>)" "moved t4 t5"
    using xmalloc_returns [of t4] assms(1) by (auto simp: algebra_simps)
  let ?t5 = "t5\<lparr>total_allocs := ?a + 4\<rparr>"
  have r5: "ready True ?r (?a + 4) 16 vals p4 ?t5" "ready True ?r (?a + 3) 16 vals p4 (xfree ?t5)"
    using t4(2) moved_fields [OF t5(2)] by (auto simp: ready_def xfree_def)
  have v: "visit_phase n ?t5 = Inr ()" using visit_phase_returns [OF r5(1) vals(3) n] .
  obtain vals2 t6 where t6: "shuffle vals (xfree ?t5) = Inr (vals2, t6)" "mset vals2 = mset vals" "moved (xfree ?t5) t6"
    using shuffle_returns [of "xfree ?t5" vals] r5(2) assms(1,2) vals(2) by (auto simp: ready_def fair_rand_def)
  have r6: "ready True ?r (?a + 3) 16 vals2 p4 t6"
    using r5(2) ready_moved [OF t6(3)] ready_perm [OF t6(2)] by blast
  obtain t7 p7 where t7: "delete_phase vals2 t6 = Inr t7" "ready True ?r (?a + 3) 16 [] p7 t7" "p4 = 4 \<longrightarrow> p7 = 4"
    using delete_phase_returns [OF r6] by blast
  have "test_ints seed n t = rbind (clear_phase vals2 t7) (\<lambda>t. Inr (xfree t))"
    unfolding test_ints_def sip_vector murmur_vector
    using t1(1) t2(1) t3(1) t4(1) t5(1) v t6(1) t7(1) by (simp add: c_assert_def)
  moreover have "distinct vals2" "length vals2 = n"
    using vals mset_eq_imp_distinct_iff [OF t6(2)] mset_eq_length [OF t6(2)] by simp_all
  moreover have "n < 12 \<longrightarrow> p7 = 4" using t4(3) t7(3) by blast
  ultimately show thesis using t7(2) that by blast
qed

text \<open>For every seed, every order of the integers and whatever allocations fail, every assertion on a map of \<open>n\<close> integers holds
  and every allocation is freed, from 13 integers on; with fewer than 12 the table never grows, and the assertion that
  \<open>hashmap_clear(map, true)\<close> has raised the capacity fails.\<close>

lemma test_ints_returns:
  assumes "fair_rand (te_rand t)" "0 < n" "n < hm_limit"
  shows "n < 12 \<Longrightarrow> test_ints seed n t = Inl (Panic ''prev_cap < map->cap'')"
    "12 < n \<Longrightarrow> \<exists>t'. test_ints seed n t = Inr t' \<and> total_allocs t' = total_allocs t \<and> te_rand t' = te_rand t \<and> rand_alloc_fail t'"
proof -
  obtain t' p vals where t': "test_ints seed n t = rbind (clear_phase vals t') (\<lambda>t. Inr (xfree t))" "distinct vals" "length vals = n"
    "ready True (te_rand t) (total_allocs t + 3) 16 [] p t'" "n < 12 \<longrightarrow> p = 4"
    by (rule phases_before_clear [OF assms, where seed = seed])
  have "vals \<noteq> []" "length vals \<le> hm_limit" using t'(3) assms(2,3) by auto
  note clear = clear_phase_returns [OF t'(4,2) this assms(1)]
  show "test_ints seed n t = Inl (Panic ''prev_cap < map->cap'')" if "n < 12" using clear(2) t' that by simp
  show "\<exists>t'. test_ints seed n t = Inr t' \<and> total_allocs t' = total_allocs t \<and> te_rand t' = te_rand t \<and> rand_alloc_fail t'" if "12 < n"
    using clear(1) t' that by (auto simp: xfree_def)
qed

text \<open>A random number generator whose every fifth number is a multiple of three, and the state before the test.\<close>

definition start_tests :: tests where
  "start_tests = \<lparr>rand_alloc_fail = False, te_rand = (\<lambda>i. if i mod 5 = 0 then 3 else 2000000000), te_pos = 0, total_allocs = 0,
     te_map = full_map\<rparr>"

lemma start_tests_fair: "fair_rand (te_rand start_tests)"
proof -
  have "\<exists>k \<ge> n. lucky (te_rand start_tests) k" for n
    by (rule exI [of _ "5 * n + 1"]) (simp add: lucky_def start_tests_def mod_Suc)
  then show ?thesis by (simp add: fair_rand_def start_tests_def)
qed

text \<open>Without integers the first shuffle divides by zero.\<close>

lemma no_integers:
  assumes "fair_rand (te_rand t)"
  shows "test_ints seed 0 t = Inl Div_by_zero"
proof -
  let ?t = "t\<lparr>rand_alloc_fail := True\<rparr>"
  obtain t1 where t1: "repeatedly (\<lambda>t. Inr (xmalloc t)) ?t = Inr (t1\<lparr>total_allocs := total_allocs t + 1\<rparr>)" "moved ?t t1"
    using xmalloc_returns [of ?t] assms by auto
  then obtain t2 where "repeatedly (t_new 0 seed) (t1\<lparr>total_allocs := total_allocs t + 1\<rparr>) = Inr t2"
    using new_returns [of "t1\<lparr>total_allocs := total_allocs t + 1\<rparr>" seed] assms moved_fields [OF t1(2)] by auto
  with t1(1) show ?thesis unfolding test_ints_def sip_vector murmur_vector by (simp add: c_assert_def shuffle_def)
qed

section \<open>The benchmarks\<close>

text \<open>Without failures every insertion succeeds at once.\<close>

lemma new_no_fail:
  assumes "\<not> rand_alloc_fail t" "unat cap \<le> 2 ^ 15"
  shows "\<exists>t' c p. t_new cap seed t = Inr (True, t') \<and> ready False (te_rand t) (total_allocs t + 2) c [] p t'"
proof (cases rule: new_allocs_cases [of t])
  case (1 t1)
  obtain m where m: "hashmap_new (True, True) 4 cap seed seed hash_int compare_ints_udata False = Inr (Some m)" "hm_inv int_eq m" "hm_items m = {#}"
    using hashmap_new_inv [OF compare_ints_decides int_eq_equivp assms(2), of 4 seed seed hash_int False] by auto
  then obtain p where "ints [] p m" by (auto simp: ints_def hm_inv_def)
  with 1 m(1) assms(1) moved_fields [OF 1(2)] show ?thesis by (auto simp: t_new_def new_map_def ready_def)
qed (use assms(1) in simp)

lemma bench_set_returns:
  assumes "ready False r a c ys p t" "distinct (ys @ xs)" "length (ys @ xs) \<le> hm_limit"
  shows "\<exists>t' p'. bench bench_set xs t = Inr t' \<and> ready False r a c (ys @ xs) p' t'"
  using assms
proof (induction xs arbitrary: ys p t)
  case (Cons x xs)
  have len: "length ys < hm_limit" using Cons.prems(3) by simp
  obtain t1 where 1: "t_set x t = Inr (None, t1)" "ready False r a c (x # ys) (grown p (length ys)) t1"
  proof (cases rule: t_set_cases [OF Cons.prems(1) len, of x])
    case (1 t')
    then show thesis using Cons.prems(1) by (simp add: ready_def)
  next
    case (2 t')
    then show thesis using that Cons.prems(2) by auto
  qed
  have "ready False r a c (ys @ [x]) (grown p (length ys)) t1" using 1(2) ready_perm [of "x # ys" "ys @ [x]"] by simp
  from Cons.IH [OF this] Cons.prems(2,3)
  have "\<exists>t' p'. bench bench_set xs t1 = Inr t' \<and> ready False r a c (ys @ x # xs) p' t'" by simp
  moreover have "bench_set x t = Inr t1" using 1(1) by (simp add: bench_set_def c_assert_def)
  ultimately show ?case by simp
qed auto

lemma bench_get_returns: "ready f r a c ys p t \<Longrightarrow> set xs \<subseteq> set ys \<Longrightarrow> bench bench_get xs t = Inr t"
  by (induction xs) (simp_all add: bench_get_def t_get_ready c_assert_def points_to_def)

lemma bench_delete_returns:
  assumes "ready f r a c xs p t"
  shows "\<exists>t' p'. bench bench_delete xs t = Inr t' \<and> ready f r a c [] p' t'"
  using assms
proof (induction xs arbitrary: p t)
  case (Cons x xs)
  obtain t1 p1 where 1: "t_delete x t = Inr (Some (u32to8_le x), t1)" "ready f r a c xs p1 t1"
    using t_delete_ready [OF Cons.prems, of x] by auto
  obtain t' p' where "bench bench_delete xs t1 = Inr t'" "ready f r a c [] p' t'" using Cons.IH [OF 1(2)] by blast
  moreover have "bench_delete x t = Inr t1" using 1(1) by (simp add: bench_delete_def c_assert_def points_to_def)
  ultimately show ?case by auto
qed auto

lemma bench_map_returns:
  assumes "\<not> rand_alloc_fail t" "\<forall>n. te_rand t n \<le> RAND_MAX" "unat cap \<le> 2 ^ 15" "distinct vals" "vals \<noteq> []" "length vals \<le> hm_limit"
  shows "\<exists>vals' t'. bench_map cap seed vals t = Inr (vals', t') \<and> mset vals' = mset vals \<and> \<not> rand_alloc_fail t'
    \<and> te_rand t' = te_rand t \<and> total_allocs t' = total_allocs t"
proof -
  let ?r = "te_rand t" and ?a = "total_allocs t + 2"
  obtain t1 c p1 where t1: "t_new cap seed t = Inr (True, t1)" "ready False ?r ?a c [] p1 t1"
    using new_no_fail [OF assms(1,3)] by blast
  obtain t2 p2 where t2: "bench bench_set vals t1 = Inr t2" "ready False ?r ?a c vals p2 t2"
    using bench_set_returns [OF t1(2), of vals] assms(4,6) by auto
  obtain v3 t3 where t3: "shuffle vals t2 = Inr (v3, t3)" "mset v3 = mset vals" "moved t2 t3"
    using shuffle_returns [of t2 vals] t2(2) assms(2,5) by (auto simp: ready_def)
  have r3: "ready False ?r ?a c vals p2 t3" using t2(2) ready_moved [OF t3(3)] by blast
  have g: "bench bench_get v3 t3 = Inr t3" using mset_eq_setD [OF t3(2)] by (intro bench_get_returns [OF r3]) simp
  have "v3 \<noteq> []" using t3(2) assms(5) by auto
  then obtain v4 t4 where t4: "shuffle v3 t3 = Inr (v4, t4)" "mset v4 = mset v3" "moved t3 t4"
    using shuffle_returns [of t3 v3] r3 assms(2) by (auto simp: ready_def)
  have "ready False ?r ?a c v4 p2 t4"
    using r3 ready_moved [OF t4(3)] ready_perm [of v4 vals] t3(2) t4(2) by auto
  then obtain t5 p5 where t5: "bench bench_delete v4 t4 = Inr t5" "ready False ?r ?a c [] p5 t5"
    using bench_delete_returns by blast
  have "bench_map cap seed vals t = Inr (v4, t_free t5)"
    using t1(1) t2(1) t3(1) g t4(1) t5(1) by (simp add: bench_map_def)
  with t3(2) t4(2) t5(2) show ?thesis by (auto simp: t_free_def xfree_def ready_def)
qed

text \<open>The benchmarks run without a failed assertion and free what they allocate, for every seed and up to 24576 integers, in
  a map that grows as well as in one created with the capacity.\<close>

theorem benchmarks_pass:
  assumes "\<not> rand_alloc_fail t" "\<forall>i. te_rand t i \<le> RAND_MAX" "0 < n" "n \<le> hm_limit" "total_allocs t = 0"
  shows "\<exists>t'. benchmarks seed n t = Inr t' \<and> total_allocs t' = 0"
proof -
  let ?ints = "map of_nat [0..<n] :: u32 list" and ?t = "t\<lparr>total_allocs := 1\<rparr>"
  have n: "n < 2 ^ 31" "n \<le> 2 ^ 15" using assms(4) by (simp_all add: hm_limit_def)
  have "inj_on (of_nat :: nat \<Rightarrow> u32) {0..<n}"
    using n(1) by (intro inj_onI) (auto simp: word_of_nat_eq_iff take_bit_nat_eq_self)
  then have ints: "distinct ?ints" "?ints \<noteq> []" using assms(3) by (simp_all add: distinct_map)
  have cap: "unat (of_nat n :: size_t) \<le> 2 ^ 15" using n(2) by (simp add: unsigned_of_nat take_bit_nat_eq_self)
  have x: "xmalloc t = (True, ?t)" using assms(1,5) by (simp add: xmalloc_def)
  obtain v1 t1 where 1: "shuffle ?ints ?t = Inr (v1, t1)" "mset v1 = mset ?ints" "moved ?t t1"
    using shuffle_returns [of ?t ?ints] assms(2) ints(2) by auto
  note s1 = moved_fields [OF 1(3)]
  have "v1 \<noteq> []" using mset_eq_length [OF 1(2)] assms(3) by auto
  then obtain v2 t2 where 2: "shuffle v1 t1 = Inr (v2, t2)" "mset v2 = mset v1" "moved t1 t2"
    using shuffle_returns [of t1 v1] assms(2) s1 by auto
  note s2 = moved_fields [OF 2(3)]
  have perm: "distinct v \<and> v \<noteq> [] \<and> length v \<le> hm_limit" if "mset v = mset ?ints" for v
    using ints mset_eq_imp_distinct_iff [OF that] mset_eq_length [OF that] assms(3,4) by auto
  obtain v3 t3 where 3: "bench_map 0 seed v2 t2 = Inr (v3, t3)" "mset v3 = mset v2" "\<not> rand_alloc_fail t3"
      "te_rand t3 = te_rand t2" "total_allocs t3 = total_allocs t2"
    using bench_map_returns [of t2 0 v2 seed] perm [of v2] 1(2) 2(2) s1 s2 assms(1,2) by auto
  obtain v4 t4 where 4: "bench_map (of_nat n) seed v3 t3 = Inr (v4, t4)" "total_allocs t4 = total_allocs t3"
    using bench_map_returns [OF 3(3) _ cap, of v3 seed] perm [of v3] 1(2) 2(2) 3(2,4) s1 s2 assms(2) by auto
  show ?thesis
    using x 1(1) 2(1) 3(1,5) 4 s1 s2 by (simp add: benchmarks_def Let_def xfree_def)
qed

theorem benchmarks_pass_witness: "\<exists>t'. benchmarks 1 20000 start_tests = Inr t' \<and> total_allocs t' = 0"
proof -
  have "\<not> rand_alloc_fail start_tests" "total_allocs start_tests = 0" "\<forall>i. te_rand start_tests i \<le> RAND_MAX"
    by (simp_all add: start_tests_def)
  then show ?thesis by (intro benchmarks_pass) (simp_all add: hm_limit_def)
qed

end
