(* ===== verification/Hashmap_Tests_Strings.thy ===== *)
theory Hashmap_Tests_Strings
  imports Hashmap_Tests_Correct
begin

text \<open>
  The last part of \<open>all\<close>, on a map of strings, and \<open>main\<close>. An item of this map is a pointer, so the hash and compare functions
  read memory: the heap maps the address of a live string to its bytes. Which address \<open>malloc\<close> returns is the argument
  \<open>addr\<close>, a function of the position in the random numbers and of the addresses in use.
\<close>

section \<open>Strings in memory\<close>

type_synonym heap = "u64 \<Rightarrow> bytes option"

text \<open>The bytes before the terminator.\<close>

definition c_string :: "bytes \<Rightarrow> bytes" where
  "c_string = takeWhile (\<lambda>b. b \<noteq> 0)"

fun strcmp :: "bytes \<Rightarrow> bytes \<Rightarrow> int" where
  "strcmp [] [] = 0"
| "strcmp (x # xs) [] = uint x"
| "strcmp [] (y # ys) = - uint y"
| "strcmp (x # xs) (y # ys) = (if x = y then strcmp xs ys else uint x - uint y)"

text \<open>\<open>*(char**)item\<close>. At an address that is not live nothing is read: the calls are guarded below.\<close>

definition string_at :: "heap \<Rightarrow> bytes \<Rightarrow> bytes" where
  "string_at H item = (case H (u8to64_le item) of None \<Rightarrow> [] | Some b \<Rightarrow> c_string b)"

definition compare_strs :: "heap \<Rightarrow> iptr \<Rightarrow> iptr \<Rightarrow> int" where
  "compare_strs H a b = strcmp (string_at H (snd a)) (string_at H (snd b))"

definition hash_str :: "heap \<Rightarrow> bytes \<Rightarrow> u64 \<Rightarrow> u64 \<Rightarrow> u64" where
  "hash_str H item seed0 seed1 = hashmap_murmur (string_at H item) seed0 seed1"

definition free_str :: "bytes \<Rightarrow> heap \<times> tests \<Rightarrow> (heap \<times> tests) res" where
  "free_str item = (\<lambda>(H, t). let p = u8to64_le item
     in if p = 0 then Inr (H, t) else if H p = None then Inl Dangling else Inr (H(p := None), xfree t))"

text \<open>\<open>%i\<close> for a number that is not negative, and what \<open>sprintf(str, "s%i", i)\<close> writes.\<close>

fun decimal :: "nat \<Rightarrow> bytes" where
  "decimal n = (if n < 10 then [48 + of_nat n] else decimal (n div 10) @ [48 + of_nat (n mod 10)])"

declare decimal.simps [simp del]

definition s_text :: "nat \<Rightarrow> bytes" where
  "s_text i = 0x73 # decimal i"

section \<open>The operations\<close>

text \<open>The callbacks of the map read the memory as it is at the time of the call. A call in which the key or an item of the map
  does not point to a live string is an error, whether the item is compared or not.\<close>

definition with_mem :: "heap \<Rightarrow> hashmap \<Rightarrow> hashmap" where
  "with_mem H m = m\<lparr>hm_hash := hash_str H, hm_compare := compare_strs H\<rparr>"

abbreviation at_mem :: "heap \<Rightarrow> tests \<Rightarrow> tests" where
  "at_mem H t \<equiv> t\<lparr>te_map := with_mem H (te_map t)\<rparr>"

definition all_live :: "heap \<Rightarrow> bytes list \<Rightarrow> bool" where
  "all_live H its \<longleftrightarrow> list_all (\<lambda>it. H (u8to64_le it) \<noteq> None) its"

text \<open>The body of the loop around \<open>hashmap_set(map, &str)\<close>, which ends when an old item is returned.\<close>

definition set_string :: "heap \<Rightarrow> u64 \<Rightarrow> tests \<Rightarrow> (bool \<times> tests) res" where
  "set_string H p t =
     (if \<not> all_live H (u64to8_le p # item_list (te_map t)) then Inl Dangling
      else rbind (set_item (u64to8_le p) (at_mem H t)) (\<lambda>(v, t). Inr (v \<noteq> None, t)))"

definition new_string :: "(nat \<Rightarrow> u64 set \<Rightarrow> u64) \<Rightarrow> nat \<Rightarrow> heap \<times> tests \<Rightarrow> (u64 \<times> heap \<times> tests) res" where
  "new_string addr i = (\<lambda>(H, t).
     rbind (repeatedly (\<lambda>t. Inr (xmalloc t)) t) (\<lambda>t.
     let p = addr (te_pos t) (dom H); txt = s_text i @ [0]
     in if 16 < length txt then Inl Out_of_bounds else Inr (p, H(p \<mapsto> txt), t)))"

fun add_strings :: "(nat \<Rightarrow> u64 set \<Rightarrow> u64) \<Rightarrow> nat list \<Rightarrow> heap \<times> tests \<Rightarrow> (heap \<times> tests) res" where
  "add_strings addr [] st = Inr st"
| "add_strings addr (i # is) st =
     rbind (new_string addr i st) (\<lambda>(p, H, t).
     rbind (repeatedly (set_string H p) t) (\<lambda>t. add_strings addr is (H, t)))"

fun free_strs :: "bytes list \<Rightarrow> heap \<times> tests \<Rightarrow> (heap \<times> tests) res" where
  "free_strs [] st = Inr st"
| "free_strs (it # its) st = rbind (free_str it st) (free_strs its)"

text \<open>\<open>hashmap_clear(map, false)\<close> and \<open>hashmap_free(map)\<close>: first every item is passed to \<open>free_str\<close>.\<close>

definition clear_strs :: "heap \<times> tests \<Rightarrow> (heap \<times> tests) res" where
  "clear_strs = (\<lambda>(H, t).
     rbind (free_strs (free_elements (te_map t)) (H, t)) (\<lambda>(H, t).
     rbind (t_clear False t) (\<lambda>t. Inr (H, t))))"

definition drop_strs :: "heap \<times> tests \<Rightarrow> (heap \<times> tests) res" where
  "drop_strs = (\<lambda>(H, t).
     rbind (free_strs (free_elements (te_map t)) (H, t)) (\<lambda>(H, t). Inr (H, t_free t)))"

section \<open>The program\<close>

definition test_strings :: "(nat \<Rightarrow> u64 set \<Rightarrow> u64) \<Rightarrow> u64 \<Rightarrow> nat \<Rightarrow> tests \<Rightarrow> tests res" where
  "test_strings addr seed n t =
     rbind (repeatedly (new_map 8 0 seed (hash_str Map.empty) (compare_strs Map.empty) True) t) (\<lambda>t.
     rbind (add_strings addr [0..<n] (Map.empty, t)) (\<lambda>st.
     rbind (clear_strs st) (\<lambda>(H, t).
     rbind (c_assert ''hashmap_count(map) == 0'' (hashmap_count (te_map t) = 0)) (\<lambda>_.
     rbind (add_strings addr [0..<n] (H, t)) (\<lambda>st.
     rbind (drop_strs st) (\<lambda>(H, t). Inr t))))))"

definition test_all :: "(nat \<Rightarrow> u64 set \<Rightarrow> u64) \<Rightarrow> u64 \<Rightarrow> nat \<Rightarrow> tests \<Rightarrow> tests res" where
  "test_all addr seed n t =
     rbind (test_ints seed n t) (\<lambda>t.
     rbind (test_strings addr seed n t) (\<lambda>t.
     if total_allocs t \<noteq> 0 then Inl (Exit 1) else Inr t))"

text \<open>\<open>main\<close>, for the seed and number that \<open>all\<close> and \<open>benchmarks\<close> take from the environment.\<close>

definition hashmap_main :: "bool \<Rightarrow> (nat \<Rightarrow> u64 set \<Rightarrow> u64) \<Rightarrow> u64 \<Rightarrow> nat \<Rightarrow> tests \<Rightarrow> tests res" where
  "hashmap_main benching addr seed n t = (if benching then benchmarks seed n t else test_all addr seed n t)"

section \<open>Texts\<close>

lemma strcmp_eq: "0 \<notin> set xs \<Longrightarrow> 0 \<notin> set ys \<Longrightarrow> strcmp xs ys = 0 \<longleftrightarrow> xs = ys"
  by (induction xs ys rule: strcmp.induct) (auto simp: uint_0_iff simp flip: word_uint_eq_iff)

lemma c_string_no_zero [simp]: "0 \<notin> set (c_string b)"
  by (auto simp: c_string_def dest: set_takeWhileD)

lemma string_at_no_zero [simp]: "0 \<notin> set (string_at H it)"
  by (simp add: string_at_def split: option.splits)

definition number_of :: "bytes \<Rightarrow> nat" where
  "number_of = foldl (\<lambda>n d. 10 * n + unat (d - 48)) 0"

lemma digit: "d < 10 \<Longrightarrow> unat (of_nat d :: u8) = d"
  by (simp add: unsigned_of_nat take_bit_nat_eq_self)

lemma number_of_decimal: "number_of (decimal n) = n"
proof (induction n rule: decimal.induct)
  case (1 n)
  then show ?case
    by (subst decimal.simps) (auto simp: number_of_def digit)
qed

lemma decimal_no_zero: "0 \<notin> set (decimal n)"
proof (induction n rule: decimal.induct)
  case (1 n)
  have "(0 :: u8) \<noteq> 48 + of_nat d" if "d < 10" for d
  proof
    assume "(0 :: u8) = 48 + of_nat d"
    then have "unat (of_nat (48 + d) :: u8) = 0" by (metis of_nat_add of_nat_numeral unat_0)
    with that show False by (simp add: unsigned_of_nat take_bit_nat_eq_self del: of_nat_add)
  qed
  then show ?case using 1 by (cases "n < 10") (simp_all add: decimal.simps [of n])
qed

lemma decimal_length: "n < 10 ^ k \<Longrightarrow> 0 < k \<Longrightarrow> length (decimal n) \<le> k"
proof (induction k arbitrary: n)
  case (Suc k)
  show ?case
  proof (cases "n < 10")
    case False
    then have "0 < k" using Suc.prems(1) by (cases k) auto
    moreover have "n div 10 < 10 ^ k" using Suc.prems(1) by (simp add: div_less_iff_less_mult mult.commute)
    ultimately show ?thesis using Suc.IH False by (subst decimal.simps) simp
  qed (subst decimal.simps, simp)
qed simp

lemma s_text_inj [simp]: "s_text i = s_text j \<longleftrightarrow> i = j"
  by (metis list.inject number_of_decimal s_text_def)

lemma c_string_text [simp]: "c_string (s_text i @ [0]) = s_text i"
proof -
  have "\<forall>b \<in> set (s_text i). b \<noteq> 0" using decimal_no_zero by (auto simp: s_text_def)
  then show ?thesis by (simp add: c_string_def)
qed

lemma s_text_fits: "i < 10 ^ 10 \<Longrightarrow> length (s_text i @ [0]) \<le> 16"
  using decimal_length [of i 10] by (simp add: s_text_def)

section \<open>A map of strings\<close>

definition str_eq :: "heap \<Rightarrow> bytes \<Rightarrow> bytes \<Rightarrow> bool" where
  "str_eq H a b \<longleftrightarrow> string_at H a = string_at H b"

lemma str_eq_equivp: "equivp (str_eq H)"
  by (rule equivpI) (auto simp: str_eq_def reflp_def symp_def transp_def)

lemma compare_strs_decides: "cmp_decides (compare_strs H) (str_eq H)"
  by (simp add: cmp_decides_def compare_strs_def str_eq_def strcmp_eq)

lemma with_mem_simps [simp]:
  "hm_items (with_mem H m) = hm_items m" "hm_shape (with_mem H m) p = hm_shape m p" "item_list (with_mem H m) = item_list m"
  "hm_elfree (with_mem H m) = hm_elfree m" "hm_compare (with_mem H m) = compare_strs H" "with_mem H (with_mem H' m) = with_mem H m"
  "with_mem H (m\<lparr>hm_oom := b\<rparr>) = (with_mem H m)\<lparr>hm_oom := b\<rparr>" "hm_buckets (with_mem H m) = hm_buckets m"
  by (simp_all add: with_mem_def hm_items_def hm_shape_def item_list_def)

lemma oom_simps [simp]:
  "hm_shape (m\<lparr>hm_oom := b\<rparr>) p = hm_shape m p" "hm_items (m\<lparr>hm_oom := b\<rparr>) = hm_items m" "hm_data ceq (m\<lparr>hm_oom := b\<rparr>) = hm_data ceq m"
  by (simp_all add: hm_shape_def hm_items_def hm_data_def h48_def)

lemma with_mem_h48: "string_at H' x = string_at H x \<Longrightarrow> h48 (with_mem H' m) x = h48 (with_mem H m) x"
  by (simp add: h48_def with_mem_def hash_str_def)

lemma key_str [simp]: "key_eq (str_eq H) (with_mem H m) x y \<longleftrightarrow> string_at H x = string_at H y"
  by (auto simp: key_eq_def str_eq_def h48_def with_mem_def hash_str_def)

text \<open>The data of the map are the same in a memory in which the strings of its items are the same.\<close>

lemma hm_data_mem:
  assumes "hm_data (str_eq H) (with_mem H m)" "\<And>x. x \<in># hm_items m \<Longrightarrow> string_at H' x = string_at H x"
  shows "hm_data (str_eq H') (with_mem H' m)"
proof -
  let ?C = "cont (hm_buckets m)"
  have str: "string_at H' (snd x) = string_at H (snd x)" if "x \<in># ?C" for x
    using that by (intro assms(2)) (auto simp: hm_items_def)
  have old: "uniq (str_eq H) ?C" "\<forall>x \<in># ?C. fst x = h48 (with_mem H m) (snd x)" using assms(1) by (simp_all add: hm_data_def)
  have "uniq (str_eq H') ?C" unfolding uniq_def
  proof (intro allI impI)
    fix x y assume xy: "{#x, y#} \<subseteq># ?C"
    then have "x \<in># ?C" "y \<in># ?C" by (auto dest: mset_subset_eqD)
    moreover have "\<not> same (str_eq H) x y" using old(1) xy unfolding uniq_def by blast
    ultimately show "\<not> same (str_eq H') x y" using str by (simp add: same_def str_eq_def)
  qed
  moreover have "\<forall>x \<in># ?C. fst x = h48 (with_mem H' m) (snd x)" using old(2) with_mem_h48 [OF str] by simp
  ultimately show ?thesis
    using assms(1) compare_strs_decides [of H'] str_eq_equivp [of H'] by (simp add: hm_data_def, simp add: with_mem_def)
qed

text \<open>The live strings, at the given addresses, are the first \<open>n\<close> texts.\<close>

definition texts :: "heap \<Rightarrow> u64 list \<Rightarrow> nat \<Rightarrow> bool" where
  "texts H xs n \<longleftrightarrow> distinct xs \<and> 0 \<notin> set xs \<and> length xs = n \<and> dom H = set xs \<and> inj_on H (set xs)
     \<and> (\<forall>x \<in> set xs. \<exists>j < n. H x = Some (s_text j @ [0]))"

lemma texts_new:
  assumes "texts H xs n" "p \<notin> set xs" "p \<noteq> 0"
  shows "texts (H(p \<mapsto> s_text n @ [0])) (p # xs) (Suc n)"
proof -
  have "H x \<noteq> Some (s_text n @ [0])" if "x \<in> set xs" for x using that assms(1) by (fastforce simp: texts_def)
  moreover have "inj_on (H(p \<mapsto> s_text n @ [0])) (set xs) \<longleftrightarrow> inj_on H (set xs)" using assms(2) by (intro inj_on_cong) auto
  ultimately show ?thesis using assms by (fastforce simp: texts_def less_Suc_eq)
qed

lemma texts_inj: "texts H xs n \<Longrightarrow> inj_on (\<lambda>x. string_at H (u64to8_le x)) (set xs)"
proof (rule inj_onI)
  fix x y assume H: "texts H xs n" and xy: "x \<in> set xs" "y \<in> set xs" "string_at H (u64to8_le x) = string_at H (u64to8_le y)"
  obtain i j where "H x = Some (s_text i @ [0])" "H y = Some (s_text j @ [0])" using H xy(1,2) by (fastforce simp: texts_def)
  then have "H x = H y" using xy(3) by (simp add: string_at_def u8to64_le_inverse)
  then show "x = y" using H xy(1,2) by (auto simp: texts_def dest: inj_onD)
qed

text \<open>The test on \<open>xs\<close>: a map with pointers to these strings, the random numbers and the number of live allocations.\<close>

definition sready :: "(nat \<Rightarrow> nat) \<Rightarrow> int \<Rightarrow> heap \<Rightarrow> u64 list \<Rightarrow> nat \<Rightarrow> tests \<Rightarrow> bool" where
  "sready r a H xs q t \<longleftrightarrow> hm_shape (te_map t) q \<and> hm_data (str_eq H) (with_mem H (te_map t))
     \<and> hm_items (te_map t) = mset (map u64to8_le xs) \<and> hm_elfree (te_map t)
     \<and> te_rand t = r \<and> total_allocs t = a"

lemma sready_moved: "moved t t' \<Longrightarrow> sready r a H xs q t' = sready r a H xs q t"
  by (drule moved_fields) (simp add: sready_def)

lemma sready_extend:
  assumes "sready r a H xs q t" "p \<notin> set xs"
  shows "sready r a (H(p \<mapsto> b)) xs q t"
proof -
  have "hm_data (str_eq (H(p \<mapsto> b))) (with_mem (H(p \<mapsto> b)) (te_map t))"
    by (rule hm_data_mem [of H]) (use assms in \<open>auto simp: sready_def string_at_def u8to64_le_inverse\<close>)
  with assms(1) show ?thesis by (simp add: sready_def)
qed

lemma pointer_inj [simp]: "u64to8_le x = u64to8_le y \<longleftrightarrow> x = y"
  by (metis u8to64_le_inverse)

text \<open>A call of \<open>hashmap_set\<close>: either there was no memory, or the string is in the map.\<close>

lemma set_string_cases:
  assumes "sready r a H xs q t" "inj_on (\<lambda>x. string_at H (u64to8_le x)) (insert p (set xs))" "insert p (set xs) \<subseteq> dom H"
    "distinct xs" "length xs < hm_limit"
  obtains t' where "set_string H p t = Inr (False, t')" "sready r a H xs q t'" "te_pos t < te_pos t'"
      "\<And>k. te_pos t \<le> k \<Longrightarrow> lucky r k \<Longrightarrow> te_pos t' \<le> k"
  | t' q' where "set_string H p t = Inr (p \<in> set xs, t')" "sready r a H (List.insert p xs) q' t'"
proof -
  let ?t = "at_mem H t" and ?m = "with_mem H (te_map t)"
  have m: "hm_shape (te_map ?t) q" "hm_data (str_eq H) (te_map ?t)" "hm_items (te_map t) = mset (map u64to8_le xs)"
      "te_rand t = r" "hm_elfree (te_map t)" "total_allocs t = a"
    using assms(1) by (simp_all add: sready_def)
  have small: "size (hm_items (te_map ?t)) < hm_limit" using m(3) assms(5) by simp
  have "set (item_list (te_map t)) = u64to8_le ` set xs" using m(3) by simp
  then have "all_live H (u64to8_le p # item_list (te_map t))"
    using assms(3) by (auto simp: all_live_def list_all_iff u8to64_le_inverse)
  then have set: "set_string H p t = rbind (set_item (u64to8_le p) ?t) (\<lambda>(v, t). Inr (v \<noteq> None, t))" by (simp add: set_string_def)
  show thesis
  proof (cases rule: set_item_cases [OF m(1,2) small, of "u64to8_le p"])
    case (1 t1)
    let ?t' = "t1\<lparr>te_map := ?m\<lparr>hm_oom := True\<rparr>\<rparr>"
    have "sready r a H xs q ?t'" using m moved_fields [OF 1(2)] by (simp add: sready_def)
    with 1 m(4) show thesis by (intro that(1) [of ?t']) (simp_all add: set)
  next
    case (2 t1 m' old)
    have same: "with_mem H m' = m'" "hm_elfree m'" using 2(6) m(5) by (simp_all add: same_client_def with_mem_def)
    have eff: "(old \<noteq> None) = (p \<in> set xs) \<and> hm_items m' = mset (map u64to8_le (List.insert p xs))"
    proof (cases old)
      case None
      then have "\<forall>x \<in> set xs. string_at H (u64to8_le p) \<noteq> string_at H (u64to8_le x)" "hm_items m' = add_mset (u64to8_le p) (hm_items (te_map t))"
        using 2(5) m(3) by (auto simp: set_effect_def)
      with None m(3) show ?thesis by auto
    next
      case (Some z)
      then have z: "z \<in># hm_items (te_map t)" "string_at H (u64to8_le p) = string_at H z"
          "hm_items m' = add_mset (u64to8_le p) (hm_items (te_map t) - {#z#})"
        using 2(5) by (auto simp: set_effect_def)
      then obtain x where x: "z = u64to8_le x" "x \<in> set xs" using m(3) by auto
      then have "x = p" using z(2) inj_onD [OF assms(2), of p x] by auto
      with x z Some m(3) show ?thesis by (simp del: mset_map)
    qed
    have "sready r a H (List.insert p xs) (grown q (size (hm_items (te_map ?t)))) (t1\<lparr>te_map := m'\<rparr>)"
      using 2(3,4) eff same m(4-6) moved_fields [OF 2(2)] by (simp add: sready_def)
    with 2(1) eff show thesis by (intro that(2) [of "t1\<lparr>te_map := m'\<rparr>"]) (simp_all add: set)
  qed
qed

section \<open>The loops\<close>

text \<open>A loop that goes on in a state with another property.\<close>

lemma retry_reaches:
  assumes "P t" "te_pos t \<le> k"
    "\<And>t. P t \<Longrightarrow> te_pos t \<le> k \<Longrightarrow> \<exists>t'. body t = Inr (False, t') \<and> (R t' \<or> P t' \<and> te_pos t < te_pos t' \<and> te_pos t' \<le> k)"
  shows "\<exists>t'. R t' \<and> repeatedly body t = repeatedly body t'"
  using assms(1,2)
proof (induction "k - te_pos t" arbitrary: t rule: less_induct)
  case less
  obtain t1 where t1: "body t = Inr (False, t1)" "R t1 \<or> P t1 \<and> te_pos t < te_pos t1 \<and> te_pos t1 \<le> k"
    using assms(3) [OF less.prems] by blast
  have "repeatedly body t = repeatedly body t1" using t1(1) by (simp add: repeatedly_def retry.simps [of body t])
  with t1(2) less.hyps [of t1] show ?case by auto
qed

text \<open>A new string is inserted, which returns no old item, and then replaced by itself.\<close>

lemma set_string_returns:
  assumes "sready r a H xs q t" "texts H (p # xs) (Suc (length xs))" "Suc (length xs) < hm_limit" "fair_rand r"
  shows "\<exists>t' q'. repeatedly (set_string H p) t = Inr t' \<and> sready r a H (p # xs) q' t'"
proof -
  have inj: "inj_on (\<lambda>x. string_at H (u64to8_le x)) (insert p (set xs))" using texts_inj [OF assms(2)] by simp
  have live: "insert p (set xs) \<subseteq> dom H" "distinct xs" "p \<notin> set xs" using assms(2) by (simp_all add: texts_def)
  have len: "length xs < hm_limit" using assms(3) by simp
  have "\<exists>t1. (\<exists>q. sready r a H (p # xs) q t1) \<and> repeatedly (set_string H p) t = repeatedly (set_string H p) t1"
  proof -
    obtain k where k: "te_pos t \<le> k" "lucky r k" using assms(4) by (auto simp: fair_rand_def)
    show ?thesis
    proof (rule retry_reaches [where P = "sready r a H xs q" and k = k])
      fix t1 assume t1: "sready r a H xs q t1" "te_pos t1 \<le> k"
      show "\<exists>t'. set_string H p t1 = Inr (False, t') \<and> ((\<exists>q. sready r a H (p # xs) q t')
          \<or> sready r a H xs q t' \<and> te_pos t1 < te_pos t' \<and> te_pos t' \<le> k)"
        by (cases rule: set_string_cases [OF t1(1) inj live(1,2) len]) (use live(3) t1(2) k(2) in auto)
    qed (use assms(1) k in simp_all)
  qed
  then obtain t1 q1 where t1: "sready r a H (p # xs) q1 t1" "repeatedly (set_string H p) t = repeatedly (set_string H p) t1" by blast
  have again: "inj_on (\<lambda>x. string_at H (u64to8_le x)) (insert p (set (p # xs)))" "insert p (set (p # xs)) \<subseteq> dom H"
      "distinct (p # xs)" "length (p # xs) < hm_limit"
    using inj live assms(3) by simp_all
  obtain k where k: "te_pos t1 \<le> k" "lucky r k" using assms(4) by (auto simp: fair_rand_def)
  have "\<exists>t'. repeatedly (set_string H p) t1 = Inr t' \<and> (\<exists>q. sready r a H (p # xs) q t')"
  proof (rule retry_returns [where P = "sready r a H (p # xs) q1" and k = k])
    fix t2 assume t2: "sready r a H (p # xs) q1 t2" "te_pos t2 \<le> k"
    show "\<exists>b t'. set_string H p t2 = Inr (b, t') \<and> (if b then \<exists>q. sready r a H (p # xs) q t'
        else sready r a H (p # xs) q1 t' \<and> te_pos t2 < te_pos t' \<and> te_pos t' \<le> k)"
      by (cases rule: set_string_cases [OF t2(1) again]) (use t2(2) k(2) in auto)
  qed (use t1(1) k in simp_all)
  with t1(2) show ?thesis by auto
qed

definition fresh_addr :: "(nat \<Rightarrow> u64 set \<Rightarrow> u64) \<Rightarrow> bool" where
  "fresh_addr addr \<longleftrightarrow> (\<forall>k U. card U < hm_limit \<longrightarrow> addr k U \<notin> U \<and> addr k U \<noteq> 0)"

lemma add_strings_returns:
  assumes "sready r a H xs q t" "texts H xs (length xs)" "length xs + d < hm_limit" "fair_rand r" "fresh_addr addr"
  shows "\<exists>H' t' xs' q'. add_strings addr [length xs..<length xs + d] (H, t) = Inr (H', t')
    \<and> sready r (a + int d) H' xs' q' t' \<and> texts H' xs' (length xs') \<and> length xs' = length xs + d"
  using assms(1-3)
proof (induction d arbitrary: a H xs q t)
  case (Suc d)
  let ?n = "length xs"
  obtain t1 where t1: "repeatedly (\<lambda>t. Inr (xmalloc t)) t = Inr (t1\<lparr>total_allocs := a + 1\<rparr>)" "moved t t1"
    using xmalloc_returns [of t] Suc.prems(1) assms(4) by (auto simp: sready_def)
  let ?t1 = "t1\<lparr>total_allocs := a + 1\<rparr>"
  define p where "p = addr (te_pos t1) (dom H)"
  let ?H = "H(p \<mapsto> s_text ?n @ [0])"
  have "dom H = set xs" "distinct xs" using Suc.prems(2) by (simp_all add: texts_def)
  moreover have "card (set xs) < hm_limit" using Suc.prems(3) card_length [of xs] by simp
  ultimately have p: "p \<notin> set xs" "p \<noteq> 0" using assms(5) by (auto simp: fresh_addr_def p_def)
  have "?n < 10 ^ 10" using Suc.prems(3) by (simp add: hm_limit_def)
  then have new: "new_string addr ?n (H, t) = Inr (p, ?H, ?t1)"
    using t1(1) s_text_fits [of ?n] by (simp add: new_string_def p_def Let_def)
  have H: "texts ?H (p # xs) (Suc ?n)" using texts_new [OF Suc.prems(2) p] by simp
  have "sready r a ?H xs q t1" using sready_extend [OF Suc.prems(1) p(1)] sready_moved [OF t1(2)] by blast
  then have "sready r (a + 1) ?H xs q ?t1" by (simp add: sready_def)
  then obtain t2 q2 where t2: "repeatedly (set_string ?H p) ?t1 = Inr t2" "sready r (a + 1) ?H (p # xs) q2 t2"
    using set_string_returns [OF _ H _ assms(4)] Suc.prems(3) by fastforce
  obtain H' t' xs' q' where "add_strings addr [length (p # xs)..<length (p # xs) + d] (?H, t2) = Inr (H', t')"
      and fin: "sready r (a + 1 + int d) H' xs' q' t'" "texts H' xs' (length xs')" "length xs' = length (p # xs) + d"
  proof -
    have "texts ?H (p # xs) (length (p # xs))" "length (p # xs) + d < hm_limit" using H Suc.prems(3) by simp_all
    from Suc.IH [OF t2(2) this] show thesis using that by blast
  qed
  moreover have "[?n..<?n + Suc d] = ?n # [length (p # xs)..<length (p # xs) + d]" by (subst upt_conv_Cons) simp_all
  ultimately have "add_strings addr [?n..<?n + Suc d] (H, t) = Inr (H', t')" using new t2(1) by (simp del: upt_Suc)
  moreover have "sready r (a + int (Suc d)) H' xs' q' t'" using fin(1) by (simp add: algebra_simps)
  ultimately show ?case using fin(2,3) by auto
qed auto

lemma free_strs_returns:
  assumes "distinct ys" "0 \<notin> set ys" "set ys \<subseteq> dom H"
  shows "free_strs (map u64to8_le ys) (H, t) = Inr (\<lambda>x. if x \<in> set ys then None else H x, t\<lparr>total_allocs := total_allocs t - int (length ys)\<rparr>)"
  using assms
proof (induction ys arbitrary: H t)
  case (Cons y ys)
  have "set ys \<subseteq> dom (H(y := None))" using Cons.prems by auto
  with Cons have "free_strs (map u64to8_le ys) (H(y := None), xfree t)
      = Inr (\<lambda>x. if x \<in> set ys then None else (H(y := None)) x, (xfree t)\<lparr>total_allocs := total_allocs (xfree t) - int (length ys)\<rparr>)" by simp
  moreover have "free_str (u64to8_le y) (H, t) = Inr (H(y := None), xfree t)"
    using Cons.prems by (auto simp: free_str_def u8to64_le_inverse)
  ultimately show ?case by (auto simp: xfree_def fun_eq_iff)
qed simp

text \<open>Freeing the elements frees every string.\<close>

lemma free_all:
  assumes "sready r a H xs q t" "texts H xs (length xs)"
  shows "free_strs (free_elements (te_map t)) (H, t) = Inr (Map.empty, t\<lparr>total_allocs := a - int (length xs)\<rparr>)"
proof -
  define ys where "ys = map u8to64_le (item_list (te_map t))"
  have m: "hm_items (te_map t) = mset (map u64to8_le xs)" "hm_elfree (te_map t)" "total_allocs t = a" using assms(1) by (simp_all add: sready_def)
  have "free_elements (te_map t) = item_list (te_map t)" using m(2) by (simp add: free_elements_def item_list_def)
  also have "\<dots> = map u64to8_le ys"
    unfolding ys_def map_map by (rule map_idI [symmetric]) (use m(1) in \<open>auto simp: u8to64_le_inverse\<close>)
  finally have items: "free_elements (te_map t) = map u64to8_le ys" .
  have "mset ys = image_mset u8to64_le (hm_items (te_map t))" by (simp add: ys_def)
  then have ys: "mset ys = mset xs" by (simp add: m(1) image_mset.compositionality comp_def u8to64_le_inverse)
  have *: "distinct ys" "set ys = dom H" "length ys = length xs" "0 \<notin> set ys"
    using assms(2) mset_eq_imp_distinct_iff [OF ys] mset_eq_setD [OF ys] mset_eq_length [OF ys] by (auto simp: texts_def)
  have "(\<lambda>x. if x \<in> set ys then None else H x) = Map.empty" using *(2) by (auto simp: fun_eq_iff domIff)
  with free_strs_returns [OF *(1,4), of H t] * m(3) show ?thesis by (simp add: items)
qed

text \<open>Clearing does not call the other callbacks.\<close>

lemma t_clear_mem: "t_clear u (at_mem H t) = rbind (t_clear u t) (\<lambda>t. Inr (at_mem H t))"
proof -
  have h: "hashmap_clear ok (with_mem H m) u = rbind (hashmap_clear ok m u) (\<lambda>(m, f). Inr (with_mem H m, f))" for ok m
    by (cases u; cases ok; cases "hm_nbuckets m = hm_cap m")
      (auto simp: hashmap_clear_def with_mem_def free_elements_def Let_def rbind_def split: sum.splits)
  let ?alloc = "\<lambda>t. if \<not> u \<and> hm_nbuckets (te_map t) \<noteq> hm_cap (te_map t) then let (a, t) = xmalloc t in (a, if a then xfree t else t) else (True, t)"
  obtain ok t1 where 1: "?alloc t = (ok, t1)" by (cases "?alloc t")
  have x: "xmalloc (at_mem H t) = (let (b, t) = xmalloc t in (b, at_mem H t))"
    by (simp add: xmalloc_def rand_def Let_def)
  have "?alloc (at_mem H t) = (ok, at_mem H t1)"
    unfolding x using 1 by (cases "xmalloc t") (auto simp: with_mem_def xfree_def split: if_splits)
  then show ?thesis
    unfolding t_clear_def Let_def [of "te_map _"] 1 by (simp add: h rbind_def split: sum.splits)
qed

lemma clear_strs_returns:
  assumes "sready r a H xs q t" "texts H xs (length xs)"
  shows "\<exists>t' q'. clear_strs (H, t) = Inr (Map.empty, t') \<and> sready r (a - int (length xs)) Map.empty [] q' t'"
proof -
  let ?t = "t\<lparr>total_allocs := a - int (length xs)\<rparr>"
  have inv: "hm_inv (str_eq H) (te_map (at_mem H ?t))" using assms(1) by (auto simp: hm_inv_def sready_def)
  obtain t1 m' where 1: "t_clear False (at_mem H ?t) = Inr (t1\<lparr>te_map := m'\<rparr>)" "moved (at_mem H ?t) t1"
      "hashmap_clear_to (str_eq H) False (te_map (at_mem H ?t)) m'"
    using t_clear_map [OF inv] by blast
  have "rbind (t_clear False ?t) (\<lambda>t. Inr (at_mem H t)) = Inr (t1\<lparr>te_map := m'\<rparr>)" using 1(1) unfolding t_clear_mem .
  then obtain t2 where t2: "t_clear False ?t = Inr t2" "at_mem H t2 = t1\<lparr>te_map := m'\<rparr>"
    by (cases "t_clear False ?t") auto
  have m': "te_map (at_mem H t2) = m'" "te_rand (at_mem H t2) = te_rand t1" "total_allocs (at_mem H t2) = total_allocs t1"
    unfolding t2(2) by simp_all
  obtain q' where q': "hm_shape (with_mem H (te_map t2)) q'" "hm_data (str_eq H) (with_mem H (te_map t2))"
      "hm_items (with_mem H (te_map t2)) = {#}" "hm_elfree (with_mem H (te_map t2))"
  proof -
    have w: "with_mem H (te_map t2) = m'" using m'(1) by simp
    have "hm_inv (str_eq H) m'" "hm_items m' = {#}" "hm_elfree m'" using 1(3) assms(1) by (simp_all add: hashmap_clear_to_def sready_def)
    then show thesis unfolding hm_inv_def using that unfolding w by blast
  qed
  have "hm_data (str_eq Map.empty) (with_mem Map.empty (te_map t2))" by (rule hm_data_mem [OF q'(2)]) (use q'(3) in simp)
  then have "sready r (a - int (length xs)) Map.empty [] q' t2"
    using q' m'(2,3) moved_fields [OF 1(2)] assms(1) by (simp add: sready_def)
  with free_all [OF assms] t2(1) show ?thesis by (auto simp: clear_strs_def)
qed

section \<open>The test program\<close>

lemma test_strings_returns:
  assumes "fair_rand (te_rand t)" "fresh_addr addr" "n < hm_limit"
  shows "\<exists>t'. test_strings addr seed n t = Inr t' \<and> total_allocs t' = total_allocs t"
proof -
  let ?a = "total_allocs t" and ?r = "te_rand t" and ?new = "hashmap_new (True, True) 8 0 seed seed (hash_str Map.empty) (compare_strs Map.empty) True"
  obtain m where m: "?new = Inr (Some m)" "hm_inv (str_eq Map.empty) m" "hm_items m = {#}"
    using hashmap_new_inv [OF compare_strs_decides str_eq_equivp, of 0 8 seed seed "hash_str Map.empty" Map.empty True] by auto
  then have mem: "with_mem Map.empty m = m" "hm_elfree m"
    by (auto simp: hashmap_new_def hashmap_new_with_allocator_def with_mem_def rbind_Inr_iff split: if_splits)
  obtain t1 where t1: "repeatedly (new_map 8 0 seed (hash_str Map.empty) (compare_strs Map.empty) True) t
      = Inr (t1\<lparr>total_allocs := ?a + 2, te_map := m\<rparr>)" "moved t t1"
    using new_map_returns [OF assms(1) m(1)] by blast
  let ?t1 = "t1\<lparr>total_allocs := ?a + 2, te_map := m\<rparr>"
  obtain q1 where r1: "sready ?r (?a + 2) Map.empty [] q1 ?t1"
    using m(2,3) mem moved_fields [OF t1(2)] by (auto simp: sready_def hm_inv_def)
  have e: "texts Map.empty [] (length [])" by (simp add: texts_def)
  have add: "\<exists>H' t' xs' q'. add_strings addr [0..<n] (Map.empty, t0) = Inr (H', t')
      \<and> sready ?r (?a + 2 + int n) H' xs' q' t' \<and> texts H' xs' (length xs') \<and> length xs' = n"
    if "sready ?r (?a + 2) Map.empty [] q0 t0" for q0 t0
    using add_strings_returns [OF that e _ assms(1,2), of n] assms(3) by simp
  obtain H2 t2 xs2 q2 where 2: "add_strings addr [0..<n] (Map.empty, ?t1) = Inr (H2, t2)" "sready ?r (?a + 2 + int n) H2 xs2 q2 t2"
      "texts H2 xs2 (length xs2)" "length xs2 = n"
    using add [OF r1] by blast
  obtain t3 q3 where 3: "clear_strs (H2, t2) = Inr (Map.empty, t3)" "sready ?r (?a + 2) Map.empty [] q3 t3"
    using clear_strs_returns [OF 2(2,3)] 2(4) by auto
  have "unat (hm_count (te_map t3)) = size (hm_items (te_map t3))"
    using 3(2) by (simp add: sready_def hm_data_def) (simp add: hm_items_def with_mem_def)
  then have count: "hashmap_count (te_map t3) = 0" using 3(2) by (simp add: sready_def hashmap_count_def unat_eq_zero)
  obtain H4 t4 xs4 q4 where 4: "add_strings addr [0..<n] (Map.empty, t3) = Inr (H4, t4)" "sready ?r (?a + 2 + int n) H4 xs4 q4 t4"
      "texts H4 xs4 (length xs4)" "length xs4 = n"
    using add [OF 3(2)] by blast
  have "drop_strs (H4, t4) = Inr (Map.empty, t_free (t4\<lparr>total_allocs := ?a + 2\<rparr>))"
    using free_all [OF 4(2,3)] 4(4) by (simp add: drop_strs_def)
  then show ?thesis
    using t1(1) 2(1) 3(1) count 4(1) by (simp add: test_strings_def c_assert_def t_free_def xfree_def)
qed

text \<open>C18: the test program of the hash map tests what it means to test: for every seed, every order of the integers, whatever
  allocations fail and whatever fresh addresses \<open>malloc\<close> returns, every assertion on the maps of \<open>n\<close> integers and of \<open>n\<close> strings
  holds, no freed string is read, and every allocation is freed, from 13 integers on; with
  fewer than 12 the table never grows, and the assertion that \<open>hashmap_clear(map, true)\<close> has raised the capacity fails.\<close>

theorem hashmap_tests_pass:
  assumes "fair_rand (te_rand t)" "fresh_addr addr" "0 < n" "n < hm_limit" "n \<noteq> 12" "total_allocs t = 0"
  shows "if n < 12 then hashmap_main False addr seed n t = Inl (Panic ''prev_cap < map->cap'')
    else \<exists>t'. hashmap_main False addr seed n t = Inr t' \<and> total_allocs t' = 0"
proof (cases "n < 12")
  case True
  then show ?thesis using test_ints_returns(1) [OF assms(1,3,4)] by (simp add: hashmap_main_def test_all_def)
next
  case False
  then obtain t1 where t1: "test_ints seed n t = Inr t1" "total_allocs t1 = 0" "te_rand t1 = te_rand t"
    using test_ints_returns(2) [OF assms(1,3,4)] assms(5,6) by auto
  then obtain t2 where "test_strings addr seed n t1 = Inr t2" "total_allocs t2 = 0"
    using test_strings_returns [of t1 addr n seed] assms(1,2,4) by auto
  with t1 False show ?thesis by (simp add: hashmap_main_def test_all_def)
qed

text \<open>The least address that is free.\<close>

lemma least_addr_fresh: "fresh_addr (\<lambda>k U. Min (- insert 0 U))"
  unfolding fresh_addr_def
proof (intro allI impI)
  fix U :: "u64 set" assume "card U < hm_limit"
  then have "card (insert 0 U) < CARD(u64)" using card_insert_le_m1 [of "Suc (card U)" U 0] by (simp add: card_word hm_limit_def card_insert_if)
  then have "insert 0 U \<noteq> UNIV" by auto
  then have "Min (- insert 0 U) \<in> - insert 0 U" by (intro Min_in) auto
  then show "Min (- insert 0 U) \<notin> U \<and> Min (- insert 0 U) \<noteq> 0" by auto
qed

theorem hashmap_tests_pass_witness:
  "\<exists>t'. hashmap_main False (\<lambda>k U. Min (- insert 0 U)) 1 2000 start_tests = Inr t' \<and> total_allocs t' = 0"
  using hashmap_tests_pass [OF start_tests_fair least_addr_fresh, of 2000 1] by (simp add: hm_limit_def start_tests_def)

end
