(* ===== verification/Spec2Isabelle.thy ===== *)
theory Spec2Isabelle
  imports System_Runs Fine_Steps Hashmap_Tests_Strings
begin

text \<open>
  Verification of the online memory-tiering scheduler: a process that watches the large allocations of an
  application, measures how hot they are, and moves them between DRAM and persistent memory.

  \<^bold>\<open>The program and its model.\<close> The scheduler process (\<open>start_threads.c\<close>) owns the table of allocations
  \<open>g_tier_manager\<close> and runs three threads on it. The interception thread (\<open>intercept_mmap.c\<close>) reads \<open>mmap\<close> and
  \<open>munmap\<close> events of the application and calls the recorder (\<open>recorder.c\<close>), which enters and clears the chunks of an
  allocation. The monitor (\<open>monitor.c\<close>) counts memory samples per object, with a hash map (\<open>hashmap.c\<close>) of the store
  addresses already seen. The actuator (\<open>actuator.c\<close>) ranks the objects and writes migration requests to
  \<open>migration.pipe\<close>. A library in the application (\<open>preload.c\<close>) executes the requests with \<open>mbind\<close>. A further thread
  (\<open>track_mapping.c\<close>, not started by \<open>main\<close>) logs where the pages are.

  The state is a chain of extensible records, one extension per component: \<open>world\<close> (table, pipe, clock readings),
  \<open>recorder\<close>, \<open>intercept\<close>, \<open>monitor\<close>, \<open>actuator\<close>, \<open>scheduler\<close>; the preload library and the tracker have their own
  records. Every C function is a function on that state with a result in \<open>cerr + 'a\<close>: \<open>exit\<close>, a panic, an access outside
  an array, a null pointer followed, freed memory used, an indeterminate value read or a loop that does not end are values of \<open>cerr\<close>.
  Machine integers are words; \<open>double\<close> and \<open>float\<close> are rational values with IEEE rounding after every operation. What
  comes from outside (perf records, clock, \<open>numastat\<close>, \<open>numa_move_pages\<close>, \<open>mbind\<close>, success of allocations, the
  environment, \<open>qsort\<close>, the contents of uninitialised variables) is an argument.

  \<^bold>\<open>Theories.\<close>
  \<^item> \<open>Sched_Prelude\<close>: C types, errors, generic lemmas. \<open>C_Float\<close>: floating point and the locale \<open>rounding\<close>, interpreted
    for both formats, with interval lemmas for sums, products and quotients.
  \<^item> \<open>Hash_Funs\<close>, \<open>Hashmap\<close>: SipHash, MurmurHash and the operations of \<open>hashmap.c\<close>. \<open>Hashmap_Table\<close>,
    \<open>Hashmap_Correct\<close>, \<open>Hashmap_Map\<close>: the Robin Hood table invariant, that every operation keeps it, and that the map
    refines a finite map (locale \<open>keyed_store\<close>). \<open>Hashmap_Tests\<close>, \<open>Hashmap_Tests_Ops\<close>, \<open>Hashmap_Tests_Correct\<close>,
    \<open>Hashmap_Tests_Strings\<close>: the test program and the benchmarks at the end of the file, and that their assertions hold; the
    part on strings has a heap, which the hash and compare functions read.
  \<^item> \<open>Recorder\<close>, \<open>Recorder_Correct\<close>: the table; insertion and deallocation of chunks through the locale \<open>slot_table\<close>.
  \<^item> \<open>Perf_Events\<close>: the set-up of perf events by two of the threads, and what they hold when it fails.
  \<^item> \<open>Intercept\<close>: the interception thread; slots are never reused, and draining a buffer returns.
  \<^item> \<open>Monitor\<close>, \<open>Monitor_Correct\<close>: sample decoding, counting and smoothing of the metrics. \<open>Monitor_Bounds\<close>: the metrics stay
    in a range in which the sums and quotients of the actuator are finite.
  \<^item> \<open>Actuator\<close>, then \<open>Actuator_Policy\<close> (which requests the policies write), \<open>Actuator_Rank\<close> (the ranking, with \<open>qsort\<close> as
    the locale \<open>sorter\<close>), \<open>Actuator_Correct\<close> (page status, the invariant of a turn, sequences of turns) and
    \<open>Actuator_Frame\<close> (the locale \<open>actuator_relation\<close>: a relation that every single change respects relates the states
    before and after a turn).
  \<^item> \<open>Preload\<close>, \<open>Preload_Correct\<close>: execution of requests, error reports, one thread per machine.
  \<^item> \<open>Track_Mapping\<close>, \<open>Track_Correct\<close>: the lines of the mapping log.
  \<^item> \<open>Start_Threads\<close>: start-up, the stop signal, and the programs \<open>lock_memory.c\<close> and \<open>libsyscall_intercept.c\<close>.
  \<^item> \<open>System\<close>: the threads together as a step relation, with an invariant by rule induction. \<open>System_Runs\<close>: the same steps as an
    executable function of the events, equivalent to the relation, with the conditions under which every step succeeds, and
    the whole of \<open>main\<close>. \<open>Fine_Steps\<close>: the insertions cut into pieces between which the other threads run; the atomic steps are
    runs of the pieces, the invariant holds between them, and no request names an object that is not yet counted. The consequences and the other properties that span components are in this theory.

  \<^bold>\<open>Loops.\<close> Loops over arrays are functions with a measure bounded by \<open>MAX_OBJECTS\<close>; the probe loops of the hash map are
  \<^theory_text>\<open>partial_function (option)\<close> and are proved to return under the map invariant. The endless loops of the threads
  are functions of the list of events or turns that they process, so statements hold for any number of them; in
  \<open>scheduler_main\<close>, running out of events while a loop is still on is the error \<open>Diverges\<close>. The waiting loops of the tests are proved to end when the random numbers are fair.

  \<^bold>\<open>Bounds.\<close> The hash map theorems hold up to \<open>hm_limit\<close> (24576) items, for which the 16-bit probe distance of a bucket cannot
  overflow; sample counters are exact below \<open>2 ^ 53\<close>, page counters below \<open>2 ^ 24\<close>, the range of exact
  integers of their formats.

  \<^bold>\<open>Not modelled.\<close> The bodies of library calls (libperf, libpfm, libnuma: their results are arguments), the installation of
  signal handlers, printing, file and process handling around the data, shell scripts and plots. The code has no locks. Only the interception thread is interrupted inside a record (between chunks, and at the two readings
  of the clock in \<open>_insert_object\<close>, each of which starts a process and waits for it); a period of the monitor, a turn of the actuator and a request
  of the library are atomic, and so are the assignments between two of these points, with memory written in program order. The sign of a floating-point zero is not represented.
\<close>

section \<open>Properties that span components\<close>

text \<open>The scheduler process at start, before \<open>main\<close>; used in examples.\<close>

definition start_scheduler :: scheduler where
  "start_scheduler = actuator.extend start_actuator \<lparr>g_running_intercept = 1, g_running_actuator = 1, g_running_monitor = 1,
     g_actuator_interval = Fin 0, g_monitor_interval = Fin 0, g_sample_freq = 0\<rparr>"

definition all_set :: "string \<Rightarrow> string option" where
  "all_set _ = Some ''1''"

definition scan_one :: scan where
  "scan_one = \<lparr>scan_f = \<lambda>_. Some (Fin 1), scan_d = \<lambda>_. Some 1\<rparr>"

definition calm_sys :: sys_env where
  "calm_sys = \<lparr>e_act = calm_env, e_pm = linux_perf_mem, e_qs = isort_by, e_pre = calm_penv\<rparr>"

lemma start_scheduler_simps [simp]:
  "rec_index start_scheduler = 0" "migration_pipe start_scheduler = []" "rec_pipe_fd start_scheduler = 5"
  "tm start_scheduler = initialize_recorder zero_tier_manager"
  by (simp_all add: start_scheduler_def actuator.defs start_actuator_def monitor.defs start_monitor_def intercept.defs start_intercept_def
      recorder.defs start_recorder_def)

lemma start_scheduler_inv: "rec_inv start_scheduler"
  using rec_inv_init [of start_scheduler zero_tier_manager] by (simp add: rec_inv_def)

text \<open>C5: from the state in which \<open>main\<close> has started the threads, with their pipes opened and the store map created, in every
  interleaving of steps of the interception, monitor and actuator threads, the mbind thread and the stop signal,
  the table stays well formed, and every call of \<open>mbind\<close>, like every message still in the pipe, is one of the
  three kinds of request and names a recorded object with exactly its address and size.\<close>

theorem mbind_calls_well_formed:
  assumes "start_main scn getenv sig reading s = Inr (0, s0)" "rec_index s = 0" "mbind_calls p = []"
    "sys_run env \<lparr>y_sched = (actuator_open_pipes w r (recorder_open_pipes fd s0))\<lparr>store_map := h\<rparr>, y_count = 2, y_pre = p\<rparr> y"
  shows "rec_inv (y_sched y) \<and> (\<forall>d \<in> set (mbind_calls (y_pre y)) \<union> set (migration_pipe (y_sched y)). msg_ok (y_sched y) d)"
proof -
  have "rec_inv s0" "migration_pipe s0 = []" using start_main_inv [OF assms(1,2)] by simp_all
  then have "sys_inv \<lparr>y_sched = (actuator_open_pipes w r (recorder_open_pipes fd s0))\<lparr>store_map := h\<rparr>, y_count = 2, y_pre = p\<rparr>"
    using assms(3) by (simp add: sys_inv_def actuator_open_pipes_def recorder_open_pipes_def rec_inv_def)
  then have inv: "sys_inv y" by (rule sys_run_inv [OF assms(4)])
  with sys_inv_calls [OF inv] show ?thesis by (auto simp: sys_inv_def)
qed

theorem mbind_calls_well_formed_witness:
  "\<exists>s0 y. start_main scan_one all_set 0 (Some (Some (Fin 20000))) start_scheduler = Inr (0, s0)
     \<and> sys_run calm_sys \<lparr>y_sched = (actuator_open_pipes 5 6 (recorder_open_pipes 4 s0))\<lparr>store_map := None\<rparr>, y_count = 2, y_pre = start_preload\<rparr> y
     \<and> g_running_actuator (y_sched y) = 0 \<and> rec_inv (y_sched y)"
proof -
  obtain s0 where s0: "start_main scan_one all_set 0 (Some (Some (Fin 20000))) start_scheduler = Inr (0, s0)"
    by (simp add: start_main_def read_enviroment_variables_def all_set_def sscanf_def scan_one_def set_current_free_dram_def Let_def)
  let ?y = "\<lparr>y_sched = (actuator_open_pipes 5 6 (recorder_open_pipes 4 s0))\<lparr>store_map := None\<rparr>, y_count = 2, y_pre = start_preload\<rparr>"
  have run: "sys_run calm_sys ?y (?y\<lparr>y_sched := close_start_threads (y_sched ?y)\<rparr>)"
    by (rule sys_run.Step [OF sys_run.Start sys_step.Signal])
  have "rec_inv (close_start_threads (y_sched ?y))"
    using mbind_calls_well_formed [OF s0 _ _ run] by (simp add: start_preload_def)
  with s0 run show ?thesis
    by (intro exI [of _ s0] exI [of _ "?y\<lparr>y_sched := close_start_threads (y_sched ?y)\<rparr>"]) (simp add: close_start_threads_def)
qed

text \<open>C6: the same guarantee when the other threads run inside an insertion: the interception thread is cut into the fetching
  of a record, the calls for its chunks and, inside \<open>_insert_object\<close>, the points where the object is live but not yet counted
  and counted but not yet announced. In every interleaving of these pieces with the other threads the table, with the pending
  object counted, stays well formed, every request written or executed names an object that has been entered, with
  exactly its address and size, and none names an object that is not yet counted, although it is already live. Every run of
  atomic steps is such a run (\<open>sys_run_fine\<close>).\<close>

theorem interrupted_insertions_safe:
  assumes "start_main scn getenv sig reading s = Inr (0, s0)" "rec_index s = 0" "mbind_calls p = []"
    "\<forall>k j. o_page_status (obj_vector (tm s) k) j = Fin 0"
    "fine_run env (at_rest \<lparr>y_sched = (actuator_open_pipes w r (recorder_open_pipes fd s0))\<lparr>store_map := h\<rparr>, y_count = 2, y_pre = p\<rparr>) f"
  shows "rec_inv (settle (f_pc f) (y_sched (f_sys f)))
    \<and> (\<forall>d \<in> set (mbind_calls (y_pre (f_sys f))) \<union> set (migration_pipe (y_sched (f_sys f))).
         msg_ok (settle (f_pc f) (y_sched (f_sys f))) d \<and> d_obj_index d < total_obj (tm (y_sched (f_sys f))))"
proof -
  let ?y = "\<lparr>y_sched = (actuator_open_pipes w r (recorder_open_pipes fd s0))\<lparr>store_map := h\<rparr>, y_count = 2, y_pre = p\<rparr>"
  have s0: "rec_inv s0" "migration_pipe s0 = []" "blank (tm s0)"
    using start_main_inv [OF assms(1,2)] start_main_blank [OF assms(1,4)] by simp_all
  then have "sys_inv ?y" "counted_only (y_sched ?y)"
    using assms(3) by (simp_all add: sys_inv_def counted_only_def actuator_open_pipes_def recorder_open_pipes_def rec_inv_def)
  then have inv: "fine_inv f" using fine_run_inv [OF assms(5)] fine_inv_rest by blast
  with fine_inv_calls [OF inv] show ?thesis by (auto simp: fine_inv_def sys_inv_def counted_only_def)
qed

text \<open>An allocation of two megabytes, interrupted by the stop signal when its object has just been made live.\<close>

theorem interrupted_insertions_safe_witness:
  "\<exists>s0 f. start_main scan_one all_set 0 (Some (Some (Fin 20000))) start_scheduler = Inr (0, s0)
     \<and> fine_run calm_sys (at_rest \<lparr>y_sched = (actuator_open_pipes 5 6 (recorder_open_pipes 4 s0))\<lparr>store_map := None\<rparr>, y_count = 2, y_pre = start_preload\<rparr>) f
     \<and> f_pc f = Filled 4096 2000000 \<and> g_running_actuator (y_sched (f_sys f)) = 0
     \<and> total_obj (tm (y_sched (f_sys f))) = 0 \<and> rec_inv (settle (f_pc f) (y_sched (f_sys f)))"
proof -
  obtain s0 where s0: "start_main scan_one all_set 0 (Some (Some (Fin 20000))) start_scheduler = Inr (0, s0)"
      "sys_enter_mmap_id s0 = 101" "sys_exit_mmap_id s0 = 100" "app_pid s0 = 7" "g_running_intercept s0 = 1"
      "rec_index s0 = 0" "total_obj (tm s0) = 0" "obj_alloc (tm s0) 0 = 0"
    by (simp add: start_main_def read_enviroment_variables_def all_set_def sscanf_def scan_one_def set_current_free_dram_def Let_def
        start_threads_open_pipes_def initialize_recorder_def start_scheduler_def actuator.defs start_actuator_def monitor.defs start_monitor_def
        intercept.defs start_intercept_def recorder.defs start_recorder_def)
  let ?s = "(actuator_open_pipes 5 6 (recorder_open_pipes 4 s0))\<lparr>store_map := None\<rparr>"
  let ?f = "\<lambda>s p ops. \<lparr>f_sys = \<lparr>y_sched = s, y_count = 2, y_pre = start_preload\<rparr>, f_pc = p, f_ops = ops\<rparr>"
  let ?e = "mk_sample 7 101 0 2000000" and ?x = "mk_sample 7 100 4096 0"
  let ?s1 = "?s\<lparr>enter_args := Some (as_mmap_enter ?e)\<rparr>"
  have "event_ops (Sample ?e) ?s = Inr (?s1, [])"
    using s0 by (simp add: event_ops_def sample_ops_def mk_sample_def Let_def actuator_open_pipes_def recorder_open_pipes_def)
  then have 1: "fine_step calm_sys (?f ?s Idle []) (?f ?s1 Idle [])"
    using Fetch [of "?f ?s Idle []" "Sample ?e" ?s1 "[]" calm_sys] s0(5) by (simp add: actuator_open_pipes_def recorder_open_pipes_def)
  have "event_ops (Sample ?x) ?s1 = Inr (?s1, [Ins 7 4096 2000000 0])"
    using s0 by (simp add: event_ops_def sample_ops_def mk_sample_def Let_def as_mmap_enter_def as_mmap_exit_def chunk_ops_def for_chunks_def
        actuator_open_pipes_def recorder_open_pipes_def)
  then have 2: "fine_step calm_sys (?f ?s1 Idle []) (?f ?s1 Idle [Ins 7 4096 2000000 0])"
    using Fetch [of "?f ?s1 Idle []" "Sample ?x" ?s1 "[Ins 7 4096 2000000 0]" calm_sys] s0(5)
    by (simp add: actuator_open_pipes_def recorder_open_pipes_def)
  obtain s2 where s2: "insert_fill (pagesize (e_act calm_sys)) 7 4096 2000000 0 ?s1 = Inr s2" "total_obj (tm s2) = 0"
    using s0 by (simp add: insert_fill_def find_slot.simps Let_def actuator_open_pipes_def recorder_open_pipes_def)
  have 3: "fine_step calm_sys (?f ?s1 Idle [Ins 7 4096 2000000 0]) (?f s2 (Filled 4096 2000000) [])"
    using Fill [of "?f ?s1 Idle [Ins 7 4096 2000000 0]" 7 4096 2000000 0 "[]" calm_sys s2] s2 by simp
  have 4: "fine_step calm_sys (?f s2 (Filled 4096 2000000) []) (?f (close_start_threads s2) (Filled 4096 2000000) [])"
    using step_Other [OF Other_Signal, of calm_sys "\<lparr>y_sched = s2, y_count = 2, y_pre = start_preload\<rparr>"] by simp
  have run: "fine_run calm_sys (?f ?s Idle []) (?f (close_start_threads s2) (Filled 4096 2000000) [])"
    using 1 2 3 4 by (meson converse_rtranclp_into_rtranclp rtranclp.rtrancl_refl)
  have "rec_inv (settle (Filled 4096 2000000) (close_start_threads s2))"
    using interrupted_insertions_safe [OF s0(1) _ _ _ run]
    by (simp add: start_preload_def initialize_recorder_def zero_tier_manager_def zero_object_def initialize_object_def)
  with s0(1) s2(2) run show ?thesis
    by (intro exI [of _ s0] exI [of _ "?f (close_start_threads s2) (Filled 4096 2000000) []"]) (simp add: close_start_threads_def)
qed

text \<open>C9: the system can always be stopped: from every state of the invariant the signal and then the serving of the pending
  messages lead to a state in which all requests ever written have been executed and no step changes anything any
  more, provided the calls of the library succeed.\<close>

theorem shutdown_drains:
  assumes "sys_inv y" "penv_ok (e_pre env)" "p_write_fd (y_pre y) \<noteq> - 1" "p_log_open (y_pre y)"
  shows "\<exists>y'. sys_run env y y' \<and> mbind_calls (y_pre y') = migration_pipe (y_sched y)
    \<and> y_sched y' = close_start_threads (y_sched y) \<and> (\<forall>y''. sys_step env y' y'' \<longrightarrow> y'' = y')"
proof -
  let ?y = "y\<lparr>y_sched := close_start_threads (y_sched y)\<rparr>"
  have step: "sys_step env y ?y" by (rule sys_step.Signal)
  have "sys_inv ?y" using sys_step_inv [OF step assms(1)] .
  then obtain p' where p': "sys_run env ?y (?y\<lparr>y_pre := p'\<rparr>)" "mbind_calls p' = migration_pipe (y_sched ?y)"
    using serve_all [of ?y env] assms by auto
  have idem: "close_start_threads (close_start_threads s) = close_start_threads s" for s :: scheduler
    by (simp add: close_start_threads_def)
  have "y'' = ?y\<lparr>y_pre := p'\<rparr>" if "sys_step env (?y\<lparr>y_pre := p'\<rparr>) y''" for y''
    using that p'(2) by (cases rule: sys_stepE) (simp_all add: idem, simp_all add: close_start_threads_def)
  moreover have "migration_pipe (y_sched ?y) = migration_pipe (y_sched y)" by (simp add: close_start_threads_def)
  ultimately show ?thesis
    using p' sys_run_trans [OF p'(1) sys_run.Step [OF sys_run.Start step]] by (intro exI [of _ "?y\<lparr>y_pre := p'\<rparr>"]) simp
qed

theorem shutdown_drains_witness:
  "\<exists>y'. sys_run calm_sys \<lparr>y_sched = start_scheduler, y_count = 2, y_pre = start_preload\<rparr> y' \<and> mbind_calls (y_pre y') = []"
proof -
  have "sys_inv \<lparr>y_sched = start_scheduler, y_count = 2, y_pre = start_preload\<rparr>"
    using start_scheduler_inv by (simp add: sys_inv_def start_preload_def)
  then show ?thesis
    using shutdown_drains [of "\<lparr>y_sched = start_scheduler, y_count = 2, y_pre = start_preload\<rparr>" calm_sys] calm_penv_ok
    by (auto simp: calm_sys_def start_preload_def)
qed

text \<open>C10: recording an allocation makes the application bind it: the messages that \<open>insert_object\<close> writes, read by the mbind
  thread, give one call of \<open>mbind\<close> for each chunk of the allocation, in order, for the DRAM node.\<close>

theorem allocation_is_bound:
  assumes "rec_inv s" "rec_index s + length (chunk_list a sz) \<le> MAX_OBJECTS" "rec_pipe_fd s \<noteq> - 1"
    "penv_ok env" "p_write_fd p \<noteq> - 1" "p_log_open p"
  shows "\<exists>s' p'. insert_object (\<lambda>n. Some (c n)) psz pid a sz s = Inr s'
    \<and> mbind_loop env (map Read_msg (drop (length (migration_pipe s)) (migration_pipe s'))) p = Inr p'
    \<and> map (\<lambda>d. (d_start_addr d, d_size d, d_nodemask_target_node d)) (drop (length (mbind_calls p)) (mbind_calls p'))
      = map (\<lambda>(b, z, sl). (b, z, 1)) (chunk_list a sz)"
proof -
  have fit: "chunkable sz" using assms(2) by (intro chunks_fit [of a]) simp
  obtain s' where s': "each (add1 c psz pid) (chunk_list a sz) s = Inr s'" using rec.add_all [OF assms(1,2)] by blast
  have pipe: "migration_pipe s' = migration_pipe s @ placement_msgs (rec_index s) (chunk_list a sz)"
    by (rule add_all_msgs [OF assms(1-3) s'])
  obtain p' where p': "mbind_loop env (map Read_msg (placement_msgs (rec_index s) (chunk_list a sz))) p = Inr p'"
      "mbind_calls p' = mbind_calls p @ placement_msgs (rec_index s) (chunk_list a sz)"
    using mbind_loop_serves [OF assms(4-6), of "map Read_msg (placement_msgs (rec_index s) (chunk_list a sz))"] by (auto simp: serves_def)
  have "map (\<lambda>d. (d_start_addr d, d_size d, d_nodemask_target_node d)) (placement_msgs k xs) = map (\<lambda>(b, z, sl). (b, z, 1)) xs" for k xs
    by (induction xs arbitrary: k) (auto simp: placement_msgs_def)
  with s' p' pipe show ?thesis
    by (intro exI [of _ s'] exI [of _ p']) (simp add: insert_object_each [OF fit])
qed

theorem allocation_is_bound_witness:
  "\<exists>s' p'. insert_object (\<lambda>n. Some (Fin 0)) 4096 7 4096 2500000000 start_recorder = Inr s'
     \<and> mbind_loop calm_penv (map Read_msg (migration_pipe s')) start_preload = Inr p'
     \<and> map (\<lambda>d. (d_start_addr d, d_size d, d_nodemask_target_node d)) (mbind_calls p')
       = [(4096, 1000001536, 1), (1000005632, 1000001536, 1), (2000007168, 499996928, 1)]"
  using allocation_is_bound [OF start_recorder_inv, of 4096 2500000000 calm_penv start_preload "\<lambda>_. Fin 0" 4096 7] calm_penv_ok
  by (auto simp: chunks_2_5 start_recorder_def start_preload_def)



text \<open>What the theorems on whole runs assume of the surroundings: the descriptors \<open>fds\<close> of the actuator's pipes, the number of
  nodes, the library \<open>p\<close>, the first record \<open>en\<close> and the further events \<open>evs\<close>, for which the tables have room.\<close>

definition good_run :: "sys_env \<Rightarrow> int \<times> int \<Rightarrow> int \<times> int \<Rightarrow> preload \<Rightarrow> scheduler \<Rightarrow> nat \<Rightarrow> sample \<Rightarrow> sys_event list \<Rightarrow> bool" where
  "good_run env fds numa p s k en evs \<longleftrightarrow> fst fds \<noteq> - 1 \<and> snd numa < 3 \<and> sys_env_ok env
     \<and> mbind_calls p = [] \<and> p_write_fd p \<noteq> - 1 \<and> p_log_open p
     \<and> uint (sm_type en) = sys_enter_mmap_id s \<and> length (chunk_list 0 (sm_word en 1)) \<le> k
     \<and> list_all (good_sys_event k (e_pm env)) evs \<and> sum_list (map (slots_of k) evs) \<le> MAX_OBJECTS
     \<and> sum_list (map (stores_of_event (e_pm env)) evs) \<le> hm_limit"

lemma run_from_start:
  assumes "loops_ready s" "good_run env fds numa p s k en evs"
  shows "\<exists>y. sys_execs env (Record (Sample en) # evs) \<lparr>y_sched = s, y_count = 2, y_pre = p\<rparr> = Inr y
    \<and> run_ok k (sum_list (map (stores_of_event (e_pm env)) evs)) y"
proof -
  obtain y1 where y1: "sys_exec env (Record (Sample en)) \<lparr>y_sched = s, y_count = 2, y_pre = p\<rparr> = Inr y1" "run_ok k 0 y1"
      "rec_index (y_sched y1) = 0"
    using first_record [OF assms(1), of p en k env] assms(2) by (auto simp: good_run_def)
  have "\<exists>y. sys_execs env evs y1 = Inr y \<and> run_ok k (0 + sum_list (map (stores_of_event (e_pm env)) evs)) y"
    using assms(2) y1(3) by (intro execs_total [OF _ y1(2)]) (simp_all add: good_run_def)
  with y1(1) show ?thesis by auto
qed


text \<open>The events of an allocation that is sampled, ranked, bound and freed.\<close>

definition sample_events :: "sys_event list" where
  "sample_events = [Record (Sample (mk_sample 7 100 8192 0)), Period [None, Some [dram_load 8200, store_event 8192]], Turn 0,
     Serve_next, Record (Sample (mk_sample 7 576 8192 2000000)), Close]"

lemma sample_start:
  obtains s0 where "start_main scan_one all_set 0 (Some (Some (Fin 20000))) (start_scheduler\<lparr>tm := zero_tier_manager\<rparr>) = Inr (0, s0)"
proof -
  show thesis
    by (rule that) (simp add: start_main_def read_enviroment_variables_def all_set_def sscanf_def scan_one_def set_current_free_dram_def Let_def)
qed

lemma sample_threads:
  obtains s1 where "start_threads (Some 101, Some 100, Some 576) 4 (True, True) (5, 6) (0, 2) (Some (\<lambda>_. Fin 0)) s = Inr s1"
    "sys_enter_mmap_id s1 = 101"
proof -
  obtain h where "hashmap_new (True, True) 8 0 0 0 address_hash address_compare False = Inr (Some h)" using store_map_new by blast
  then show thesis
    using that by (simp add: start_threads_def allocate_vector_status_def set_number_of_nodes_availables_def Let_def actuator_open_pipes_def
        recorder_open_pipes_def read_mmaps_ids_def)
qed

lemma sample_static: "static_data (start_scheduler\<lparr>tm := zero_tier_manager\<rparr>)"
  by (simp add: static_data_def flags_def start_scheduler_def actuator.defs start_actuator_def monitor.defs start_monitor_def intercept.defs
      start_intercept_def recorder.defs start_recorder_def)

lemma calm_sys_ok: "sys_env_ok calm_sys"
  using calm_env_ok calm_penv_ok isort.sorter_axioms by (simp add: sys_env_ok_def calm_sys_def)

lemma sample_run:
  assumes "sys_enter_mmap_id s = 101"
  shows "good_run calm_sys (5, 6) (0, 2) start_preload s 1 (mk_sample 7 101 0 2000000) sample_events"
proof -
  have known: "known_op linux_perf_mem (dram_load 8200)" "known_op linux_perf_mem (store_event 8192)"
    by (simp_all add: dram_load_def store_event_def get_data_src_opcode_def linux_perf_mem_def has_def)
  have "list_all (good_sys_event 1 (e_pm calm_sys)) sample_events"
    using known by (simp add: sample_events_def calm_sys_def all_events_def small_event_def mk_sample_def chunk_list_def)
  moreover have "stores linux_perf_mem [dram_load 8200, store_event 8192] \<le> 2" by (simp add: stores_def)
  then have "sum_list (map (stores_of_event (e_pm calm_sys)) sample_events) \<le> hm_limit"
    by (simp add: sample_events_def calm_sys_def all_events_def hm_limit_def del: stores_simps)
  moreover have "sum_list (map (slots_of 1) sample_events) \<le> MAX_OBJECTS" by (simp add: sample_events_def)
  ultimately show ?thesis using assms calm_sys_ok by (simp add: good_run_def start_preload_def mk_sample_def chunk_list_def)
qed




text \<open>C22: requests are not withdrawn: after the application has mapped and unmapped a range, the library still executes the
  placement request for it; at that time the range is free or belongs to another mapping.\<close>

theorem freed_allocation_bound:
  assumes "sys_inv y" "g_running_intercept (y_sched y) = 1" "mbind_calls (y_pre y) = migration_pipe (y_sched y)"
    "rec_index (y_sched y) + length (chunk_list a len) \<le> MAX_OBJECTS" "is_mmap (y_sched y) a len en ex" "is_munmap (y_sched y) a len un"
    "\<forall>(b, z, sl) \<in> set (chunk_list a len). \<forall>i. live_slot (y_sched y) i \<noteq> Some (b, z)" "rec_pipe_fd (y_sched y) \<noteq> - 1"
    "sys_env_ok env" "p_write_fd (y_pre y) \<noteq> - 1" "p_log_open (y_pre y)"
  shows "\<exists>y'. sys_execs env [Record (Sample en), Record (Sample ex), Record (Sample un), Serve_next] y = Inr y'
    \<and> live_slot (y_sched y') = live_slot (y_sched y)
    \<and> (\<exists>d. mbind_calls (y_pre y') = mbind_calls (y_pre y) @ [d] \<and> d_start_addr d = a)"
proof -
  let ?c = "\<lambda>n. the (clk (e_act env) n)" and ?s = "y_sched y"
  have clk: "clk (e_act env) = (\<lambda>n. Some (?c n))" using env_clk assms(9) by (auto simp: sys_env_ok_def)
  have "rec_inv ?s" using assms(1) by (simp add: sys_inv_def)
  from mmap_munmap_run [OF this assms(4-7), of ?c "pagesize (e_act env)"] assms(8)
  obtain s' where s': "drain_map (clk (e_act env)) (pagesize (e_act env)) [Sample en, Sample ex, Sample un] ?s = Inr s'"
      "live_slot s' = live_slot ?s" "migration_pipe s' = migration_pipe ?s @ placement_msgs (rec_index ?s) (chunk_list a len)"
    unfolding clk [symmetric] by auto
  let ?y = "y\<lparr>y_sched := s'\<rparr>"
  have run: "sys_execs env (map Record [Sample en, Sample ex, Sample un]) y = Inr ?y" by (rule drain_execs [OF s'(1) assms(2)])
  obtain d ds where d: "placement_msgs (rec_index ?s) (chunk_list a len) = d # ds" "d_start_addr d = a" using placement_first by blast
  have "penv_ok (e_pre env)" using assms(9) by (simp add: sys_env_ok_def)
  from handle_request_serves [OF this assms(10,11), of d]
  obtain p' where p': "handle_request (e_pre env) d (y_pre y) = Inr p'" "mbind_calls p' = mbind_calls (y_pre y) @ [d]"
    by (auto simp: serves_def)
  have "sys_exec env Serve_next ?y = Inr (?y\<lparr>y_pre := p'\<rparr>)" using assms(3) s'(3) d(1) p'(1) by (simp add: sys_exec_def)
  then have "sys_execs env (map Record [Sample en, Sample ex, Sample un] @ [Serve_next]) y = Inr (?y\<lparr>y_pre := p'\<rparr>)"
    unfolding sys_execs_append run by simp
  with s'(2) p'(2) d(2) show ?thesis by auto
qed

theorem freed_allocation_bound_witness:
  "\<exists>y'. sys_execs calm_sys [Record (Sample (mk_sample 7 101 0 2500000000)), Record (Sample (mk_sample 7 100 4096 0)),
       Record (Sample (mk_sample 7 576 4096 2500000000)), Serve_next] \<lparr>y_sched = start_scheduler, y_count = 2, y_pre = start_preload\<rparr> = Inr y'
     \<and> live_slot (y_sched y') 0 = None \<and> map d_start_addr (mbind_calls (y_pre y')) = [4096]"
proof -
  let ?y = "\<lparr>y_sched = start_scheduler, y_count = 2, y_pre = start_preload\<rparr>"
  have live: "live_slot start_scheduler i = None" for i by (simp add: live_slot_def initialize_recorder_def)
  have "sys_inv ?y" using start_scheduler_inv by (simp add: sys_inv_def start_preload_def)
  moreover note calm_sys_ok
  moreover have "sys_enter_mmap_id start_scheduler = 101" "sys_exit_mmap_id start_scheduler = 100"
      "sys_enter_munmap_id start_scheduler = 576" "app_pid start_scheduler = 7" "g_running_intercept start_scheduler = 1"
    by (simp_all add: start_scheduler_def actuator.defs start_actuator_def monitor.defs start_monitor_def intercept.defs start_intercept_def recorder.defs start_recorder_def)
  ultimately show ?thesis
    using freed_allocation_bound [of ?y 4096 2500000000 "mk_sample 7 101 0 2500000000" "mk_sample 7 100 4096 0"
        "mk_sample 7 576 4096 2500000000" calm_sys]
    by (auto simp: start_preload_def is_mmap_def is_munmap_def mk_sample_def chunks_2_5 live)
qed

text \<open>C39: the check of the environment variables rejects only the case that all are missing: when some but not all are set,
  a null pointer is passed to \<open>sscanf\<close>; when all are set, the program starts.\<close>

theorem environment_check_incomplete:
  assumes "V = {''MONITOR_INTERVAL'', ''ACTUATOR_INTERVAL'', ''HOTNESS_THRESHOLD'', ''SAMPLE_FREQ''}"
  shows "((\<forall>v \<in> V. getenv v = None) \<longrightarrow> read_enviroment_variables scn getenv s = Inl (Exit (- 1)))
    \<and> ((\<exists>v \<in> V. getenv v = None) \<and> (\<exists>v \<in> V. getenv v \<noteq> None) \<longrightarrow> read_enviroment_variables scn getenv s = Inl Null_deref)
    \<and> ((\<forall>v \<in> V. getenv v \<noteq> None) \<longrightarrow> (\<exists>s'. read_enviroment_variables scn getenv s = Inr s'))"
  unfolding assms
  by (cases "getenv ''MONITOR_INTERVAL''"; cases "getenv ''ACTUATOR_INTERVAL''"; cases "getenv ''HOTNESS_THRESHOLD''";
      cases "getenv ''SAMPLE_FREQ''") (simp_all add: read_enviroment_variables_def sscanf_def Let_def)

theorem environment_check_incomplete_witness:
  "read_enviroment_variables scan_one (all_set(''SAMPLE_FREQ'' := None)) start_scheduler = Inl Null_deref"
  using environment_check_incomplete [OF refl, of "all_set(''SAMPLE_FREQ'' := None)" scan_one start_scheduler]
  by (auto simp: all_set_def)

end
